(* ===== verification/Prelude.thy ===== *)
theory Prelude
  imports Main "HOL-Library.Word" "HOL-Library.Sublist"
begin

text \<open>
  Shared vocabulary of the development: machine integers and byte strings, the
  faults a C++ program can run into, the little-endian byte representation of
  a word, and the generic facts on lists and words that the component theories
  use.
\<close>

unbundle bit_operations_syntax

type_synonym byte = "8 word"
type_synonym u8 = "8 word"
type_synonym u16 = "16 word"
type_synonym u32 = "32 word"
type_synonym u64 = "64 word"
type_synonym bytes = "byte list"

text \<open>
  A computation of the sources either returns or hits a fault: a failed
  \<open>assert\<close>, an access outside the object a pointer refers to, an explicit
  call of \<open>abort\<close> or \<open>port::Crash\<close>, an access to a freed object, taking a
  lock that is already held, or releasing one that is not. \<open>Diverges\<close> stands
  for a loop that never ends.
\<close>

datatype fault =
  Assert_failed | Out_of_bounds | Aborted | Use_after_free | Lock_held | Unlock_free | Diverges

type_synonym 'a run = "fault + 'a"

definition bind_run :: "'a run \<Rightarrow> ('a \<Rightarrow> 'b run) \<Rightarrow> 'b run" where
  "bind_run m f = (case m of Inl e \<Rightarrow> Inl e | Inr x \<Rightarrow> f x)"

definition assert_run :: "bool \<Rightarrow> unit run" where
  "assert_run b = (if b then Inr () else Inl Assert_failed)"

definition of_opt :: "fault \<Rightarrow> 'a option \<Rightarrow> 'a run" where
  "of_opt e x = (case x of None \<Rightarrow> Inl e | Some y \<Rightarrow> Inr y)"

lemma bind_run_simps [simp]:
  "bind_run (Inl e) f = Inl e"
  "bind_run (Inr x) f = f x"
  by (simp_all add: bind_run_def)

lemma of_opt_simps [simp]:
  "of_opt e None = Inl e"
  "of_opt e (Some x) = Inr x"
  by (simp_all add: of_opt_def)

lemma assert_run_simps [simp]:
  "assert_run True = Inr ()"
  "assert_run False = Inl Assert_failed"
  by (simp_all add: assert_run_def)

lemma bind_run_Inr_iff: "bind_run m f = Inr y \<longleftrightarrow> (\<exists>x. m = Inr x \<and> f x = Inr y)"
  by (cases m) auto

lemma of_opt_Inr_iff [simp]: "of_opt e x = Inr y \<longleftrightarrow> x = Some y"
  by (cases x) auto

lemma assert_run_Inr_iff [simp]: "assert_run b = Inr u \<longleftrightarrow> b"
  by (simp add: assert_run_def)

named_theorems enc_simps \<open>what the encoders write, as reference byte strings\<close>
named_theorems dec_simps \<open>what the decoders read back from an encoding\<close>
named_theorems len_simps \<open>lengths of encodings\<close>

section \<open>Little-endian byte strings\<close>

primrec le_bytes :: "nat \<Rightarrow> 'a::len word \<Rightarrow> bytes" where
  "le_bytes 0 w = []"
| "le_bytes (Suc n) w = ucast w # le_bytes n (drop_bit 8 w)"

primrec le_word :: "bytes \<Rightarrow> 'a::len word" where
  "le_word [] = 0"
| "le_word (b # bs) = ucast b OR push_bit 8 (le_word bs)"

lemma length_le_bytes [simp, len_simps]: "length (le_bytes n w) = n"
  by (induction n arbitrary: w) auto

lemma bit_le_word_le_bytes:
  "bit (le_word (le_bytes n (w :: 'a::len word)) :: 'a word) i
     \<longleftrightarrow> i < LENGTH('a) \<and> i < 8 * n \<and> bit w i"
proof (induction n arbitrary: w i)
  case 0
  then show ?case by simp
next
  case (Suc n)
  show ?case
    by (auto simp: bit_or_iff bit_push_bit_iff bit_unsigned_iff Suc.IH bit_drop_bit_eq
        dest: bit_imp_le_length)
qed

lemma le_word_le_bytes: "LENGTH('a) \<le> 8 * n \<Longrightarrow> le_word (le_bytes n (w :: 'a::len word)) = w"
  by (rule bit_word_eqI) (simp add: bit_le_word_le_bytes)

lemma le_bytes_inject: "LENGTH('a) \<le> 8 * n \<Longrightarrow> le_bytes n v = le_bytes n w \<Longrightarrow> v = (w :: 'a::len word)"
  by (metis le_word_le_bytes)

text \<open>Reading and overwriting a run of bytes inside a buffer.\<close>

definition peek :: "nat \<Rightarrow> nat \<Rightarrow> bytes \<Rightarrow> bytes option" where
  "peek off n buf = (if off + n \<le> length buf then Some (take n (drop off buf)) else None)"

definition poke :: "nat \<Rightarrow> bytes \<Rightarrow> bytes \<Rightarrow> bytes option" where
  "poke off bs buf =
     (if off + length bs \<le> length buf
      then Some (take off buf @ bs @ drop (off + length bs) buf) else None)"

lemma poke_length [len_simps]: "poke off bs buf = Some buf' \<Longrightarrow> length buf' = length buf"
  by (auto simp: poke_def split: if_splits)

lemma peek_poke: "poke off bs buf = Some buf' \<Longrightarrow> peek off (length bs) buf' = Some bs"
  by (auto simp: poke_def peek_def split: if_splits)

lemma peek_append: "off + n \<le> length xs \<Longrightarrow> peek off n (xs @ ys) = peek off n xs"
  by (simp add: peek_def)

lemma peek_skip [simp]: "peek (length xs) n (xs @ ys) = peek 0 n ys"
  by (simp add: peek_def)

lemma peek_0: "n \<le> length ys \<Longrightarrow> peek 0 n ys = Some (take n ys)"
  by (simp add: peek_def)

section \<open>Bounded quantifiers\<close>

lemma all_less_Suc_split: "(\<forall>i < Suc k. P i) \<longleftrightarrow> P 0 \<and> (\<forall>i < k. P (Suc i))"
  by (metis Suc_less_eq gr0_implies_Suc less_Suc_eq_0_disj)

lemma ex_less_Suc_split: "(\<exists>i < Suc k. P i) \<longleftrightarrow> P 0 \<or> (\<exists>i < k. P (Suc i))"
  by (metis Suc_less_eq gr0_implies_Suc less_Suc_eq_0_disj)

section \<open>Words\<close>

lemma unat_or_disjoint:
  fixes a b :: "'a::len word"
  assumes "a AND b = 0"
  shows "unat (a OR b) = unat a + unat b"
proof -
  have "unat a AND unat b = 0"
    using assms by (metis unat_0 unsigned_and_eq)
  then show ?thesis
    by (simp add: unsigned_or_eq disjunctive_add_eq_or)
qed

lemma drop_bit_less:
  fixes w :: "'a::len word"
  assumes "0 < n" "w \<noteq> 0"
  shows "unat (drop_bit n w) < unat w"
proof -
  have "0 < unat w" using assms(2) by (simp add: unat_gt_0)
  moreover have "(1::nat) < 2 ^ n" using assms(1) by (rule one_less_power[rotated]) simp
  ultimately have "unat w div 2 ^ n < unat w" by simp
  then show ?thesis by (simp only: unat_drop_bit_eq) (simp add: drop_bit_eq_div)
qed

lemma unat_less_exp: "unat (w :: 'a::len word) < 2 ^ LENGTH('a)"
  by (rule unsigned_less)

lemma unat_ucast_widen:
  "LENGTH('a) \<le> LENGTH('b) \<Longrightarrow> unat (ucast (w :: 'a::len word) :: 'b::len word) = unat w"
  using less_le_trans[OF unat_less_exp[of w] power_increasing[of "LENGTH('a)" "LENGTH('b)" "2::nat"]]
  by (simp only: unsigned_ucast_eq) (simp add: take_bit_nat_eq_self)

lemma unat_ucast_byte: "unat (ucast (w :: 'a::len word) :: byte) = unat w mod 256"
  by (simp add: unsigned_ucast_eq take_bit_eq_mod)

lemma bit_128_nat: "bit (128::nat) i \<longleftrightarrow> i = 7"
  using bit_exp_iff[where 'a=nat and m=7 and n=i] by auto

lemma mod_256_or_128:
  fixes n :: nat
  shows "(n OR 128) mod 256 = n mod 128 + 128"
proof -
  have "(n OR 128) mod 256 = take_bit 8 (n OR 128)"
    by (simp add: take_bit_eq_mod)
  also have "\<dots> = take_bit 7 n OR 128"
    by (rule bit_eqI) (auto simp: bit_take_bit_iff bit_or_iff bit_128_nat)
  also have "\<dots> = take_bit 7 n + 128"
    by (rule disjunctive_add_eq_or[symmetric], rule bit_eqI)
       (auto simp: bit_take_bit_iff bit_and_iff bit_128_nat)
  finally show ?thesis by (simp add: take_bit_eq_mod)
qed

lemma unat_128: "8 \<le> LENGTH('a) \<Longrightarrow> unat (128 :: 'a::len word) = 128"
  using power_increasing[of 8 "LENGTH('a)" "2::nat"] by (simp add: take_bit_nat_eq_self)

lemma unat_byte_of_nat: "n < 256 \<Longrightarrow> unat (word_of_nat n :: byte) = n"
  by (simp add: unsigned_of_nat take_bit_eq_mod)

lemma cont_byte:
  fixes w :: "'a::len word"
  assumes "8 \<le> LENGTH('a)"
  shows "(ucast (w OR 128) :: byte) = word_of_nat (unat w mod 128 + 128)"
proof (rule word_unat_eq_iff[THEN iffD2])
  have "unat w mod 128 < 128" by simp
  then have "unat w mod 128 + 128 < 256" by linarith
  then show "unat (ucast (w OR 128) :: byte) = unat (word_of_nat (unat w mod 128 + 128) :: byte)"
    by (simp only: unat_ucast_byte unat_byte_of_nat)
       (simp only: unsigned_or_eq unat_128[OF assms] mod_256_or_128)
qed

lemma unat_and_127:
  fixes v :: "'a::len word"
  assumes "8 \<le> LENGTH('a)"
  shows "unat (v AND 127) = unat v mod 128"
proof -
  have "(127 :: 'a word) = mask 7" by (simp add: mask_eq_exp_minus_1)
  then have "v AND 127 = take_bit 7 v" by (simp only: take_bit_eq_mask)
  then have "unat (v AND 127) = take_bit 7 (unat v)" by (simp only: unsigned_take_bit_eq)
  then show ?thesis by (simp only: take_bit_eq_mod) simp
qed

lemma unat_shiftr: "unat (drop_bit n w) = unat (w :: 'a::len word) div 2 ^ n"
  by (simp only: unat_drop_bit_eq) (simp add: drop_bit_eq_div)

lemma last_byte: "(ucast (drop_bit n (w :: 'a::len word)) :: byte) = word_of_nat (unat w div 2 ^ n)"
  by (simp flip: unat_shiftr)

lemma word_of_nat_split:
  "(word_of_nat n :: 'a::len word)
     = word_of_nat (n mod 128) OR push_bit 7 (word_of_nat (n div 128))"
proof (rule bit_word_eqI)
  fix i assume "i < LENGTH('a)"
  moreover have "n mod 128 = take_bit 7 n" "n div 128 = drop_bit 7 n"
    by (simp_all add: take_bit_eq_mod drop_bit_eq_div)
  ultimately show "bit (word_of_nat n :: 'a word) i =
      bit (word_of_nat (n mod 128) OR push_bit 7 (word_of_nat (n div 128)) :: 'a word) i"
    by (auto simp: bit_or_iff bit_push_bit_iff bit_of_nat_iff possible_bit_word bit_take_bit_iff
        bit_drop_bit_eq simp del: push_bit_of_nat of_nat_or_eq)
qed

lemma unat_ucast_of_byte:
  "8 \<le> LENGTH('a) \<Longrightarrow> n < 256 \<Longrightarrow> (ucast (word_of_nat n :: byte) :: 'a::len word) = word_of_nat n"
  by (rule word_unat_eq_iff[THEN iffD2])
     (use power_increasing[of 8 "LENGTH('a)" "2::nat"] in
       \<open>simp add: unsigned_ucast_eq unsigned_of_nat take_bit_nat_eq_self\<close>)

lemma word_and_128:
  assumes "8 \<le> LENGTH('a)" "n < 256"
  shows "(word_of_nat n :: 'a::len word) AND 128 = 0 \<longleftrightarrow> n < 128"
proof -
  have "(128 :: 'a word) = push_bit 7 1" by (simp add: push_bit_eq_mult)
  then have "(word_of_nat n :: 'a word) AND 128 = 0 \<longleftrightarrow> \<not> bit (word_of_nat n :: 'a word) 7"
    by (simp add: bit_iff_and_push_bit_not_eq_0)
  also have "\<dots> \<longleftrightarrow> \<not> bit n 7" using assms(1) by (simp add: bit_of_nat_iff possible_bit_word)
  also have "\<dots> \<longleftrightarrow> n < 128"
  proof (cases "n < 128")
    case False
    then have "n div 128 = 1" using assms(2) by (simp add: div_nat_eqI)
    then show ?thesis using False by (simp add: bit_iff_odd)
  qed (simp add: bit_iff_odd)
  finally show ?thesis .
qed

lemma word_and_127:
  assumes "8 \<le> LENGTH('a)" "n < 256"
  shows "(word_of_nat n :: 'a::len word) AND 127 = word_of_nat (n mod 128)"
proof -
  have "(127 :: 'a word) = mask 7" by (simp add: mask_eq_exp_minus_1)
  then have "(word_of_nat n :: 'a word) AND 127 = take_bit 7 (word_of_nat n)"
    by (simp only: take_bit_eq_mask)
  also have "\<dots> = word_of_nat (take_bit 7 n)"
    by (rule bit_word_eqI) (auto simp: bit_take_bit_iff bit_of_nat_iff possible_bit_word)
  finally show ?thesis by (simp add: take_bit_eq_mod)
qed

lemma ucast_and_255: "8 \<le> LENGTH('a) \<Longrightarrow> (ucast ((w :: 'a::len word) AND 255) :: byte) = ucast w"
proof -
  have m: "(255 :: 'a word) = mask 8" by (simp add: mask_eq_exp_minus_1)
  show ?thesis unfolding m
    by (rule bit_word_eqI) (auto simp: bit_unsigned_iff bit_and_iff bit_mask_iff dest: bit_imp_le_length)
qed

lemma bit_le_word:
  "bit (le_word bs :: 'a::len word) i
     \<longleftrightarrow> i < LENGTH('a) \<and> i div 8 < length bs \<and> bit (bs ! (i div 8)) (i mod 8)"
proof (induction bs arbitrary: i)
  case (Cons b bs)
  show ?case
  proof (cases "i < 8")
    case True
    then show ?thesis by (auto simp: bit_or_iff bit_unsigned_iff bit_push_bit_iff)
  next
    case False
    then have "i div 8 = Suc ((i - 8) div 8)" "i mod 8 = (i - 8) mod 8"
      by (simp_all add: div_if[of 8 i] mod_if[of i 8])
    with False show ?thesis
      by (auto simp: bit_or_iff bit_unsigned_iff bit_push_bit_iff Cons.IH dest: bit_imp_le_length)
  qed
qed simp

lemma le_word_append: "le_word (xs @ ys) = le_word xs OR push_bit (8 * length xs) (le_word ys)"
  by (induction xs) (simp_all add: push_bit_or or.assoc)

lemma ucast_le_word:
  "8 * length bs \<le> LENGTH('b) \<Longrightarrow> (ucast (le_word bs :: 'b::len word) :: 'a::len word) = le_word bs"
  by (rule bit_word_eqI) (auto simp: bit_unsigned_iff bit_le_word)

lemma le_bytes_le_word:
  "8 * length bs \<le> LENGTH('a) \<Longrightarrow> le_bytes (length bs) (le_word bs :: 'a::len word) = bs"
proof (induction bs arbitrary: )
  case (Cons b bs)
  have "ucast (ucast b OR push_bit 8 (le_word bs) :: 'a word) = b"
    using Cons.prems
    by (intro bit_word_eqI) (auto simp: bit_unsigned_iff bit_or_iff bit_push_bit_iff)
  moreover have "drop_bit 8 (ucast b OR push_bit 8 (le_word bs) :: 'a word) = le_word bs"
    using Cons.prems
    by (intro bit_word_eqI)
       (auto simp: bit_drop_bit_eq bit_unsigned_iff bit_or_iff bit_push_bit_iff bit_le_word
         dest: bit_imp_le_length)
  ultimately show ?case using Cons by simp
qed simp

end
