(* ===== verification/Codec.thy ===== *)
theory Codec
  imports Prelude
begin

text \<open>
  The two contracts the on-device formats rely on: a codec whose encodings can
  be read back from the front of any byte string, and a reader that consumes a
  bounded, non-empty prefix of its input whatever the input is. The facts of a
  sequence of encoded items are proved once here.
\<close>

primrec dec_n :: "(bytes \<Rightarrow> ('a \<times> bytes) option) \<Rightarrow> nat \<Rightarrow> bytes \<Rightarrow> ('a list \<times> bytes) option" where
  "dec_n dec 0 p = Some ([], p)"
| "dec_n dec (Suc n) p =
     (case dec p of
        None \<Rightarrow> None
      | Some (x, q) \<Rightarrow>
          (case dec_n dec n q of None \<Rightarrow> None | Some (xs, r) \<Rightarrow> Some (x # xs, r)))"

locale prefix_codec =
  fixes enc :: "'a \<Rightarrow> bytes"
    and dec :: "bytes \<Rightarrow> ('a \<times> bytes) option"
    and ok :: "'a \<Rightarrow> bool"
  assumes dec_enc: "ok x \<Longrightarrow> dec (enc x @ rest) = Some (x, rest)"
begin

lemma enc_unique:
  assumes "ok x" "ok y" "enc x @ r = enc y @ s"
  shows "x = y \<and> r = s"
proof -
  have "Some (x, r) = Some (y, s)"
    using dec_enc[OF assms(1), of r] dec_enc[OF assms(2), of s] by (simp only: assms(3))
  then show ?thesis by simp
qed

lemma enc_inj_on: "inj_on enc {x. ok x}"
proof (rule inj_onI)
  fix x y assume "x \<in> {x. ok x}" "y \<in> {x. ok x}" "enc x = enc y"
  then show "x = y" using enc_unique[of x y "[]" "[]"] by simp
qed

lemma enc_prefix_free: "ok x \<Longrightarrow> ok y \<Longrightarrow> prefix (enc x) (enc y) \<Longrightarrow> x = y"
  using enc_unique[of x y _ "[]"] by (auto elim!: prefixE)

lemma dec_n_concat:
  "\<forall>x \<in> set xs. ok x \<Longrightarrow> dec_n dec (length xs) (concat (map enc xs) @ rest) = Some (xs, rest)"
  by (induction xs) (simp_all add: dec_enc)

lemma concat_unique:
  assumes "\<forall>x \<in> set xs. ok x" "\<forall>y \<in> set ys. ok y" "length xs = length ys"
    and "concat (map enc xs) = concat (map enc ys)"
  shows "xs = ys"
  using dec_n_concat[OF assms(1), of "[]"] dec_n_concat[OF assms(2), of "[]"] assms(3,4) by simp

end

locale bounded_reader =
  fixes dec :: "bytes \<Rightarrow> ('a \<times> bytes) option"
    and lo hi :: nat
  assumes dec_consumes:
    "dec p = Some (x, q) \<Longrightarrow> \<exists>c. p = c @ q \<and> lo \<le> length c \<and> length c \<le> hi"
begin

lemma dec_suffix: "dec p = Some (x, q) \<Longrightarrow> suffix q p"
  using dec_consumes[of p x q] by (auto simp: suffix_def)

lemma dec_length:
  assumes "dec p = Some (x, q)"
  shows "length q + lo \<le> length p" "length p \<le> length q + hi"
  using dec_consumes[OF assms] by auto

lemma dec_n_consumes:
  "dec_n dec n p = Some (xs, q) \<Longrightarrow>
     length xs = n \<and> suffix q p \<and> length q + n * lo \<le> length p \<and> length p \<le> length q + n * hi"
proof (induction n arbitrary: p xs q)
  case 0
  then show ?case by simp
next
  case (Suc n)
  then obtain x q' ys where s: "dec p = Some (x, q')" "dec_n dec n q' = Some (ys, q)" "xs = x # ys"
    by (auto split: option.splits)
  from Suc.IH[OF s(2)] dec_suffix[OF s(1)] dec_length[OF s(1)] s(3) show ?case
    by (auto intro: suffix_order.trans)
qed

end

end
