(* ===== verification/Coding.thy ===== *)
theory Coding
  imports Codec
begin

text \<open>
  \<^verbatim>\<open>src/insdb/util/coding.h\<close> and \<^verbatim>\<open>src/insdb/util/coding.cc\<close>: the fixed-width
  and variable-length encodings every on-device format of InSDB is built from.
  A destination string is a byte list that grows at its end, a source \<open>Slice\<close>
  (or a \<open>[p, limit)\<close> pointer pair) is the byte list still to be read. The
  encoders that write through a raw pointer return the bytes they write.
\<close>

section \<open>Fixed-width integers\<close>

definition kLittleEndian :: bool where
  "kLittleEndian = True"

text \<open>The bytes \<open>memcpy\<close> copies out of (into) an integer object of \<open>n\<close> bytes.\<close>

definition object_bytes :: "bool \<Rightarrow> nat \<Rightarrow> 'a::len word \<Rightarrow> bytes" where
  "object_bytes little n w = (if little then le_bytes n w else rev (le_bytes n w))"

definition object_word :: "bool \<Rightarrow> bytes \<Rightarrow> 'a::len word" where
  "object_word little bs = le_word (if little then bs else rev bs)"

definition EncodeFixed16 :: "bool \<Rightarrow> u16 \<Rightarrow> bytes" where
  "EncodeFixed16 little v =
     (if little then object_bytes little 2 v
      else [ucast (v AND 0xff), ucast (drop_bit 8 v AND 0xff)])"

definition EncodeFixed32 :: "bool \<Rightarrow> u32 \<Rightarrow> bytes" where
  "EncodeFixed32 little v =
     (if little then object_bytes little 4 v
      else [ucast (v AND 0xff), ucast (drop_bit 8 v AND 0xff),
            ucast (drop_bit 16 v AND 0xff), ucast (drop_bit 24 v AND 0xff)])"

definition EncodeFixed64 :: "bool \<Rightarrow> u64 \<Rightarrow> bytes" where
  "EncodeFixed64 little v =
     (if little then object_bytes little 8 v
      else [ucast (v AND 0xff), ucast (drop_bit 8 v AND 0xff),
            ucast (drop_bit 16 v AND 0xff), ucast (drop_bit 24 v AND 0xff),
            ucast (drop_bit 32 v AND 0xff), ucast (drop_bit 40 v AND 0xff),
            ucast (drop_bit 48 v AND 0xff), ucast (drop_bit 56 v AND 0xff)])"

definition PutFixed16 :: "bytes \<Rightarrow> u16 \<Rightarrow> bytes" where
  "PutFixed16 dst v = dst @ EncodeFixed16 kLittleEndian v"

definition PutFixed32 :: "bytes \<Rightarrow> u32 \<Rightarrow> bytes" where
  "PutFixed32 dst v = dst @ EncodeFixed32 kLittleEndian v"

definition PutFixed64 :: "bytes \<Rightarrow> u64 \<Rightarrow> bytes" where
  "PutFixed64 dst v = dst @ EncodeFixed64 kLittleEndian v"

text \<open>
  The decoders read through a raw pointer without a bounds check; \<open>None\<close> marks a
  read past the end of the object.
\<close>

definition DecodeFixed16 :: "bool \<Rightarrow> bytes \<Rightarrow> u16 option" where
  "DecodeFixed16 little p =
     (case p of
        b0 # b1 # _ \<Rightarrow>
          Some (if little then object_word little [b0, b1]
                else ucast b0 OR push_bit 8 (ucast b1))
      | _ \<Rightarrow> None)"

definition DecodeFixed32 :: "bool \<Rightarrow> bytes \<Rightarrow> u32 option" where
  "DecodeFixed32 little p =
     (case p of
        b0 # b1 # b2 # b3 # _ \<Rightarrow>
          Some (if little then object_word little [b0, b1, b2, b3]
                else ucast b0 OR push_bit 8 (ucast b1)
                  OR push_bit 16 (ucast b2) OR push_bit 24 (ucast b3))
      | _ \<Rightarrow> None)"

definition DecodeFixed64 :: "bool \<Rightarrow> bytes \<Rightarrow> u64 option" where
  "DecodeFixed64 little p =
     (if length p < 8 then None
      else if little then Some (object_word little (take 8 p))
      else (case (DecodeFixed32 little p, DecodeFixed32 little (drop 4 p)) of
              (Some lo, Some hi) \<Rightarrow> Some (push_bit 32 (ucast hi) OR ucast lo)
            | _ \<Rightarrow> None))"

section \<open>Variable-length integers\<close>

definition EncodeVarint16 :: "u16 \<Rightarrow> bytes" where
  "EncodeVarint16 v =
     (if v < 0x80 then [ucast v]
      else if v < 0x4000 then [ucast (v OR 128), ucast (drop_bit 7 v)]
      else [ucast (v OR 128), ucast (drop_bit 7 v OR 128), ucast (drop_bit 14 v)])"

definition PutVarint16 :: "bytes \<Rightarrow> u16 \<Rightarrow> bytes" where
  "PutVarint16 dst v = dst @ EncodeVarint16 v"

definition EncodeVarint32 :: "u32 \<Rightarrow> bytes" where
  "EncodeVarint32 v =
     (if v < 0x80 then [ucast v]
      else if v < 0x4000 then [ucast (v OR 128), ucast (drop_bit 7 v)]
      else if v < 0x200000 then
        [ucast (v OR 128), ucast (drop_bit 7 v OR 128), ucast (drop_bit 14 v)]
      else if v < 0x10000000 then
        [ucast (v OR 128), ucast (drop_bit 7 v OR 128), ucast (drop_bit 14 v OR 128),
         ucast (drop_bit 21 v)]
      else
        [ucast (v OR 128), ucast (drop_bit 7 v OR 128), ucast (drop_bit 14 v OR 128),
         ucast (drop_bit 21 v OR 128), ucast (drop_bit 28 v)])"

definition PutVarint32 :: "bytes \<Rightarrow> u32 \<Rightarrow> bytes" where
  "PutVarint32 dst v = dst @ EncodeVarint32 v"

function EncodeVarint64 :: "u64 \<Rightarrow> bytes" where
  "EncodeVarint64 v =
     (if 128 \<le> v then ucast ((v AND 127) OR 128) # EncodeVarint64 (drop_bit 7 v)
      else [ucast v])"
  by pat_completeness auto
termination
  by (relation "measure unat") (auto intro!: drop_bit_less)

declare EncodeVarint64.simps [simp del]

definition PutVarint64 :: "bytes \<Rightarrow> u64 \<Rightarrow> bytes" where
  "PutVarint64 dst v = dst @ EncodeVarint64 v"

definition PutLengthPrefixedSlice :: "bytes \<Rightarrow> bytes \<Rightarrow> bytes" where
  "PutLengthPrefixedSlice dst value =
     PutVarint32 dst (word_of_nat (length value)) @ value"

function VarintLength_loop :: "u64 \<Rightarrow> nat \<Rightarrow> nat" where
  "VarintLength_loop v len =
     (if 128 \<le> v then VarintLength_loop (drop_bit 7 v) (len + 1) else len)"
  by pat_completeness auto
termination
  by (relation "measure (\<lambda>(v, len). unat v)") (auto intro!: drop_bit_less)

declare VarintLength_loop.simps [simp del]

definition VarintLength :: "u64 \<Rightarrow> nat" where
  "VarintLength v = VarintLength_loop v 1"

text \<open>
  The three decoding loops differ only in the width of the accumulator and in
  the last shift they allow.
\<close>

fun varint_loop :: "nat \<Rightarrow> nat \<Rightarrow> 'a::len word \<Rightarrow> bytes \<Rightarrow> ('a word \<times> bytes) option" where
  "varint_loop maxshift shift result [] = None"
| "varint_loop maxshift shift result (b # p) =
     (if shift \<le> maxshift then
        (let byte = ucast b in
         if byte AND 128 \<noteq> 0
         then varint_loop maxshift (shift + 7) (result OR push_bit shift (byte AND 127)) p
         else Some (result OR push_bit shift byte, p))
      else None)"

definition GetVarint16PtrFallback :: "bytes \<Rightarrow> (u16 \<times> bytes) option" where
  "GetVarint16PtrFallback p = varint_loop 14 0 0 p"

definition GetVarint32PtrFallback :: "bytes \<Rightarrow> (u32 \<times> bytes) option" where
  "GetVarint32PtrFallback p = varint_loop 28 0 0 p"

definition GetVarint64Ptr :: "bytes \<Rightarrow> (u64 \<times> bytes) option" where
  "GetVarint64Ptr p = varint_loop 63 0 0 p"

definition GetVarint16Ptr :: "bytes \<Rightarrow> (u16 \<times> bytes) option" where
  "GetVarint16Ptr p =
     (case p of
        b # p' \<Rightarrow> if (ucast b :: u16) AND 128 = 0 then Some (ucast b, p')
                  else GetVarint16PtrFallback p
      | [] \<Rightarrow> GetVarint16PtrFallback p)"

definition GetVarint32Ptr :: "bytes \<Rightarrow> (u32 \<times> bytes) option" where
  "GetVarint32Ptr p =
     (case p of
        b # p' \<Rightarrow> if (ucast b :: u32) AND 128 = 0 then Some (ucast b, p')
                  else GetVarint32PtrFallback p
      | [] \<Rightarrow> GetVarint32PtrFallback p)"

text \<open>The \<open>Slice\<close> readers advance the slice on success and leave it alone on failure (\<open>None\<close>).\<close>

definition GetVarint16 :: "bytes \<Rightarrow> (u16 \<times> bytes) option" where
  "GetVarint16 input = (case GetVarint16Ptr input of None \<Rightarrow> None | Some (v, q) \<Rightarrow> Some (v, q))"

definition GetVarint32 :: "bytes \<Rightarrow> (u32 \<times> bytes) option" where
  "GetVarint32 input = (case GetVarint32Ptr input of None \<Rightarrow> None | Some (v, q) \<Rightarrow> Some (v, q))"

definition GetVarint64 :: "bytes \<Rightarrow> (u64 \<times> bytes) option" where
  "GetVarint64 input = (case GetVarint64Ptr input of None \<Rightarrow> None | Some (v, q) \<Rightarrow> Some (v, q))"

definition GetLengthPrefixedSliceInplace :: "bytes \<Rightarrow> (bytes \<times> bytes) option" where
  "GetLengthPrefixedSliceInplace p =
     (case GetVarint32Ptr p of
        None \<Rightarrow> None
      | Some (len, q) \<Rightarrow>
          if unat len > length q then None
          else Some (take (unat len) q, drop (unat len) q))"

text \<open>
  The result (if any) and the slice as the call leaves it: a length that
  exceeds the remaining input has been consumed when the call fails.
\<close>

definition GetLengthPrefixedSlice :: "bytes \<Rightarrow> bytes option \<times> bytes" where
  "GetLengthPrefixedSlice input =
     (case GetVarint32 input of
        None \<Rightarrow> (None, input)
      | Some (len, q) \<Rightarrow>
          if length q \<ge> unat len
          then (Some (take (unat len) q), drop (unat len) q) else (None, q))"

section \<open>Reference encoding of the variable-length integers\<close>

text \<open>
  The three unrolled or looping encoders write the same byte string: the
  number in base 128, least significant digit first, every digit but the last
  with its top bit set.
\<close>

fun varint_bytes :: "nat \<Rightarrow> bytes" where
  "varint_bytes n =
     (if n < 128 then [word_of_nat n]
      else word_of_nat (n mod 128 + 128) # varint_bytes (n div 128))"

declare varint_bytes.simps [simp del]

lemma varint_bytes_small: "n < 128 \<Longrightarrow> varint_bytes n = [word_of_nat n]"
  by (subst varint_bytes.simps) simp

lemma varint_bytes_big:
  "128 \<le> n \<Longrightarrow> varint_bytes n = word_of_nat (n mod 128 + 128) # varint_bytes (n div 128)"
  by (subst varint_bytes.simps) simp

lemma EncodeVarint64_ref: "EncodeVarint64 v = varint_bytes (unat v)"
proof (induction v rule: EncodeVarint64.induct)
  case (1 v)
  have c: "ucast ((v AND 127) OR 128) = (word_of_nat (unat v mod 128 + 128) :: byte)"
    by (simp add: cont_byte unat_and_127)
  show ?case
  proof (cases "128 \<le> v")
    case True
    then have "128 \<le> unat v" by (simp add: word_le_nat_alt)
    then show ?thesis
      using True 1 c
      by (simp only: EncodeVarint64.simps[of v] varint_bytes_big unat_shiftr if_True) simp
  next
    case False
    then have "unat v < 128" by (simp add: word_le_nat_alt)
    then show ?thesis using False
      by (simp add: EncodeVarint64.simps[of v] varint_bytes_small)
  qed
qed

lemma EncodeVarint16_ref: "EncodeVarint16 v = varint_bytes (unat v)"
proof -
  have b: "unat v < 65536" using unsigned_less[of v] by simp
  consider "unat v < 128" | "128 \<le> unat v" "unat v < 16384" | "16384 \<le> unat v" by linarith
  then show ?thesis
  proof cases
    case 3
    then have "128 \<le> unat v" "128 \<le> unat v div 128" "unat v div 16384 < 128" using b by auto
    then show ?thesis using 3
      by (simp add: EncodeVarint16_def word_less_nat_alt cont_byte last_byte unat_shiftr
        varint_bytes_small varint_bytes_big div_mult2_eq[symmetric])
  qed (auto simp add: EncodeVarint16_def word_less_nat_alt cont_byte last_byte unat_shiftr
        varint_bytes_small varint_bytes_big div_mult2_eq[symmetric])
qed

lemma EncodeVarint32_ref: "EncodeVarint32 v = varint_bytes (unat v)"
proof -
  define n where "n = unat v"
  have b: "n < 4294967296" using unsigned_less[of v] by (simp add: n_def)
  have lt: "v < 0x80 \<longleftrightarrow> n < 128" "v < 0x4000 \<longleftrightarrow> n < 16384"
    "v < 0x200000 \<longleftrightarrow> n < 2097152" "v < 0x10000000 \<longleftrightarrow> n < 268435456"
    by (simp_all add: word_less_nat_alt n_def)
  have e: "ucast v = (word_of_nat n :: byte)"
    "ucast (v OR 128) = (word_of_nat (n mod 128 + 128) :: byte)"
    "ucast (drop_bit m v) = (word_of_nat (n div 2 ^ m) :: byte)"
    "ucast (drop_bit m v OR 128) = (word_of_nat (n div 2 ^ m mod 128 + 128) :: byte)" for m
    by (simp_all add: n_def last_byte cont_byte unat_shiftr del: of_nat_add)
  have d: "n div 128 div 128 = n div 16384" "n div 16384 div 128 = n div 2097152"
    "n div 2097152 div 128 = n div 268435456"
    by (simp_all flip: div_mult2_eq)
  have p: "(2::nat) ^ 7 = 128" "(2::nat) ^ 14 = 16384" "(2::nat) ^ 21 = 2097152"
    "(2::nat) ^ 28 = 268435456" by simp_all
  note r = EncodeVarint32_def lt e p if_True if_False n_def[symmetric]
  consider "n < 128" | "128 \<le> n" "n < 16384" | "16384 \<le> n" "n < 2097152"
    | "2097152 \<le> n" "n < 268435456" | "268435456 \<le> n" using b by linarith
  then show ?thesis
  proof cases
    case 1
    then show ?thesis by (simp only: r varint_bytes_small)
  next
    case 2
    then have "\<not> n < 128" "n div 128 < 128" by auto
    with 2 show ?thesis by (simp only: r varint_bytes_small varint_bytes_big)
  next
    case 3
    then have "\<not> n < 128" "\<not> n < 16384" "128 \<le> n" "128 \<le> n div 128" "n div 16384 < 128" by auto
    with 3 show ?thesis by (simp only: r varint_bytes_small varint_bytes_big d)
  next
    case 4
    then have "\<not> n < 128" "\<not> n < 16384" "\<not> n < 2097152" "128 \<le> n" "128 \<le> n div 128"
      "128 \<le> n div 16384" "n div 2097152 < 128" by auto
    with 4 show ?thesis by (simp only: r varint_bytes_small varint_bytes_big d)
  next
    case 5
    then have "\<not> n < 128" "\<not> n < 16384" "\<not> n < 2097152" "\<not> n < 268435456" "128 \<le> n"
      "128 \<le> n div 128" "128 \<le> n div 16384" "128 \<le> n div 2097152" "n div 268435456 < 128"
      using b by auto
    then show ?thesis by (simp only: r varint_bytes_small varint_bytes_big d)
  qed
qed

lemma varint_loop_varint_bytes:
  fixes r :: "'a::len word"
  assumes "8 \<le> LENGTH('a)" and ms: "\<And>k. 7 * k < LENGTH('a) \<Longrightarrow> 7 * k \<le> ms"
    and "n * 2 ^ (7 * k) < 2 ^ LENGTH('a)" and "0 < n \<or> k = 0"
  shows "varint_loop ms (7 * k) r (varint_bytes n @ rest)
           = Some (r OR push_bit (7 * k) (word_of_nat n), rest)"
  using assms(3,4)
proof (induction n arbitrary: k r rule: varint_bytes.induct)
  case (1 n)
  have "7 * k < LENGTH('a)"
  proof (cases "k = 0")
    case False
    then have "2 ^ (7 * k) \<le> n * 2 ^ (7 * k)" using 1(3) by simp
    then have "2 ^ (7 * k) < (2 ^ LENGTH('a) :: nat)" using 1(2) by linarith
    then show ?thesis by (rule power_less_imp_less_exp[rotated]) simp
  qed simp
  then have k: "7 * k \<le> ms" by (rule ms)
  show ?case
  proof (cases "n < 128")
    case True
    then show ?thesis using k assms(1)
      by (simp add: varint_bytes_small unat_ucast_of_byte word_and_128 del: push_bit_of_nat)
  next
    case False
    have m: "n mod 128 + 128 < 256" using mod_less_divisor[of 128 n] by linarith
    have "(n div 128) * 2 ^ (7 * Suc k) = (n div 128 * 128) * 2 ^ (7 * k)" by (simp add: power_add)
    also have "\<dots> \<le> n * 2 ^ (7 * k)" by simp
    finally have "(n div 128) * 2 ^ (7 * Suc k) < 2 ^ LENGTH('a)" using 1(2) by linarith
    moreover have "0 < n div 128" using False by simp
    ultimately have IH: "varint_loop ms (7 * Suc k) r' (varint_bytes (n div 128) @ rest)
       = Some (r' OR push_bit (7 * Suc k) (word_of_nat (n div 128)), rest)" for r' :: "'a word"
      using 1(1)[OF False, of "Suc k" r'] by blast
    have "push_bit (7 * k) (word_of_nat n :: 'a word) = push_bit (7 * k) (word_of_nat (n mod 128))
       OR push_bit (7 * Suc k) (word_of_nat (n div 128))"
      by (subst word_of_nat_split) (simp only: push_bit_or push_bit_push_bit mult_Suc_right add.commute)
    then show ?thesis using k False m assms(1) IH
      by (simp add: varint_bytes_big unat_ucast_of_byte word_and_128 word_and_127 or.assoc
           add.commute del: push_bit_of_nat of_nat_add)
  qed
qed

lemma length_varint_bytes: "n < 128 ^ Suc k \<Longrightarrow> length (varint_bytes n) \<le> Suc k"
proof (induction k arbitrary: n)
  case 0
  then show ?case by (simp add: varint_bytes_small)
next
  case (Suc k)
  show ?case
  proof (cases "n < 128")
    case False
    have "n div 128 < 128 ^ Suc k" using Suc.prems by (simp add: div_less_iff_less_mult mult.commute)
    with False Suc.IH show ?thesis by (simp add: varint_bytes_big)
  qed (simp add: varint_bytes_small)
qed

lemma varint_bytes_not_Nil [simp]: "varint_bytes n \<noteq> []"
  by (cases "n < 128") (simp_all add: varint_bytes_small varint_bytes_big)

lemma VarintLength_loop_ref: "VarintLength_loop v len + 1 = len + length (varint_bytes (unat v))"
proof (induction v len rule: VarintLength_loop.induct)
  case (1 v len)
  show ?case
  proof (cases "128 \<le> v")
    case True
    then have "128 \<le> unat v" by (simp add: word_le_nat_alt)
    with True 1 show ?thesis
      by (simp add: VarintLength_loop.simps[of v] varint_bytes_big unat_shiftr)
  next
    case False
    then have "unat v < 128" by (simp add: word_le_nat_alt)
    with False show ?thesis by (simp add: VarintLength_loop.simps[of v] varint_bytes_small)
  qed
qed

lemma VarintLength_ref: "VarintLength v = length (varint_bytes (unat v))"
  using VarintLength_loop_ref[of v 1] by (simp add: VarintLength_def)

section \<open>The readers invert the writers\<close>

lemma seven_mult_14: "7 * k < 16 \<Longrightarrow> 7 * k \<le> (14 :: nat)" by presburger
lemma seven_mult_28: "7 * k < 32 \<Longrightarrow> 7 * k \<le> (28 :: nat)" by presburger
lemma seven_mult_63: "7 * k < 64 \<Longrightarrow> 7 * k \<le> (63 :: nat)" by presburger

lemma GetVarint16PtrFallback_enc: "GetVarint16PtrFallback (EncodeVarint16 v @ rest) = Some (v, rest)"
  using varint_loop_varint_bytes[where k = 0 and r = "0 :: u16" and n = "unat v" and ms = 14 and rest = rest]
    unat_less_exp[of v]
  by (simp add: GetVarint16PtrFallback_def EncodeVarint16_ref seven_mult_14)

lemma GetVarint32PtrFallback_enc: "GetVarint32PtrFallback (EncodeVarint32 v @ rest) = Some (v, rest)"
  using varint_loop_varint_bytes[where k = 0 and r = "0 :: u32" and n = "unat v" and ms = 28 and rest = rest]
    unat_less_exp[of v]
  by (simp add: GetVarint32PtrFallback_def EncodeVarint32_ref seven_mult_28)

lemma GetVarint64Ptr_enc: "GetVarint64Ptr (EncodeVarint64 v @ rest) = Some (v, rest)"
  using varint_loop_varint_bytes[where k = 0 and r = "0 :: u64" and n = "unat v" and ms = 63 and rest = rest]
    unat_less_exp[of v]
  by (simp add: GetVarint64Ptr_def EncodeVarint64_ref seven_mult_63)

text \<open>The one-byte fast path agrees with the loop it short-cuts.\<close>

lemma GetVarint16Ptr_fallback: "GetVarint16Ptr = GetVarint16PtrFallback"
  by (rule ext) (simp add: GetVarint16Ptr_def GetVarint16PtrFallback_def split: list.split)

lemma GetVarint32Ptr_fallback: "GetVarint32Ptr = GetVarint32PtrFallback"
  by (rule ext) (simp add: GetVarint32Ptr_def GetVarint32PtrFallback_def split: list.split)

lemma GetVarint_ptr:
  "GetVarint16 = GetVarint16PtrFallback" "GetVarint32 = GetVarint32PtrFallback"
  "GetVarint64 = GetVarint64Ptr"
  by (auto simp: GetVarint16_def GetVarint32_def GetVarint64_def GetVarint16Ptr_fallback
      GetVarint32Ptr_fallback split: option.split)

interpretation varint16: prefix_codec EncodeVarint16 GetVarint16 "\<lambda>_. True"
  by unfold_locales (simp add: GetVarint_ptr GetVarint16PtrFallback_enc)

interpretation varint32: prefix_codec EncodeVarint32 GetVarint32 "\<lambda>_. True"
  by unfold_locales (simp add: GetVarint_ptr GetVarint32PtrFallback_enc)

interpretation varint64: prefix_codec EncodeVarint64 GetVarint64 "\<lambda>_. True"
  by unfold_locales (simp add: GetVarint_ptr GetVarint64Ptr_enc)

lemma varint_loop_consumes:
  "varint_loop (7 * m) (7 * k) r p = Some (v, q) \<Longrightarrow> k \<le> m \<Longrightarrow>
     \<exists>c. p = c @ q \<and> 1 \<le> length c \<and> length c \<le> Suc m - k"
proof (induction p arbitrary: k r)
  case (Cons b p)
  show ?case
  proof (cases "(ucast b :: 'a word) AND 128 = 0")
    case True
    with Cons.prems show ?thesis by (auto simp: Let_def intro!: exI[of _ "[b]"])
  next
    case False
    with Cons.prems have s: "varint_loop (7 * m) (7 * Suc k) (r OR push_bit (7 * k) (ucast b AND 127)) p
        = Some (v, q)" by (simp add: Let_def add.commute)
    then have "Suc k \<le> m" by (cases p) (auto split: if_splits)
    from Cons.IH[OF s this] obtain c where "p = c @ q" "length c \<le> m - k" by auto
    then show ?thesis using \<open>Suc k \<le> m\<close> by (intro exI[of _ "b # c"]) auto
  qed
qed simp

interpretation varint16_reader: bounded_reader GetVarint16 1 3
  by unfold_locales
     (use varint_loop_consumes[of 2 0] in \<open>simp add: GetVarint_ptr GetVarint16PtrFallback_def\<close>)

interpretation varint32_reader: bounded_reader GetVarint32 1 5
  by unfold_locales
     (use varint_loop_consumes[of 4 0] in \<open>simp add: GetVarint_ptr GetVarint32PtrFallback_def\<close>)

interpretation varint64_reader: bounded_reader GetVarint64 1 10
  by unfold_locales
     (use varint_loop_consumes[of 9 0] in \<open>simp add: GetVarint_ptr GetVarint64Ptr_def\<close>)

section \<open>Fixed-width readers and writers\<close>

lemma EncodeFixed_ref [enc_simps]:
  "EncodeFixed16 e v = le_bytes 2 v" "EncodeFixed32 e w = le_bytes 4 w" "EncodeFixed64 e x = le_bytes 8 x"
  by (simp_all add: EncodeFixed16_def EncodeFixed32_def EncodeFixed64_def object_bytes_def
      ucast_and_255 eval_nat_numeral)

lemma DecodeFixed16_ref:
  "DecodeFixed16 e p = (if length p < 2 then None else Some (le_word (take 2 p)))"
  by (auto simp add: DecodeFixed16_def object_word_def split: list.split)

lemma DecodeFixed32_ref:
  "DecodeFixed32 e p = (if length p < 4 then None else Some (le_word (take 4 p)))"
  by (auto simp add: DecodeFixed32_def object_word_def push_bit_or or.assoc split: list.split)

lemma DecodeFixed64_ref:
  "DecodeFixed64 e p = (if length p < 8 then None else Some (le_word (take 8 p)))"
proof -
  have "take 8 p = take 4 p @ take 4 (drop 4 p)" by (simp flip: take_add)
  then show ?thesis
   by (auto simp add: DecodeFixed64_def object_word_def DecodeFixed32_ref le_word_append ucast_le_word or.commute)
qed

lemma DecodeFixed_enc [dec_simps]:
  "DecodeFixed16 e (le_bytes 2 v @ rest) = Some v"
  "DecodeFixed32 e (le_bytes 4 w @ rest) = Some w"
  "DecodeFixed64 e (le_bytes 8 x @ rest) = Some x"
  by (simp_all add: DecodeFixed16_ref DecodeFixed32_ref DecodeFixed64_ref le_word_le_bytes)

text \<open>A fixed-width reader of \<open>n\<close> bytes as a codec that hands back the rest of the input.\<close>

definition fixed_reader :: "nat \<Rightarrow> (bytes \<Rightarrow> 'a option) \<Rightarrow> bytes \<Rightarrow> ('a \<times> bytes) option" where
  "fixed_reader n D p = map_option (\<lambda>v. (v, drop n p)) (D p)"

interpretation fixed16: prefix_codec "EncodeFixed16 e" "fixed_reader 2 (DecodeFixed16 e')" "\<lambda>_. True"
  by unfold_locales (simp add: fixed_reader_def enc_simps dec_simps)

interpretation fixed32: prefix_codec "EncodeFixed32 e" "fixed_reader 4 (DecodeFixed32 e')" "\<lambda>_. True"
  by unfold_locales (simp add: fixed_reader_def enc_simps dec_simps)

interpretation fixed64: prefix_codec "EncodeFixed64 e" "fixed_reader 8 (DecodeFixed64 e')" "\<lambda>_. True"
  by unfold_locales (simp add: fixed_reader_def enc_simps dec_simps)

lemma length_EncodeFixed [simp, len_simps]:
  "length (EncodeFixed16 e v) = 2" "length (EncodeFixed32 e w) = 4" "length (EncodeFixed64 e x) = 8"
  by (simp_all add: enc_simps)

lemma DecodeFixed_EncodeFixed [simp]:
  "DecodeFixed16 e' (EncodeFixed16 e v @ rest) = Some v"
  "DecodeFixed32 e' (EncodeFixed32 e w @ rest) = Some w"
  "DecodeFixed64 e' (EncodeFixed64 e x @ rest) = Some x"
  by (simp_all add: enc_simps dec_simps)

section \<open>Length-prefixed slices\<close>

lemma unat_of_nat_u32: "n < 2 ^ 32 \<Longrightarrow> unat (word_of_nat n :: u32) = n"
  by (simp add: unsigned_of_nat take_bit_nat_eq_self)

interpretation length_prefixed: prefix_codec "PutLengthPrefixedSlice []" GetLengthPrefixedSliceInplace
    "\<lambda>s. length s < 2 ^ 32"
  by unfold_locales
     (simp add: PutLengthPrefixedSlice_def PutVarint32_def GetLengthPrefixedSliceInplace_def
        GetVarint32Ptr_fallback GetVarint32PtrFallback_enc unat_of_nat_u32)

lemma GetLengthPrefixedSlice_Inplace:
  "GetLengthPrefixedSliceInplace p = Some (s, q) \<longleftrightarrow> GetLengthPrefixedSlice p = (Some s, q)"
  by (auto simp: GetLengthPrefixedSliceInplace_def GetLengthPrefixedSlice_def GetVarint_ptr
      GetVarint32Ptr_fallback split: option.splits if_splits)

section \<open>Properties\<close>

text \<open>
  C12: whatever follows in the buffer, the varint readers return exactly the
  integer the varint writers of the same width appended, and leave the slice at
  the first byte after it.
\<close>

theorem varint_roundtrip:
  "GetVarint16 (PutVarint16 [] a @ rest) = Some (a, rest)
   \<and> GetVarint32 (PutVarint32 [] b @ rest) = Some (b, rest)
   \<and> GetVarint64 (PutVarint64 [] c @ rest) = Some (c, rest)"
  by (simp add: PutVarint16_def PutVarint32_def PutVarint64_def varint16.dec_enc varint32.dec_enc
      varint64.dec_enc)

text \<open>
  C15: on arbitrary (also corrupted) input a varint reader that succeeds has
  consumed between one and 3, 5 or 10 bytes of the slice and what it hands back
  is the untouched remainder; it never reads past the end.
\<close>

theorem varint_readers_stay_inside:
  "(GetVarint16 p = Some (a, q) \<longrightarrow> suffix q p \<and> length q < length p \<and> length p \<le> length q + 3)
   \<and> (GetVarint32 p = Some (b, q) \<longrightarrow> suffix q p \<and> length q < length p \<and> length p \<le> length q + 5)
   \<and> (GetVarint64 p = Some (c, q) \<longrightarrow> suffix q p \<and> length q < length p \<and> length p \<le> length q + 10)"
  using varint16_reader.dec_suffix[of p a q] varint32_reader.dec_suffix[of p b q]
    varint64_reader.dec_suffix[of p c q] varint16_reader.dec_length[of p a q]
    varint32_reader.dec_length[of p b q] varint64_reader.dec_length[of p c q]
  by auto

theorem varint_readers_stay_inside_witness:
  "GetVarint32 [0x85, 0x01, 7] = Some (133, [7]) \<and> suffix [7] [0x85 :: byte, 0x01, 7]"
proof -
  have "GetVarint32 [0x85, 0x01, 7] = Some (133, [7])" by code_simp
  then show ?thesis
    using varint_readers_stay_inside[of "[0x85, 0x01, 7]" 0 "[7]" 133 0] by blast
qed

text \<open>
  \<open>VarintLength\<close> predicts the number of bytes of every varint encoding, and
  the encodings fit the 3, 5 and 10 byte buffers \<open>PutVarint16\<close>, \<open>PutVarint32\<close> and
  \<open>PutVarint64\<close> keep on the stack.
\<close>

theorem varint_length:
  "length (EncodeVarint16 a) = VarintLength (ucast a) \<and> length (EncodeVarint16 a) \<le> 3
   \<and> length (EncodeVarint32 b) = VarintLength (ucast b) \<and> length (EncodeVarint32 b) \<le> 5
   \<and> length (EncodeVarint64 c) = VarintLength c \<and> length (EncodeVarint64 c) \<le> 10"
proof -
  have "unat a < 128 ^ Suc 2" "unat b < 128 ^ Suc 4" "unat c < 128 ^ Suc 9"
    using unat_less_exp[of a] unat_less_exp[of b] unat_less_exp[of c] by simp_all
  from this[THEN length_varint_bytes] show ?thesis
    by (simp add: EncodeVarint16_ref EncodeVarint32_ref EncodeVarint64_ref VarintLength_ref
        unat_ucast_widen)
qed

text \<open>The fixed-width formats do not depend on the host: a value written on a
  machine of either byte order is read back on a machine of either byte order,
  and reading fails only when fewer than the 2, 4 or 8 bytes are there.
\<close>

theorem fixed_host_independent:
  "DecodeFixed16 e' (EncodeFixed16 e a @ rest) = Some a
   \<and> DecodeFixed32 e' (EncodeFixed32 e b @ rest) = Some b
   \<and> DecodeFixed64 e' (EncodeFixed64 e c @ rest) = Some c
   \<and> EncodeFixed16 e a = EncodeFixed16 e' a \<and> EncodeFixed32 e b = EncodeFixed32 e' b
   \<and> EncodeFixed64 e c = EncodeFixed64 e' c
   \<and> (DecodeFixed16 e p = None \<longleftrightarrow> length p < 2) \<and> (DecodeFixed32 e p = None \<longleftrightarrow> length p < 4)
   \<and> (DecodeFixed64 e p = None \<longleftrightarrow> length p < 8)"
  by (simp add: EncodeFixed_ref DecodeFixed16_ref DecodeFixed32_ref DecodeFixed64_ref le_word_le_bytes)

text \<open>
  C16: a slice of less than 4 GiB written by \<open>PutLengthPrefixedSlice\<close> is read back
  by both readers, and a concatenation of such slices determines the slices.
\<close>

theorem length_prefixed_roundtrip:
  assumes "\<forall>s \<in> set ss. length s < 2 ^ 32"
  shows "dec_n GetLengthPrefixedSliceInplace (length ss)
           (concat (map (PutLengthPrefixedSlice []) ss) @ rest) = Some (ss, rest)
         \<and> (\<forall>s \<in> set ss. GetLengthPrefixedSlice (PutLengthPrefixedSlice [] s @ rest) = (Some s, rest))"
  using length_prefixed.dec_n_concat[OF assms] length_prefixed.dec_enc assms
  by (auto simp flip: GetLengthPrefixedSlice_Inplace)

theorem length_prefixed_roundtrip_witness:
  "dec_n GetLengthPrefixedSliceInplace (length [[1, 2], [] :: bytes])
     (concat (map (PutLengthPrefixedSlice []) [[1, 2], []]) @ [9]) = Some ([[1, 2], []], [9])"
proof -
  have "\<forall>s \<in> set [[1, 2], [] :: bytes]. length s < 2 ^ 32" by simp
  from length_prefixed_roundtrip[OF this, of "[9]"] show ?thesis by (rule conjunct1)
qed

end
