(* ===== verification/Slices.thy ===== *)
theory Slices
  imports Prelude "HOL-Library.Multiset"
begin

text \<open>
  \<^verbatim>\<open>include/insdb/slice.h\<close> (\<open>Slice\<close>, \<open>PinnableSlice\<close>), \<^verbatim>\<open>db/cleanable.cc\<close> and
  \<^verbatim>\<open>util/comparator.cc\<close>. A slice is the byte string it refers to. The three-way
  comparison is shown to be the lexicographic total order the key indexes of
  the store rely on (\<open>total_compare\<close>), and the key-shortening functions of the
  comparator to respect it.
\<close>

section \<open>Slice\<close>

text \<open>
  The sign of the C library's \<open>memcmp\<close> on the first \<open>n\<close> bytes; every caller passes
  an \<open>n\<close> that is at most both lengths.
\<close>

fun memcmp :: "bytes \<Rightarrow> bytes \<Rightarrow> nat \<Rightarrow> int" where
  "memcmp (a # as) (b # bs) (Suc n) =
     (if a = b then memcmp as bs n else if a < b then -1 else 1)"
| "memcmp _ _ _ = 0"

definition Slice_index :: "bytes \<Rightarrow> nat \<Rightarrow> byte run" where
  "Slice_index s n = (if n < length s then Inr (s ! n) else Inl Assert_failed)"

definition remove_prefix :: "nat \<Rightarrow> bytes \<Rightarrow> bytes run" where
  "remove_prefix n s = (if n \<le> length s then Inr (drop n s) else Inl Assert_failed)"

definition starts_with :: "bytes \<Rightarrow> bytes \<Rightarrow> bool" where
  "starts_with s x = (length x \<le> length s \<and> memcmp s x (length x) = 0)"

definition Slice_eq :: "bytes \<Rightarrow> bytes \<Rightarrow> bool" where
  "Slice_eq x y = (length x = length y \<and> memcmp x y (length x) = 0)"

definition Slice_compare :: "bytes \<Rightarrow> bytes \<Rightarrow> int" where
  "Slice_compare a b =
     (let min_len = if length a < length b then length a else length b;
          r = memcmp a b min_len
      in if r = 0 then (if length a < length b then -1 else if length a > length b then 1 else r)
         else r)"

section \<open>BytewiseComparatorImpl\<close>

fun diff_index_loop :: "bytes \<Rightarrow> bytes \<Rightarrow> nat \<Rightarrow> nat" where
  "diff_index_loop (a # as) (b # bs) i = (if a = b then diff_index_loop as bs (i + 1) else i)"
| "diff_index_loop _ _ i = i"

definition FindShortestSeparator :: "bytes \<Rightarrow> bytes \<Rightarrow> bytes run" where
  "FindShortestSeparator start limit =
     (let min_length = min (length start) (length limit);
          diff_index = diff_index_loop start limit 0
      in if diff_index \<ge> min_length then Inr start
         else (let diff_byte = start ! diff_index
               in if diff_byte < 0xff \<and> unat diff_byte + 1 < unat (limit ! diff_index)
                  then (let start' = take (diff_index + 1) (start[diff_index := diff_byte + 1])
                        in bind_run (assert_run (Slice_compare start' limit < 0)) (\<lambda>_. Inr start'))
                  else Inr start))"

primrec FindShortSuccessor :: "bytes \<Rightarrow> bytes" where
  "FindShortSuccessor [] = []"
| "FindShortSuccessor (b # key) =
     (if b \<noteq> 0xff then [b + 1] else b # FindShortSuccessor key)"

section \<open>Cleanable and PinnableSlice\<close>

text \<open>
  A cleanup is a function with its two arguments; running it appends it to a
  trace. The embedded first node is \<open>cfirst\<close> (\<open>None\<close> while its function pointer
  is null), the heap nodes behind it are \<open>cnext\<close>.
\<close>

record 'c Cleanable =
  cfirst :: "'c option"
  cnext :: "'c list"

definition Cleanable_init :: "'c Cleanable" where
  "Cleanable_init = \<lparr>cfirst = None, cnext = []\<rparr>"

definition RegisterCleanup :: "'c \<Rightarrow> 'c Cleanable \<Rightarrow> 'c Cleanable" where
  "RegisterCleanup f c =
     (case cfirst c of
        None \<Rightarrow> c\<lparr>cfirst := Some f\<rparr>
      | Some _ \<Rightarrow> c\<lparr>cnext := f # cnext c\<rparr>)"

text \<open>The overload that takes over a heap node of another list.\<close>

definition RegisterCleanup_node :: "'c \<Rightarrow> 'c Cleanable \<Rightarrow> 'c Cleanable" where
  "RegisterCleanup_node n c =
     (case cfirst c of
        None \<Rightarrow> c\<lparr>cfirst := Some n\<rparr>
      | Some _ \<Rightarrow> c\<lparr>cnext := n # cnext c\<rparr>)"

text \<open>Returns the two objects \<open>this\<close> and \<open>other\<close>.\<close>

definition DelegateCleanupsTo :: "'c Cleanable \<Rightarrow> 'c Cleanable \<Rightarrow> 'c Cleanable \<times> 'c Cleanable" where
  "DelegateCleanupsTo this other =
     (case cfirst this of
        None \<Rightarrow> (this, other)
      | Some f \<Rightarrow>
          (this\<lparr>cfirst := None, cnext := []\<rparr>,
           fold RegisterCleanup_node (cnext this) (RegisterCleanup f other)))"

definition DoCleanup :: "'c Cleanable \<Rightarrow> 'c list" where
  "DoCleanup c = (case cfirst c of None \<Rightarrow> [] | Some f \<Rightarrow> f # cnext c)"

definition Cleanable_Reset :: "'c Cleanable \<Rightarrow> 'c list \<times> 'c Cleanable" where
  "Cleanable_Reset c = (DoCleanup c, c\<lparr>cfirst := None, cnext := []\<rparr>)"

text \<open>
  \<open>data_\<close> either points into memory owned by someone else (pinned) or into the
  string \<open>buf_\<close>.
\<close>

record 'c PinnableSlice = "'c Cleanable" +
  pdata :: bytes
  pbuf :: bytes
  pinned :: bool

definition PinSlice :: "bytes \<Rightarrow> 'c \<Rightarrow> 'c PinnableSlice \<Rightarrow> 'c PinnableSlice run" where
  "PinSlice s f p =
     bind_run (assert_run (\<not> pinned p)) (\<lambda>_.
       let p1 = p\<lparr>pinned := True, pdata := s\<rparr>;
           c = RegisterCleanup f \<lparr>cfirst = cfirst p1, cnext = cnext p1\<rparr>
       in Inr (p1\<lparr>cfirst := cfirst c, cnext := cnext c\<rparr>))"

text \<open>The overload that takes over the cleanups of another object; returns that object too.\<close>

definition PinSlice_from :: "bytes \<Rightarrow> 'c Cleanable \<Rightarrow> 'c PinnableSlice \<Rightarrow>
    ('c Cleanable \<times> 'c PinnableSlice) run" where
  "PinSlice_from s cleanable p =
     bind_run (assert_run (\<not> pinned p)) (\<lambda>_.
       let p1 = p\<lparr>pinned := True, pdata := s\<rparr>;
           (src, c) = DelegateCleanupsTo cleanable \<lparr>cfirst = cfirst p1, cnext = cnext p1\<rparr>
       in Inr (src, p1\<lparr>cfirst := cfirst c, cnext := cnext c\<rparr>))"

definition PinSelf_slice :: "bytes \<Rightarrow> 'c PinnableSlice \<Rightarrow> 'c PinnableSlice run" where
  "PinSelf_slice s p =
     bind_run (assert_run (\<not> pinned p)) (\<lambda>_. Inr (p\<lparr>pbuf := s, pdata := s\<rparr>))"

definition PinSelf :: "'c PinnableSlice \<Rightarrow> 'c PinnableSlice run" where
  "PinSelf p = bind_run (assert_run (\<not> pinned p)) (\<lambda>_. Inr (p\<lparr>pdata := pbuf p\<rparr>))"

definition remove_suffix :: "nat \<Rightarrow> 'c PinnableSlice \<Rightarrow> 'c PinnableSlice run" where
  "remove_suffix n p =
     bind_run (assert_run (n \<le> length (pdata p))) (\<lambda>_.
       if pinned p then Inr (p\<lparr>pdata := take (length (pdata p) - n) (pdata p)\<rparr>)
       else (let pos = length (pdata p) - n
             in if pos > length (pbuf p) then Inl Aborted
                else PinSelf (p\<lparr>pbuf := take pos (pbuf p) @ drop (pos + n) (pbuf p)\<rparr>)))"

definition PinnableSlice_Reset :: "'c PinnableSlice \<Rightarrow> 'c list \<times> 'c PinnableSlice" where
  "PinnableSlice_Reset p =
     (let (t, c) = Cleanable_Reset \<lparr>cfirst = cfirst p, cnext = cnext p\<rparr>
      in (t, p\<lparr>cfirst := cfirst c, cnext := cnext c, pinned := False\<rparr>))"

section \<open>The order of slices\<close>

lemma Slice_compare_simps [simp]:
  "Slice_compare [] [] = 0"
  "Slice_compare [] (b # bs) = -1"
  "Slice_compare (a # as) [] = 1"
  "Slice_compare (a # as) (b # bs) = (if a = b then Slice_compare as bs else if a < b then -1 else 1)"
  by (simp_all add: Slice_compare_def Let_def)

lemma Slice_compare_range: "Slice_compare a b \<in> {-1, 0, 1}"
  by (induction a b rule: list_induct2') auto

lemma Slice_compare_zero [simp]: "Slice_compare a b = 0 \<longleftrightarrow> a = b"
  by (induction a b rule: list_induct2') auto

lemma Slice_compare_neg: "Slice_compare a b = - Slice_compare b a"
  by (induction a b rule: list_induct2') auto

lemma Slice_compare_lex: "Slice_compare a b < 0 \<longleftrightarrow> ord_class.lexordp a b"
  by (induction a b rule: list_induct2') (auto simp: not_less_iff_gr_or_eq)

lemma Slice_compare_trans: "Slice_compare a b < 0 \<Longrightarrow> Slice_compare b c < 0 \<Longrightarrow> Slice_compare a c < 0"
  unfolding Slice_compare_lex by (rule lexordp_trans)

lemma memcmp_prefix:
  "length x \<le> length s \<Longrightarrow> memcmp s x (length x) = 0 \<longleftrightarrow> prefix x s"
  by (induction s x rule: list_induct2') auto

lemma starts_with_iff [simp]: "starts_with s x \<longleftrightarrow> prefix x s"
  using memcmp_prefix[of x s] by (auto simp: starts_with_def dest: prefix_length_le)

lemma Slice_eq_iff [simp]: "Slice_eq x y \<longleftrightarrow> x = y"
  using memcmp_prefix[of y x] by (auto simp: Slice_eq_def not_equal_is_parallel prefix_def)

text \<open>
  What the ordered containers need of a three-way comparison. The skip list of
  user keys, the \<open>FindShortestSeparator\<close> contract and the merge of key tables
  use a comparator only through these laws.
\<close>

locale total_compare =
  fixes cmp :: "'a \<Rightarrow> 'a \<Rightarrow> int"
  assumes cmp_zero: "cmp a b = 0 \<longleftrightarrow> a = b"
    and cmp_swap: "cmp a b < 0 \<longleftrightarrow> 0 < cmp b a"
    and cmp_trans: "cmp a b < 0 \<Longrightarrow> cmp b c < 0 \<Longrightarrow> cmp a c < 0"
begin

lemma cmp_refl [simp]: "cmp a a = 0"
  by (simp add: cmp_zero)

lemma cmp_not_less: "\<not> cmp a b < 0 \<longleftrightarrow> cmp b a \<le> 0"
  using cmp_swap[of a b] by auto

lemma cmp_le_iff: "cmp a b \<le> 0 \<longleftrightarrow> cmp a b < 0 \<or> a = b"
  using cmp_zero[of a b] by auto

lemma cmp_le_less_trans: "cmp a b \<le> 0 \<Longrightarrow> cmp b c < 0 \<Longrightarrow> cmp a c < 0"
  using cmp_trans[of a b c] by (auto simp: cmp_le_iff)

lemma cmp_less_le_trans: "cmp a b < 0 \<Longrightarrow> cmp b c \<le> 0 \<Longrightarrow> cmp a c < 0"
  using cmp_trans[of a b c] by (auto simp: cmp_le_iff)

lemma cmp_le_trans: "cmp a b \<le> 0 \<Longrightarrow> cmp b c \<le> 0 \<Longrightarrow> cmp a c \<le> 0"
  using cmp_le_less_trans[of a b c] by (auto simp: cmp_le_iff)

lemma cmp_antisym: "cmp a b \<le> 0 \<Longrightarrow> cmp b a \<le> 0 \<Longrightarrow> a = b"
  using cmp_swap[of a b] cmp_zero[of a b] by auto

end

interpretation bytewise: total_compare Slice_compare
proof
  fix a b c :: bytes
  show "Slice_compare a b = 0 \<longleftrightarrow> a = b" by simp
  show "Slice_compare a b < 0 \<longleftrightarrow> 0 < Slice_compare b a" using Slice_compare_neg[of a b] by simp
  show "Slice_compare a b < 0 \<Longrightarrow> Slice_compare b c < 0 \<Longrightarrow> Slice_compare a c < 0"
    by (rule Slice_compare_trans)
qed

section \<open>Shortening keys\<close>

lemma diff_index_split:
  "\<exists>pre xs ys. a = pre @ xs \<and> b = pre @ ys \<and> diff_index_loop a b i = i + length pre
     \<and> (xs = [] \<or> ys = [] \<or> hd xs \<noteq> hd ys)"
proof (induction a b i rule: diff_index_loop.induct)
  case (1 a as b bs i)
  show ?case
  proof (cases "a = b")
    case True
    with 1 obtain pre xs ys where
      "as = pre @ xs" "bs = pre @ ys" "diff_index_loop as bs (i + 1) = i + 1 + length pre"
      "xs = [] \<or> ys = [] \<or> hd xs \<noteq> hd ys" by blast
    then show ?thesis using True by (intro exI[of _ "a # pre"] exI[of _ xs] exI[of _ ys]) simp
  next
    case False
    then show ?thesis by (intro exI[of _ "[]"] exI[of _ "a # as"] exI[of _ "b # bs"]) simp
  qed
qed auto

lemma Slice_compare_same_prefix [simp]: "Slice_compare (pre @ xs) (pre @ ys) = Slice_compare xs ys"
  by (induction pre) auto

lemma byte_succ:
  fixes b :: byte
  assumes "b < 0xff"
  shows "unat (b + 1) = unat b + 1" "b < b + 1"
proof -
  have "unat b < 255" using assms by (simp add: word_less_nat_alt)
  then show "unat (b + 1) = unat b + 1" by (simp add: unat_word_ariths)
  then show "b < b + 1" by (simp add: word_less_nat_alt)
qed

lemma FindShortestSeparator_cases:
  "FindShortestSeparator start limit = Inr start \<or>
   (\<exists>pre x xs y ys. start = pre @ x # xs \<and> limit = pre @ y # ys \<and> x < x + 1 \<and> x + 1 < y
      \<and> FindShortestSeparator start limit = Inr (pre @ [x + 1]))"
proof -
  obtain pre xs ys where d: "start = pre @ xs" "limit = pre @ ys"
    "diff_index_loop start limit 0 = length pre" "xs = [] \<or> ys = [] \<or> hd xs \<noteq> hd ys"
    using diff_index_split[of start limit 0] by auto
  show ?thesis
  proof (cases "xs = [] \<or> ys = []")
    case True
    then show ?thesis using d by (auto simp: FindShortestSeparator_def Let_def)
  next
    case False
    then obtain x xs' y ys' where l: "xs = x # xs'" "ys = y # ys'" by (meson list.exhaust)
    show ?thesis
    proof (cases "x < 0xff \<and> unat x + 1 < unat y")
      case True
      then have "x < x + 1" "x + 1 < y" using byte_succ[of x] by (auto simp: word_less_nat_alt)
      then show ?thesis using True d l
        by (auto simp: FindShortestSeparator_def Let_def list_update_append)
    next
      case False
      then show ?thesis using d l by (auto simp: FindShortestSeparator_def Let_def)
    qed
  qed
qed

section \<open>Cleanups run exactly once\<close>

text \<open>A null function pointer in the embedded node means that nothing is registered.\<close>

definition cleanable_ok :: "('c, 'z) Cleanable_scheme \<Rightarrow> bool" where
  "cleanable_ok c = (cfirst c = None \<longrightarrow> cnext c = [])"

lemma RegisterCleanup_node_eq [simp]: "RegisterCleanup_node = RegisterCleanup"
  by (intro ext) (simp add: RegisterCleanup_node_def RegisterCleanup_def)

lemma RegisterCleanup_ok:
  "cleanable_ok c \<Longrightarrow> cleanable_ok (RegisterCleanup f c)
     \<and> mset (DoCleanup (RegisterCleanup f c)) = add_mset f (mset (DoCleanup c))"
  by (auto simp: RegisterCleanup_def cleanable_ok_def DoCleanup_def split: option.split)

lemma fold_RegisterCleanup_ok:
  "cleanable_ok c \<Longrightarrow> cleanable_ok (fold RegisterCleanup fs c)
     \<and> mset (DoCleanup (fold RegisterCleanup fs c)) = mset fs + mset (DoCleanup c)"
  by (induction fs arbitrary: c) (simp_all add: RegisterCleanup_ok)

lemma DelegateCleanupsTo_ok:
  assumes "cleanable_ok this" "cleanable_ok other" "DelegateCleanupsTo this other = (this', other')"
  shows "cleanable_ok this' \<and> cleanable_ok other' \<and> DoCleanup this' = []
    \<and> mset (DoCleanup other') = mset (DoCleanup this) + mset (DoCleanup other)"
proof (cases "cfirst this")
  case None
  then show ?thesis using assms by (auto simp: DelegateCleanupsTo_def DoCleanup_def)
next
  case (Some f)
  have "cleanable_ok (RegisterCleanup f other)" using RegisterCleanup_ok[OF assms(2)] by simp
  from fold_RegisterCleanup_ok[OF this, of "cnext this"] Some assms show ?thesis
    by (auto simp: DelegateCleanupsTo_def DoCleanup_def cleanable_ok_def RegisterCleanup_ok
        RegisterCleanup_def split: option.splits)
qed

section \<open>Properties\<close>

text \<open>
  C17: \<open>Slice::compare\<close> is the lexicographic order of unsigned bytes, returns 0
  exactly for equal slices, is antisymmetric, and \<open>starts_with\<close> decides the prefix
  relation.
\<close>

theorem slice_compare_lexicographic:
  "(Slice_compare a b < 0 \<longleftrightarrow> ord_class.lexordp a b) \<and> (Slice_compare a b = 0 \<longleftrightarrow> a = b)
   \<and> Slice_compare a b = - Slice_compare b a \<and> (starts_with a b \<longleftrightarrow> prefix b a)
   \<and> (Slice_eq a b \<longleftrightarrow> Slice_compare a b = 0)"
  by (intro conjI) (rule Slice_compare_lex, simp, rule Slice_compare_neg, simp_all)

text \<open>
  C14: \<open>FindShortestSeparator\<close> never trips its assertion; from \<open>start < limit\<close> it
  computes a key in \<open>[start, limit)\<close> that is no longer than \<open>start\<close>.
  \<open>FindShortSuccessor\<close> computes a key at or after its argument, no longer than it.
\<close>

theorem separator_between:
  assumes "Slice_compare start limit < 0"
  shows "\<exists>sep. FindShortestSeparator start limit = Inr sep \<and> Slice_compare start sep \<le> 0
    \<and> Slice_compare sep limit < 0 \<and> length sep \<le> length start
    \<and> Slice_compare start (FindShortSuccessor start) \<le> 0
    \<and> length (FindShortSuccessor start) \<le> length start"
proof -
  have succ: "Slice_compare k (FindShortSuccessor k) \<le> 0 \<and> length (FindShortSuccessor k) \<le> length k" for k
  proof (induction k)
    case (Cons b k)
    have "b < b + 1" if "b \<noteq> 0xff"
    proof (rule byte_succ(2))
      have "unat b < 256" using unat_less_exp[of b] by simp
      moreover have "unat b \<noteq> 255" using that by (auto simp: word_unat_eq_iff)
      ultimately show "b < 0xff" by (simp add: word_less_nat_alt)
    qed
    with Cons show ?case by auto
  qed simp
  from FindShortestSeparator_cases[of start limit] show ?thesis
  proof (elim disjE exE conjE)
    assume "FindShortestSeparator start limit = Inr start"
    then show ?thesis using assms succ by auto
  next
    fix pre x xs y ys
    assume "start = pre @ x # xs" "limit = pre @ y # ys" "x < x + 1" "x + 1 < y"
      "FindShortestSeparator start limit = Inr (pre @ [x + 1])"
    then show ?thesis using succ[of start] by auto
  qed
qed

theorem separator_between_witness:
  "Slice_compare [97, 98, 99] [97, 104] < 0 \<and> FindShortestSeparator [97, 98, 99] [97, 104] = Inr [97, 99]
   \<and> (\<exists>sep. FindShortestSeparator [97, 98, 99] [97, 104] = Inr sep \<and> Slice_compare sep [97, 104] < 0)"
proof -
  have a: "Slice_compare [97, 98, 99] [97, 104] < 0" by simp
  have b: "FindShortestSeparator [97, 98, 99] [97, 104] = Inr [97, 99]" by code_simp
  from separator_between[OF a] a b show ?thesis by blast
qed

text \<open>
  C18: handing the cleanups of one object to another loses and duplicates none:
  the source is left with nothing to run, the destination runs its own and the
  source's cleanups exactly once each, and after a \<open>Reset\<close> nothing is left.
\<close>

theorem cleanups_exactly_once:
  assumes "cleanable_ok this" "cleanable_ok other" "DelegateCleanupsTo this other = (this', other')"
  shows "DoCleanup this' = []
    \<and> mset (fst (Cleanable_Reset other')) = mset (DoCleanup this) + mset (DoCleanup other)
    \<and> DoCleanup (snd (Cleanable_Reset other')) = [] \<and> cleanable_ok (snd (Cleanable_Reset other'))"
  using DelegateCleanupsTo_ok[OF assms] by (simp add: Cleanable_Reset_def DoCleanup_def cleanable_ok_def)

theorem cleanups_exactly_once_witness:
  "\<exists>t u. DelegateCleanupsTo \<lparr>cfirst = Some (1::nat), cnext = [2, 3]\<rparr> \<lparr>cfirst = Some 4, cnext = []\<rparr> = (t, u)
     \<and> DoCleanup t = [] \<and> mset (fst (Cleanable_Reset u)) = {#1, 2, 3, 4#}"
proof -
  let ?a = "\<lparr>cfirst = Some (1::nat), cnext = [2, 3]\<rparr>" and ?b = "\<lparr>cfirst = Some (4::nat), cnext = []\<rparr>"
  obtain t u where d: "DelegateCleanupsTo ?a ?b = (t, u)" by fastforce
  have "cleanable_ok ?a" "cleanable_ok ?b" by (simp_all add: cleanable_ok_def)
  from cleanups_exactly_once[OF this d] d show ?thesis
    by (intro exI[of _ t] exI[of _ u]) (simp add: DoCleanup_def)
qed

end
