(* ===== verification/Logging.thy ===== *)
theory Logging
  imports Slices
begin

text \<open>
  \<^verbatim>\<open>util/logging.cc\<close> and \<^verbatim>\<open>util/status.cc\<close>: decimal numbers, escaped strings and
  the packed \<open>Status\<close> object.
\<close>

section \<open>Numbers\<close>

text \<open>\<open>cstr\<close> is the byte string of a C literal; \<open>digits10\<close> is what \<open>%llu\<close> prints.\<close>

definition cstr :: "string \<Rightarrow> bytes" where
  "cstr s = map (\<lambda>c. word_of_nat (of_char c)) s"

fun digits10 :: "nat \<Rightarrow> bytes" where
  "digits10 n = (if n < 10 then [word_of_nat (48 + n)] else digits10 (n div 10) @ [word_of_nat (48 + n mod 10)])"

declare digits10.simps [simp del]

definition AppendNumberTo :: "bytes \<Rightarrow> u64 \<Rightarrow> bytes" where
  "AppendNumberTo str num = str @ digits10 (unat num)"

definition NumberToString :: "u64 \<Rightarrow> bytes" where
  "NumberToString num = AppendNumberTo [] num"

definition hexdigit :: "nat \<Rightarrow> byte" where
  "hexdigit d = word_of_nat (if d < 10 then 48 + d else 87 + d)"

text \<open>\<open>char\<close> is signed: a byte above 127 is below the space character.\<close>

primrec AppendEscapedStringTo :: "bytes \<Rightarrow> bytes \<Rightarrow> bytes" where
  "AppendEscapedStringTo str [] = str"
| "AppendEscapedStringTo str (c # value) =
     (if 32 \<le> sint c \<and> sint c \<le> 126
      then AppendEscapedStringTo (str @ [c]) value
      else AppendEscapedStringTo
             (str @ [92, 120, hexdigit (unat c div 16), hexdigit (unat c mod 16)]) value)"

definition EscapeString :: "bytes \<Rightarrow> bytes" where
  "EscapeString value = AppendEscapedStringTo [] value"

text \<open>
  The result: the value (\<open>None\<close> when the call returns false), and the slice as the
  call leaves it.
\<close>

fun ConsumeDecimal_loop :: "u64 \<Rightarrow> nat \<Rightarrow> bytes \<Rightarrow> u64 option \<times> bytes" where
  "ConsumeDecimal_loop v digits [] = (if digits > 0 then Some v else None, [])"
| "ConsumeDecimal_loop v digits (c # rest) =
     (if 48 \<le> sint c \<and> sint c \<le> 57 then
        (let delta = word_of_int (sint c - 48);
             kMaxUint64 = (- 1 :: u64)
         in if v > kMaxUint64 div 10 \<or> (v = kMaxUint64 div 10 \<and> delta > kMaxUint64 mod 10)
            then (None, c # rest)
            else ConsumeDecimal_loop (v * 10 + delta) (digits + 1) rest)
      else (if digits > 0 then Some v else None, c # rest))"

definition ConsumeDecimalNumber :: "bytes \<Rightarrow> u64 option \<times> bytes" where
  "ConsumeDecimalNumber input = ConsumeDecimal_loop 0 0 input"

section \<open>Status\<close>

datatype Code = kOk | kNotFound | kCorruption | kNotSupported | kNotAvailable | kInvalidArgument | kIOError

definition Code_value :: "Code \<Rightarrow> byte" where
  "Code_value c = (case c of kOk \<Rightarrow> 0 | kNotFound \<Rightarrow> 1 | kCorruption \<Rightarrow> 2 | kNotSupported \<Rightarrow> 3
                   | kNotAvailable \<Rightarrow> 4 | kInvalidArgument \<Rightarrow> 5 | kIOError \<Rightarrow> 6)"

text \<open>
  \<open>state_\<close>: \<open>None\<close> is the null pointer of an OK status, otherwise the packed
  array (length, code, message). The 32-bit size wraps as in the code; a copy
  beyond the array it allocates is \<open>Out_of_bounds\<close>.
\<close>

type_synonym Status = "bytes option"

definition Status_OK :: Status where
  "Status_OK = None"

definition Status_make :: "Code \<Rightarrow> bytes \<Rightarrow> bytes \<Rightarrow> Status run" where
  "Status_make code msg msg2 =
     bind_run (assert_run (code \<noteq> kOk)) (\<lambda>_.
       let len1 = word_of_nat (length msg) :: u32;
           len2 = word_of_nat (length msg2) :: u32;
           size = len1 + (if len2 \<noteq> 0 then 2 + len2 else 0);
           text1 = take (unat len1) msg;
           text2 = (if len2 \<noteq> 0 then [58, 32] @ take (unat len2) msg2 else []);
           result = le_bytes 4 size @ [Code_value code] @ text1 @ text2
       in if length result \<le> unat (size + 5) then Inr (Some result) else Inl Out_of_bounds)"

definition Status_ok :: "Status \<Rightarrow> bool" where
  "Status_ok s = (s = None)"

definition Status_code :: "Status \<Rightarrow> byte" where
  "Status_code s = (case s of None \<Rightarrow> Code_value kOk | Some st \<Rightarrow> st ! 4)"

definition CopyState :: "bytes \<Rightarrow> bytes option" where
  "CopyState state = (let size = le_word (take 4 state) :: u32 in peek 0 (unat (size + 5)) state)"

definition Status_type_string :: "byte \<Rightarrow> bytes" where
  "Status_type_string c =
     (if c = 0 then cstr ''OK'' else if c = 1 then cstr ''NotFound: ''
      else if c = 2 then cstr ''Corruption: '' else if c = 3 then cstr ''Not implemented: ''
      else if c = 4 then cstr ''Not Available: '' else if c = 5 then cstr ''Invalid argument: ''
      else if c = 6 then cstr ''IO error: ''
      else cstr ''Unknown code('' @ (if sint c < 0 then [45] @ digits10 (nat (- sint c)) else digits10 (nat (sint c)))
        @ cstr ''): '')"

definition Status_ToString :: "Status \<Rightarrow> bytes option" where
  "Status_ToString s =
     (case s of
        None \<Rightarrow> Some (cstr ''OK'')
      | Some state \<Rightarrow>
          (let length = le_word (take 4 state) :: u32
           in case peek 5 (unat length) state of
                None \<Rightarrow> None
              | Some msg \<Rightarrow> Some (Status_type_string (Status_code s) @ msg)))"

section \<open>Parsing what was printed\<close>

fun decimal_value :: "nat \<Rightarrow> bytes \<Rightarrow> nat" where
  "decimal_value v [] = v"
| "decimal_value v (c # cs) = decimal_value (v * 10 + (unat c - 48)) cs"

definition is_digit :: "byte \<Rightarrow> bool" where
  "is_digit c = (48 \<le> unat c \<and> unat c \<le> 57)"

lemma byte_nat:
  fixes c :: byte
  obtains n where "unat c = n" "uint c = int n" "n < 256"
  using unat_less_exp[of c] by simp

lemma sint_byte: "sint (c :: byte) = (if unat c < 128 then uint c else uint c - 256)"
proof -
  obtain n where n: "unat c = n" "uint c = int n" "n < 256" by (rule byte_nat)
  show ?thesis
  proof (cases "n < 128")
    case True
    then have "signed_take_bit 7 (int n) = int n" by (intro signed_take_bit_int_eq_self) simp_all
    then show ?thesis using True by (simp only: sint_uint n if_True) simp
  next
    case False
    then have r: "- (2 ^ 7) \<le> int n - 256" "int n - 256 < 2 ^ 7" using n(3) by simp_all
    have "signed_take_bit 7 (int n) = signed_take_bit 7 (int n - 256)"
      by (simp add: signed_take_bit_eq_iff_take_bit_eq take_bit_eq_mod)
    also have "\<dots> = int n - 256" using r by (rule signed_take_bit_int_eq_self)
    finally show ?thesis using False by (simp only: sint_uint n if_False) simp
  qed
qed

lemma digit_test: "48 \<le> sint c \<and> sint c \<le> 57 \<longleftrightarrow> is_digit c"
proof -
  obtain n where n: "unat c = n" "uint c = int n" "n < 256" by (rule byte_nat)
  show ?thesis unfolding is_digit_def sint_byte n using n(3) by auto
qed

lemma digit_delta: "is_digit c \<Longrightarrow> unat (word_of_int (sint c - 48) :: u64) = unat c - 48"
proof -
  assume d: "is_digit c"
  obtain n where n: "unat c = n" "uint c = int n" "n < 256" by (rule byte_nat)
  have s: "sint c - 48 = int (n - 48)" using d unfolding sint_byte is_digit_def n by simp
  have "n - 48 < 2 ^ 64" using n(3) by simp
  then show ?thesis unfolding s n(1) by (simp add: unsigned_of_nat take_bit_nat_eq_self)
qed

text \<open>One step of the loop: it stops with an error exactly when the next value does not fit.\<close>

lemma overflow_test:
  fixes v delta :: u64
  assumes "unat delta < 10"
  shows "(v > (- 1) div 10 \<or> (v = (- 1) div 10 \<and> delta > (- 1) mod 10))
           \<longleftrightarrow> 2 ^ 64 \<le> unat v * 10 + unat delta"
proof -
  have c: "unat ((- 1 :: u64) div 10) = 1844674407370955161" "unat ((- 1 :: u64) mod 10) = 5"
    by (simp_all add: unat_div unat_mod unsigned_minus_1_eq_mask mask_eq_exp_minus_1)
  show ?thesis
    using assms by (auto simp: word_less_nat_alt word_unat_eq_iff c)
qed

lemma ConsumeDecimal_loop_spec:
  assumes "\<forall>c \<in> set ds. is_digit c" "rest \<noteq> [] \<longrightarrow> \<not> is_digit (hd rest)"
    and "decimal_value (unat v) ds < 2 ^ 64" "0 < n \<or> ds \<noteq> []"
  shows "ConsumeDecimal_loop v n (ds @ rest) = (Some (word_of_nat (decimal_value (unat v) ds)), rest)"
  using assms
proof (induction ds arbitrary: v n)
  case Nil
  then show ?case by (cases rest) (simp_all add: digit_test)
next
  case (Cons c ds)
  let ?d = "word_of_int (sint c - 48) :: u64"
  have d: "is_digit c" using Cons.prems by simp
  have mono: "v \<le> decimal_value v ds" for v 
    by (induction ds arbitrary: v) (simp, metis add_leE decimal_value.simps(2) le_square mult_le_mono2 order_trans mult.right_neutral one_le_numeral)
  have "unat v * 10 + (unat c - 48) < 2 ^ 64" using Cons.prems(3) mono[of "unat v * 10 + (unat c - 48)"] by simp
  moreover have "unat ?d < 10" using d unfolding digit_delta[OF d] is_digit_def by linarith
  ultimately have "\<not> (v > (- 1) div 10 \<or> (v = (- 1) div 10 \<and> ?d > (- 1) mod 10))"
    and s: "unat (v * 10 + ?d) = unat v * 10 + (unat c - 48)"
    using overflow_test[of ?d v] digit_delta[OF d] by (simp_all add: unat_word_ariths)
  then show ?case using d Cons by (simp add: digit_test Let_def)
qed

lemma decimal_value_append: "decimal_value v (ds @ es) = decimal_value (decimal_value v ds) es"
  by (induction ds arbitrary: v) simp_all

lemma digits10_spec: "decimal_value 0 (digits10 n) = n \<and> (\<forall>c \<in> set (digits10 n). is_digit c) \<and> digits10 n \<noteq> []"
proof (induction n rule: digits10.induct)
  case (1 n)
  have b: "is_digit (word_of_nat (48 + d)) \<and> unat (word_of_nat (48 + d) :: byte) = 48 + d" if "d < 10" for d
    using that by (simp add: is_digit_def unat_byte_of_nat del: of_nat_add)
  show ?case
  proof (cases "n < 10")
    case True
    then show ?thesis using b[OF True] by (simp add: digits10.simps[of n] del: of_nat_add)
  next
    case False
    then show ?thesis using 1 b[of "n mod 10"]
      by (simp add: digits10.simps[of n] decimal_value_append mult.commute del: of_nat_add)
  qed
qed

lemma Status_make_ok:
  assumes "code \<noteq> kOk" "length msg + length msg2 + 7 < 2 ^ 32"
  shows "Status_make code msg msg2 =
    Inr (Some (le_bytes 4 (word_of_nat (length msg + (if msg2 = [] then 0 else 2 + length msg2)) :: u32)
      @ [Code_value code] @ msg @ (if msg2 = [] then [] else [58, 32] @ msg2)))"
proof -
  have u: "unat (word_of_nat n :: u32) = n" if "n < 2 ^ 32" for n
    using that by (simp add: unsigned_of_nat take_bit_nat_eq_self)
  have z: "(word_of_nat n :: u32) = 0 \<longleftrightarrow> n = 0" if "n < 2 ^ 32" for n
  proof
    assume "(word_of_nat n :: u32) = 0"
    with u[OF that] show "n = 0" by (simp only: unat_0)
  qed simp
  define n where "n = length msg + (if msg2 = [] then 0 else 2 + length msg2)"
  have "word_of_nat n + 5 = (word_of_nat (n + 5) :: u32)" by simp
  moreover have "n + 5 < 2 ^ 32" using assms(2) by (simp add: n_def)
  ultimately have s: "unat (word_of_nat n + 5 :: u32) = n + 5" using u[of "n + 5"] by simp
  show ?thesis
  proof (cases "msg2 = []")
    case True
    then show ?thesis using assms s
      by (simp add: Status_make_def Let_def u n_def)
  next
    case False
    have "(word_of_nat (length msg) :: u32) + (2 + word_of_nat (length msg2)) = word_of_nat n"
      using False by (simp add: n_def)
    then show ?thesis using assms s False
      by (simp add: Status_make_def Let_def u z n_def add.left_commute)
  qed
qed

section \<open>Properties\<close>

text \<open>
  C20: \<open>ConsumeDecimalNumber\<close> reads back every 64-bit number \<open>NumberToString\<close>
  prints, up to the first character that is not a digit, without reporting an
  overflow.
\<close>

theorem decimal_roundtrip:
  assumes "rest \<noteq> [] \<longrightarrow> \<not> is_digit (hd rest)"
  shows "ConsumeDecimalNumber (NumberToString num @ rest) = (Some num, rest)"
proof -
  have "decimal_value (unat (0 :: u64)) (digits10 (unat num)) < 2 ^ 64"
    using digits10_spec[of "unat num"] unat_less_exp[of num] by simp
  with ConsumeDecimal_loop_spec[of "digits10 (unat num)" rest 0 0] assms digits10_spec[of "unat num"]
  show ?thesis by (simp add: ConsumeDecimalNumber_def NumberToString_def AppendNumberTo_def)
qed

theorem decimal_roundtrip_witness:
  "ConsumeDecimalNumber (NumberToString 18446744073709551615 @ [32, 49]) = (Some 18446744073709551615, [32, 49])"
  using decimal_roundtrip[of "[32, 49]" 18446744073709551615] by (simp add: is_digit_def)

text \<open>
  An error status with messages of less than 4 GiB is not OK, keeps its code,
  survives \<open>CopyState\<close> byte for byte, and prints the name of the code followed by
  the messages joined with a colon; only the null state is OK.
\<close>

theorem status_packed:
  assumes "code \<noteq> kOk" "length msg + length msg2 + 7 < 2 ^ 32"
  shows "\<exists>st. Status_make code msg msg2 = Inr (Some st) \<and> \<not> Status_ok (Some st)
    \<and> Status_code (Some st) = Code_value code \<and> CopyState st = Some st
    \<and> Status_ToString (Some st)
        = Some (Status_type_string (Code_value code) @ msg @ (if msg2 = [] then [] else [58, 32] @ msg2))"
proof -
  define n where "n = length msg + (if msg2 = [] then 0 else 2 + length msg2)"
  define t where "t = msg @ (if msg2 = [] then [] else [58, 32] @ msg2)"
  have t: "length t = n" by (simp add: t_def n_def)
  have "n + 5 < 2 ^ 32" using assms(2) by (simp add: n_def)
  then have u: "unat (word_of_nat n :: u32) = n" "unat (5 + word_of_nat n :: u32) = n + 5"
    by (simp_all add: unsigned_of_nat take_bit_nat_eq_self unat_word_ariths)
  have "Status_make code msg msg2 = Inr (Some (le_bytes 4 (word_of_nat n :: u32) @ [Code_value code] @ t))"
    using Status_make_ok[OF assms] by (simp add: n_def t_def)
  then show ?thesis
    using u t by (simp add: Status_ok_def Status_code_def CopyState_def Status_ToString_def Let_def
      le_word_le_bytes peek_def nth_append add.commute flip: t_def)
qed

theorem status_packed_witness:
  "\<exists>st. Status_make kCorruption (cstr ''bad'') (cstr ''key'') = Inr (Some st)
     \<and> Status_ToString (Some st) = Some (cstr ''Corruption: bad: key'')"
proof -
  have "length (cstr ''bad'') + length (cstr ''key'') + 7 < 2 ^ 32" by (simp add: cstr_def)
  from status_packed[OF _ this, of kCorruption] show ?thesis
    by (auto simp: cstr_def Status_type_string_def Code_value_def)
qed

end
