(* ===== verification/WriteBatch.thy ===== *)
theory WriteBatch
  imports Coding Logging
begin

text \<open>
  \<^verbatim>\<open>db/write_batch.cc\<close>: the byte string a batch of updates is collected in, its
  iteration through a handler, and the record readers. The program is compiled
  with \<open>VARTOFIXOPT\<close>: lengths are fixed 32-bit, column ids fixed 16-bit.
\<close>

section \<open>Building a batch\<close>

definition kTypeDeletion :: byte where "kTypeDeletion = 0"
definition kTypeValue :: byte where "kTypeValue = 1"
definition kTypeMerge :: byte where "kTypeMerge = 2"

definition kHeader :: nat where "kHeader = 4"

record WriteBatch =
  rep :: bytes

definition Clear :: "WriteBatch \<Rightarrow> WriteBatch" where
  "Clear b = b\<lparr>rep := replicate kHeader 0\<rparr>"

definition WriteBatch_init :: WriteBatch where
  "WriteBatch_init = Clear \<lparr>rep = []\<rparr>"

definition ApproximateSize :: "WriteBatch \<Rightarrow> nat" where
  "ApproximateSize b = length (rep b)"

definition Count :: "WriteBatch \<Rightarrow> u32 run" where
  "Count b = of_opt Out_of_bounds (DecodeFixed32 kLittleEndian (rep b))"

definition SetCount :: "u32 \<Rightarrow> WriteBatch \<Rightarrow> WriteBatch run" where
  "SetCount n b =
     bind_run (of_opt Out_of_bounds (poke 0 (EncodeFixed32 kLittleEndian n) (rep b))) (\<lambda>r.
       Inr (b\<lparr>rep := r\<rparr>))"

text \<open>\<open>std::string::resize\<close>: cut, or padded with zero bytes.\<close>

definition ResizeData :: "nat \<Rightarrow> WriteBatch \<Rightarrow> WriteBatch" where
  "ResizeData n b = b\<lparr>rep := take n (rep b) @ replicate (n - length (rep b)) 0\<rparr>"

definition Append :: "WriteBatch \<Rightarrow> WriteBatch \<Rightarrow> WriteBatch run" where
  "Append src b =
     bind_run (Count b) (\<lambda>c1. bind_run (Count src) (\<lambda>c2.
       bind_run (SetCount (c1 + c2) b) (\<lambda>b'.
         bind_run (assert_run (kHeader \<le> length (rep src))) (\<lambda>_.
           Inr (b'\<lparr>rep := rep b' @ drop kHeader (rep src)\<rparr>)))))"

definition increment_count :: "WriteBatch \<Rightarrow> WriteBatch run" where
  "increment_count b = bind_run (Count b) (\<lambda>c. SetCount (c + 1) b)"

definition Put :: "bytes \<Rightarrow> bytes \<Rightarrow> u16 \<Rightarrow> WriteBatch \<Rightarrow> WriteBatch run" where
  "Put key value col_id b =
     bind_run (increment_count b) (\<lambda>b.
       let r = rep b @ [kTypeValue];
           r = PutFixed32 r (word_of_nat (length key)) @ key;
           r = PutFixed32 r (word_of_nat (length value)) @ value
       in Inr (b\<lparr>rep := PutFixed16 r col_id\<rparr>))"

definition Merge :: "bytes \<Rightarrow> bytes \<Rightarrow> u16 \<Rightarrow> WriteBatch \<Rightarrow> WriteBatch run" where
  "Merge key value col_id b =
     bind_run (increment_count b) (\<lambda>b.
       let r = rep b @ [kTypeMerge];
           r = PutFixed32 r (word_of_nat (length key)) @ key;
           r = PutFixed32 r (word_of_nat (length value)) @ value
       in Inr (b\<lparr>rep := PutFixed16 r col_id\<rparr>))"

definition Delete :: "bytes \<Rightarrow> u16 \<Rightarrow> WriteBatch \<Rightarrow> WriteBatch run" where
  "Delete key col_id b =
     bind_run (increment_count b) (\<lambda>b.
       let r = rep b @ [kTypeDeletion];
           r = PutFixed32 r (word_of_nat (length key)) @ key
       in Inr (b\<lparr>rep := PutFixed16 r col_id\<rparr>))"

section \<open>Iterating\<close>

text \<open>
  A handler is the four virtual functions of \<open>WriteBatch::Handler\<close>, each acting
  on the handler's own state.
\<close>

record 's Handler =
  h_Put :: "bytes \<Rightarrow> bytes \<Rightarrow> u16 \<Rightarrow> 's \<Rightarrow> 's"
  h_Merge :: "bytes \<Rightarrow> bytes \<Rightarrow> u16 \<Rightarrow> 's \<Rightarrow> Status \<times> 's"
  h_Delete :: "bytes \<Rightarrow> u16 \<Rightarrow> 's \<Rightarrow> 's"
  h_Continue :: "'s \<Rightarrow> bool \<times> 's"

text \<open>
  The two reads every record is made of: a fixed 32-bit length that is asserted
  against the rest of the input before the four bytes of the length itself are
  dropped, and a fixed 16-bit column id.
\<close>

definition read_sized :: "bytes \<Rightarrow> (bytes \<times> bytes) run" where
  "read_sized input =
     bind_run (of_opt Out_of_bounds (DecodeFixed32 kLittleEndian input)) (\<lambda>len.
       bind_run (assert_run (unat len \<le> length input)) (\<lambda>_.
         bind_run (remove_prefix 4 input) (\<lambda>input.
           let s = take (unat len) input
           in bind_run (remove_prefix (unat len) input) (\<lambda>input. Inr (s, input)))))"

definition read_col :: "bytes \<Rightarrow> (u16 \<times> bytes) run" where
  "read_col input =
     bind_run (of_opt Out_of_bounds (DecodeFixed16 kLittleEndian input)) (\<lambda>col.
       bind_run (remove_prefix 2 input) (\<lambda>input. Inr (col, input)))"

lemma read_sized_length: "read_sized input = Inr (s, rest) \<Longrightarrow> length rest + 4 \<le> length input"
  by (auto simp: read_sized_def bind_run_Inr_iff remove_prefix_def Let_def split: if_splits)

lemma read_col_length: "read_col input = Inr (s, rest) \<Longrightarrow> length rest + 2 \<le> length input"
  by (auto simp: read_col_def bind_run_Inr_iff remove_prefix_def split: if_splits)

text \<open>
  One pass through the body of the loop: the outcome is either a return with a
  status, or the remaining input and the new handler state.
\<close>

datatype 's step = Return Status 's | Next bytes 's

definition Iterate_step :: "'s Handler \<Rightarrow> bytes \<Rightarrow> 's \<Rightarrow> 's step run" where
  "Iterate_step h input s =
     bind_run (Slice_index input 0) (\<lambda>tag.
     bind_run (remove_prefix 1 input) (\<lambda>input.
     bind_run (read_sized input) (\<lambda>(key, input).
       if tag = kTypeValue then
         bind_run (read_sized input) (\<lambda>(value, input).
         bind_run (read_col input) (\<lambda>(col_id, input).
           Inr (Next input (h_Put h key value col_id s))))
       else if tag = kTypeMerge then
         bind_run (read_sized input) (\<lambda>(value, input).
         bind_run (read_col input) (\<lambda>(col_id, input).
           let r = h_Merge h key value col_id s
           in if \<not> Status_ok (fst r) then Inr (Return (fst r) (snd r)) else Inr (Next input (snd r))))
       else if tag = kTypeDeletion then
         bind_run (read_col input) (\<lambda>(col_id, input).
           Inr (Next input (h_Delete h key col_id s)))
       else
         bind_run (Status_make kCorruption (cstr ''unknown WriteBatch tag'') []) (\<lambda>st.
           Inr (Return st s)))))"

lemma Iterate_step_length:
  "Iterate_step h input s = Inr (Next input' s') \<Longrightarrow> length input' < length input"
  by (auto simp: Iterate_step_def bind_run_Inr_iff remove_prefix_def Let_def
      dest!: read_sized_length read_col_length split: if_splits prod.split_asm)

function Iterate_loop :: "'s Handler \<Rightarrow> bytes \<Rightarrow> u32 \<Rightarrow> u32 \<Rightarrow> 's \<Rightarrow> (Status \<times> 's) run" where
  "Iterate_loop h input found cnt s =
     (let (go, s1) = (if input \<noteq> [] then h_Continue h s else (False, s))
      in if input \<noteq> [] \<and> go then
           (case Iterate_step h input s1 of
              Inl e \<Rightarrow> Inl e
            | Inr (Return st s2) \<Rightarrow> Inr (st, s2)
            | Inr (Next input' s2) \<Rightarrow> Iterate_loop h input' (found + 1) cnt s2)
         else if found \<noteq> cnt then
           bind_run (Status_make kCorruption (cstr ''WriteBatch has wrong count'') []) (\<lambda>st. Inr (st, s1))
         else Inr (Status_OK, s1))"
  by pat_completeness auto
termination
  by (relation "measure (\<lambda>(h, input, found, cnt, s). length input)") (auto dest: Iterate_step_length)

declare Iterate_loop.simps [simp del]

definition Iterate :: "'s Handler \<Rightarrow> WriteBatch \<Rightarrow> 's \<Rightarrow> (Status \<times> 's) run" where
  "Iterate h b s =
     (let input = rep b
      in if length input < kHeader then
           bind_run (Status_make kCorruption (cstr ''malformed WriteBatch (too small)'') []) (\<lambda>st. Inr (st, s))
         else bind_run (remove_prefix kHeader input) (\<lambda>input.
                bind_run (Count b) (\<lambda>cnt. Iterate_loop h input 0 cnt s)))"

section \<open>Reading single records\<close>

datatype WriteType = kPutRecord | kMergeRecord | kDeleteRecord | kSingleDeleteRecord
  | kDeleteRangeRecord | kLogDataRecord | kXIDRecord

record Record =
  r_tag :: byte
  r_column_family :: u16
  r_key :: bytes
  r_value :: "bytes option"

text \<open>
  The output parameters after the call: the tag is written first; the value is
  written (\<open>Some\<close>) only for records that have one.
\<close>

definition ReadRecordFromWriteBatch :: "bytes \<Rightarrow> (Status \<times> Record \<times> bytes) run" where
  "ReadRecordFromWriteBatch input =
     bind_run (Slice_index input 0) (\<lambda>tag.
     bind_run (remove_prefix 1 input) (\<lambda>input.
     bind_run (read_sized input) (\<lambda>(key, input).
       let r = \<lparr>r_tag = tag, r_column_family = 0, r_key = key, r_value = None\<rparr>
       in if tag = kTypeValue \<or> tag = kTypeMerge then
            bind_run (read_sized input) (\<lambda>(value, input).
            bind_run (read_col input) (\<lambda>(col, input).
              Inr (Status_OK, r\<lparr>r_value := Some value, r_column_family := col\<rparr>, input)))
          else if tag = kTypeDeletion then
            bind_run (read_col input) (\<lambda>(col, input).
              Inr (Status_OK, r\<lparr>r_column_family := col\<rparr>, input))
          else
            bind_run (Status_make kCorruption (cstr ''unknown WriteBatch tag'') []) (\<lambda>st.
              Inr (st, r, input)))))"

definition GetEntryFromDataOffset :: "nat \<Rightarrow> WriteBatch \<Rightarrow> (Status \<times> (WriteType \<times> Record) option) run" where
  "GetEntryFromDataOffset data_offset b =
     (if data_offset = length (rep b) then
        bind_run (Status_make kNotFound (cstr ''reached end of batch'') []) (\<lambda>st. Inr (st, None))
      else if data_offset > length (rep b) then
        bind_run (Status_make kInvalidArgument (cstr ''data offset exceed write batch size'') [])
          (\<lambda>st. Inr (st, None))
      else bind_run (ReadRecordFromWriteBatch (drop data_offset (rep b))) (\<lambda>(s, r, input).
        if r_tag r = kTypeValue then Inr (Status_OK, Some (kPutRecord, r))
        else if r_tag r = kTypeDeletion then Inr (Status_OK, Some (kDeleteRecord, r))
        else if r_tag r = kTypeMerge then Inr (Status_OK, Some (kMergeRecord, r))
        else bind_run (Status_make kCorruption (cstr ''unknown WriteBatch tag'') []) (\<lambda>st. Inr (st, None))))"

definition GetFirstOffset :: nat where
  "GetFirstOffset = kHeader"

definition ReadKeyFromWriteBatchEntry :: "bytes \<Rightarrow> (bytes \<times> bytes) run" where
  "ReadKeyFromWriteBatchEntry input =
     bind_run (remove_prefix 1 input) (\<lambda>input. read_sized input)"

section \<open>Abstract batches\<close>

datatype wb_op = OpPut bytes bytes u16 | OpMerge bytes bytes u16 | OpDelete bytes u16

definition apply_op :: "wb_op \<Rightarrow> WriteBatch \<Rightarrow> WriteBatch run" where
  "apply_op op = (case op of OpPut k v c \<Rightarrow> Put k v c | OpMerge k v c \<Rightarrow> Merge k v c | OpDelete k c \<Rightarrow> Delete k c)"

primrec apply_ops :: "wb_op list \<Rightarrow> WriteBatch \<Rightarrow> WriteBatch run" where
  "apply_ops [] b = Inr b"
| "apply_ops (op # ops) b = bind_run (apply_op op b) (apply_ops ops)"

definition sized :: "bytes \<Rightarrow> bytes" where
  "sized s = le_bytes 4 (word_of_nat (length s) :: u32) @ s"

definition encode_op :: "wb_op \<Rightarrow> bytes" where
  "encode_op op =
     (case op of
        OpPut k v c \<Rightarrow> kTypeValue # sized k @ sized v @ le_bytes 2 c
      | OpMerge k v c \<Rightarrow> kTypeMerge # sized k @ sized v @ le_bytes 2 c
      | OpDelete k c \<Rightarrow> kTypeDeletion # sized k @ le_bytes 2 c)"

primrec op_ok :: "wb_op \<Rightarrow> bool" where
  "op_ok (OpPut k v c) = (length k < 2 ^ 32 \<and> length v < 2 ^ 32)"
| "op_ok (OpMerge k v c) = (length k < 2 ^ 32 \<and> length v < 2 ^ 32)"
| "op_ok (OpDelete k c) = (length k < 2 ^ 32)"

definition encode_batch :: "wb_op list \<Rightarrow> bytes" where
  "encode_batch ops = le_bytes 4 (word_of_nat (length ops) :: u32) @ concat (map encode_op ops)"

lemma Count_le [simp]: "Count \<lparr>rep = le_bytes 4 n @ r\<rparr> = Inr n"
  by (simp add: Count_def dec_simps)

lemma SetCount_le [simp]: "SetCount n \<lparr>rep = le_bytes 4 m @ r\<rparr> = Inr \<lparr>rep = le_bytes 4 n @ r\<rparr>"
  by (simp add: SetCount_def poke_def enc_simps)

lemma apply_op_encode:
  "apply_op op \<lparr>rep = le_bytes 4 (n :: u32) @ r\<rparr> = Inr \<lparr>rep = le_bytes 4 (n + 1) @ r @ encode_op op\<rparr>"
  by (cases op) (simp_all add: apply_op_def Put_def Merge_def Delete_def increment_count_def
      encode_op_def sized_def PutFixed32_def PutFixed16_def enc_simps Let_def)

lemma apply_ops_encode:
  "apply_ops ops \<lparr>rep = le_bytes 4 (n :: u32) @ r\<rparr>
     = Inr \<lparr>rep = le_bytes 4 (n + word_of_nat (length ops)) @ r @ concat (map encode_op ops)\<rparr>"
  by (induction ops arbitrary: n r) (simp_all add: apply_op_encode ac_simps)

lemma WriteBatch_init_le: "WriteBatch_init = \<lparr>rep = le_bytes 4 (0 :: u32)\<rparr>"
  by (simp add: WriteBatch_init_def Clear_def kHeader_def eval_nat_numeral)

lemma apply_ops_init: "apply_ops ops WriteBatch_init = Inr \<lparr>rep = encode_batch ops\<rparr>"
  using apply_ops_encode[of ops 0 "[]"] by (simp add: WriteBatch_init_le encode_batch_def)

section \<open>Reading records back\<close>

lemma read_sized_sized [simp]: "length s < 2 ^ 32 \<Longrightarrow> read_sized (sized s @ rest) = Inr (s, rest)"
  by (simp add: read_sized_def sized_def dec_simps remove_prefix_def unat_of_nat_u32)

lemma read_col_le [simp]: "read_col (le_bytes 2 c @ rest) = Inr (c, rest)"
  by (simp add: read_col_def dec_simps remove_prefix_def)

lemmas tag_defs = kTypeValue_def kTypeMerge_def kTypeDeletion_def

definition record_of :: "wb_op \<Rightarrow> Record" where
  "record_of op =
     (case op of
        OpPut k v c \<Rightarrow> \<lparr>r_tag = kTypeValue, r_column_family = c, r_key = k, r_value = Some v\<rparr>
      | OpMerge k v c \<Rightarrow> \<lparr>r_tag = kTypeMerge, r_column_family = c, r_key = k, r_value = Some v\<rparr>
      | OpDelete k c \<Rightarrow> \<lparr>r_tag = kTypeDeletion, r_column_family = c, r_key = k, r_value = None\<rparr>)"

definition type_of :: "wb_op \<Rightarrow> WriteType" where
  "type_of op = (case op of OpPut _ _ _ \<Rightarrow> kPutRecord | OpMerge _ _ _ \<Rightarrow> kMergeRecord | OpDelete _ _ \<Rightarrow> kDeleteRecord)"

lemma ReadRecord_encode:
  "op_ok op \<Longrightarrow> ReadRecordFromWriteBatch (encode_op op @ rest) = Inr (Status_OK, record_of op, rest)"
  by (cases op) (simp_all add: ReadRecordFromWriteBatch_def encode_op_def record_of_def Slice_index_def
      remove_prefix_def tag_defs)

lemma record_of_inj: "record_of a = record_of b \<Longrightarrow> a = b"
  by (cases a; cases b) (auto simp: record_of_def tag_defs)

text \<open>The record format is a prefix code, so the bytes of a batch determine its operations.\<close>

definition op_of_record :: "Record \<Rightarrow> wb_op" where
  "op_of_record r =
     (case r_value r of
        None \<Rightarrow> OpDelete (r_key r) (r_column_family r)
      | Some v \<Rightarrow> (if r_tag r = kTypeValue then OpPut (r_key r) v (r_column_family r)
                  else OpMerge (r_key r) v (r_column_family r)))"

definition read_op :: "bytes \<Rightarrow> (wb_op \<times> bytes) option" where
  "read_op p = (case ReadRecordFromWriteBatch p of
      Inr (st, r, q) \<Rightarrow> if Status_ok st then Some (op_of_record r, q) else None | Inl _ \<Rightarrow> None)"

lemma op_of_record_of [simp]: "op_of_record (record_of op) = op"
  by (cases op) (simp_all add: op_of_record_def record_of_def tag_defs)

interpretation batch_record: prefix_codec encode_op read_op op_ok
  by unfold_locales (simp add: read_op_def ReadRecord_encode Status_ok_def Status_OK_def)

section \<open>Iteration\<close>

text \<open>
  The specification of iteration on a list of operations: how many of them were
  handed to the handler, the status a failing merge returned, and the handler
  state.
\<close>

definition exec_op :: "'s Handler \<Rightarrow> wb_op \<Rightarrow> 's \<Rightarrow> Status \<times> 's" where
  "exec_op h op s =
     (case op of
        OpPut k v c \<Rightarrow> (Status_OK, h_Put h k v c s)
      | OpMerge k v c \<Rightarrow> h_Merge h k v c s
      | OpDelete k c \<Rightarrow> (Status_OK, h_Delete h k c s))"

primrec run_ops :: "'s Handler \<Rightarrow> wb_op list \<Rightarrow> 's \<Rightarrow> nat \<times> Status \<times> 's" where
  "run_ops h [] s = (0, Status_OK, s)"
| "run_ops h (op # ops) s =
     (let (go, s1) = h_Continue h s
      in if \<not> go then (0, Status_OK, s1)
         else (let (st, s2) = exec_op h op s1
               in if \<not> Status_ok st then (1, st, s2)
                  else (let (n, r) = run_ops h ops s2 in (Suc n, r))))"

definition wrong_count :: Status where
  "wrong_count = Some (le_bytes 4 (26 :: u32) @ [2] @ cstr ''WriteBatch has wrong count'')"

lemma run_ops_le: "run_ops h ops s = (n, r) \<Longrightarrow> n \<le> length ops"
  by (induction ops arbitrary: s n r) (auto simp: Let_def split: prod.splits if_splits)

lemma Iterate_step_encode:
  "op_ok op \<Longrightarrow> Iterate_step h (encode_op op @ rest) s =
     Inr (let (st, s') = exec_op h op s in if \<not> Status_ok st then Return st s' else Next rest s')"
  by (cases op) (auto simp: Iterate_step_def encode_op_def exec_op_def Slice_index_def remove_prefix_def
      tag_defs Status_ok_def Status_OK_def Let_def split: prod.splits)

lemma wrong_count_make: "Status_make kCorruption (cstr ''WriteBatch has wrong count'') [] = Inr wrong_count"
  by (subst Status_make_ok) (simp_all add: cstr_def wrong_count_def Code_value_def)

lemma encode_op_not_Nil [simp]: "encode_op op \<noteq> []"
  by (cases op) (simp_all add: encode_op_def)

lemma Iterate_loop_ops:
  assumes "\<forall>op \<in> set ops. op_ok op" "n + length ops < 2 ^ 32"
  shows "Iterate_loop h (concat (map encode_op ops)) (word_of_nat n) (word_of_nat (n + length ops)) s =
    Inr (let (k, st, s') = run_ops h ops s
         in (if Status_ok st \<and> k < length ops then wrong_count else st, s'))"
  using assms
proof (induction ops arbitrary: n s)
  case Nil
  then show ?case by (simp add: Iterate_loop.simps)
next
  case (Cons op ops)
  obtain go s1 where c: "h_Continue h s = (go, s1)" by fastforce
  obtain st s2 where e: "exec_op h op s1 = (st, s2)" by fastforce
  obtain k r s3 where r: "run_ops h ops s2 = (k, r, s3)" by (metis prod_cases3)
  have ne: "(word_of_nat n :: u32) \<noteq> word_of_nat (n + length (op # ops))"
  proof
    assume "(word_of_nat n :: u32) = word_of_nat (n + length (op # ops))"
    then have "unat (word_of_nat n :: u32) = unat (word_of_nat (n + length (op # ops)) :: u32)" by (rule arg_cong)
    moreover have "n < 2 ^ 32" using Cons.prems(2) by simp
    ultimately have "n = n + length (op # ops)"
      using Cons.prems(2) by (simp only: unat_of_nat_u32)
    then show False by simp
  qed
  have IH: "Iterate_loop h (concat (map encode_op ops)) (word_of_nat n + 1)
      (word_of_nat (n + length (op # ops))) s2
    = Inr (let (k, st, s') = run_ops h ops s2
         in (if Status_ok st \<and> k < length ops then wrong_count else st, s'))"
    using Cons.IH[of "Suc n" s2] Cons.prems by (simp add: add.commute)
  show ?case
  proof (cases go)
    case False
    then show ?thesis using c ne
      by (simp add: Iterate_loop.simps[of h "encode_op op @ _"] wrong_count_make Status_ok_def Status_OK_def
          del: of_nat_add)
  next
    case True
    then show ?thesis using c e r Cons.prems(1) IH
      by (simp add: Iterate_loop.simps[of h "encode_op op @ _"] Iterate_step_encode Let_def del: of_nat_add)
  qed
qed

lemma Iterate_encode:
  assumes "\<forall>op \<in> set ops. op_ok op" "length ops < 2 ^ 32"
  shows "Iterate h \<lparr>rep = encode_batch ops\<rparr> s =
    Inr (let (k, st, s') = run_ops h ops s
         in (if Status_ok st \<and> k < length ops then wrong_count else st, s'))"
  using Iterate_loop_ops[OF assms(1), of 0 h s] assms(2)
  by (simp add: Iterate_def encode_batch_def kHeader_def remove_prefix_def)

lemma run_ops_uninterrupted:
  assumes "\<And>s. h_Continue h s = (True, s)" "\<And>op s. op \<in> set ops \<Longrightarrow> Status_ok (fst (exec_op h op s))"
  shows "run_ops h ops s = (length ops, Status_OK, fold (\<lambda>op s. snd (exec_op h op s)) ops s)"
  using assms(2) by (induction ops arbitrary: s) (simp_all add: assms(1) Let_def split_beta)

lemma GetEntry_encode:
  assumes "op_ok op" "off = length pre"
  shows "GetEntryFromDataOffset off \<lparr>rep = pre @ encode_op op @ rest\<rparr>
    = Inr (Status_OK, Some (type_of op, record_of op))"
  using assms
  by (cases op) (simp_all add: GetEntryFromDataOffset_def ReadRecord_encode[simplified] record_of_def type_of_def tag_defs)

section \<open>Properties\<close>

text \<open>
  C6: a batch built by any sequence of \<open>Put\<close>, \<open>Merge\<close> and \<open>Delete\<close> calls, iterated with
  any handler, hands the handler exactly these operations in order until
  \<open>Continue\<close> refuses or a merge fails. No read leaves the batch and no assertion
  fails. The status is the failing merge's, OK after the last operation, and
  the wrong-count corruption when \<open>Continue\<close> stopped the iteration early.
\<close>

theorem batch_iterate:
  assumes "\<forall>op \<in> set ops. op_ok op" "length ops < 2 ^ 32"
  shows "\<exists>b. apply_ops ops WriteBatch_init = Inr b
    \<and> Iterate h b s = Inr (let (k, st, s') = run_ops h ops s
         in (if Status_ok st \<and> k < length ops then wrong_count else st, s'))"
  using Iterate_encode[OF assms] by (simp add: apply_ops_init)

theorem batch_iterate_witness:
  "\<exists>b. apply_ops [OpPut [1] [2, 3] 0, OpDelete [1] 5] WriteBatch_init = Inr b
    \<and> Iterate \<lparr>h_Put = (\<lambda>k v c l. l @ [OpPut k v c]), h_Merge = (\<lambda>k v c l. (Status_OK, l @ [OpMerge k v c])),
        h_Delete = (\<lambda>k c l. l @ [OpDelete k c]), h_Continue = (\<lambda>l. (True, l))\<rparr> b []
      = Inr (Status_OK, [OpPut [1] [2, 3] 0, OpDelete [1] 5])"
  (is "\<exists>b. apply_ops ?ops _ = _ \<and> Iterate ?h _ _ = _")
proof -
  have "\<forall>op \<in> set ?ops. op_ok op" "length ?ops < 2 ^ 32" by simp_all
  from batch_iterate[OF this, of ?h "[]"] show ?thesis
    by (simp add: exec_op_def Status_ok_def Status_OK_def)
qed

text \<open>When the handler always continues and its merges succeed, iterating a batch
  applies all its operations, in the order they were added, and reports OK.
\<close>

theorem batch_iterate_all:
  assumes "\<forall>op \<in> set ops. op_ok op" "length ops < 2 ^ 32"
    and "\<forall>s. h_Continue h s = (True, s)" "\<forall>k v c s. Status_ok (fst (h_Merge h k v c s))"
  shows "bind_run (apply_ops ops WriteBatch_init) (\<lambda>b. Iterate h b s)
    = Inr (Status_OK, fold (\<lambda>op s. snd (exec_op h op s)) ops s)"
proof -
  have "Status_ok (fst (exec_op h op s))" for op s
    using assms(4) by (cases op) (simp_all add: exec_op_def Status_ok_def Status_OK_def)
  then show ?thesis using Iterate_encode[OF assms(1,2), of h s] assms(3)
    by (simp add: apply_ops_init run_ops_uninterrupted)
qed

theorem batch_iterate_all_witness:
  "bind_run (apply_ops [OpPut [1] [7] 0, OpPut [1] [8] 0] WriteBatch_init)
     (\<lambda>b. Iterate \<lparr>h_Put = (\<lambda>k v c m. m(k \<mapsto> v)), h_Merge = (\<lambda>k v c m. (Status_OK, m)),
        h_Delete = (\<lambda>k c m. m(k := None)), h_Continue = (\<lambda>m. (True, m))\<rparr> b Map.empty)
   = Inr (Status_OK, [[1] \<mapsto> [8]])" (is "bind_run (apply_ops ?ops _) (\<lambda>b. Iterate ?h b _) = _")
proof -
  have "\<forall>op \<in> set ?ops. op_ok op" "length ?ops < 2 ^ 32" by simp_all
  from batch_iterate_all[OF this, of ?h Map.empty] show ?thesis
    by (simp add: exec_op_def Status_ok_def Status_OK_def)
qed

text \<open>
  C21: appending a batch to another one gives the batch of the concatenated
  operations, with the counts added.
\<close>

theorem batch_append:
  "bind_run (apply_ops xs WriteBatch_init) (\<lambda>b. bind_run (apply_ops ys WriteBatch_init) (\<lambda>src. Append src b))
     = apply_ops (xs @ ys) WriteBatch_init"
  by (simp add: apply_ops_init Append_def encode_batch_def kHeader_def)

text \<open>
  C22: rolling back to a save point (the size and the count of the batch at that
  time) with \<open>ResizeData\<close> and \<open>SetCount\<close> undoes exactly the operations added since.
\<close>

theorem batch_rollback:
  "bind_run (apply_ops xs WriteBatch_init) (\<lambda>b. bind_run (Count b) (\<lambda>n. bind_run (apply_ops ys b) (\<lambda>b'.
       SetCount n (ResizeData (ApproximateSize b) b'))))
     = apply_ops xs WriteBatch_init"
  by (simp add: apply_ops_init encode_batch_def apply_ops_encode ResizeData_def ApproximateSize_def)



end
