(* ===== verification/ColumnNodes.thy ===== *)
theory ColumnNodes
  imports Prelude
begin

text \<open>
  \<open>ColumnNode\<close> of \<^verbatim>\<open>db/insdb_internal.h\<close>: one version of one column of a user key.
  The record keeps the packed fields of the class (flag byte, tagged pointer,
  offset and size word); \<open>cn_addr\<close> is the address of the object, which stands for
  its embedded list node.
\<close>

type_synonym SequenceNumber = u64

definition ULONG_MAX :: u64 where "ULONG_MAX = - 1"

datatype RequestType = kPutType | kDelType

definition RequestType_bits :: "RequestType \<Rightarrow> u8" where
  "RequestType_bits t = (case t of kPutType \<Rightarrow> 0 | kDelType \<Rightarrow> 1)"

record ColumnNode =
  cn_addr :: u64
  uvalue_or_kbm :: u64
  cn_ttl :: u64
  kb_offset_and_size :: u32
  begin_seq :: SequenceNumber
  end_seq :: SequenceNumber
  ikey_seq :: u64
  cn_flags :: u8

definition USERVALUE_FLAG :: u64 where "USERVALUE_FLAG = 0x8000000000000000"
definition ADDRESS_MASK :: u64 where "ADDRESS_MASK = 0x0000FFFFFFFFFFFF"
definition COL_KB_SIZE_MASK :: u32 where "COL_KB_SIZE_MASK = 0x00FFFFFF"
definition COL_KB_OFFSET_SHIFT :: nat where "COL_KB_OFFSET_SHIFT = 24"

definition flags_del_type :: u8 where "flags_del_type = 0x01"
definition flags_trxn :: u8 where "flags_trxn = 0x02"
definition flags_dropped :: u8 where "flags_dropped = 0x04"
definition flags_holding_iter :: u8 where "flags_holding_iter = 0x08"
definition flags_recent_col_node_deleted :: u8 where "flags_recent_col_node_deleted = 0x10"
definition flags_trxn_committed :: u8 where "flags_trxn_committed = 0x20"
definition flags_tgid_split :: u8 where "flags_tgid_split = 0x40"

lemmas flag_defs = flags_del_type_def flags_trxn_def flags_dropped_def flags_holding_iter_def
  flags_recent_col_node_deleted_def flags_trxn_committed_def flags_tgid_split_def

section \<open>Constructors\<close>

definition ColumnNode_recovered :: "u64 \<Rightarrow> RequestType \<Rightarrow> u64 \<Rightarrow> u64 \<Rightarrow> u32 \<Rightarrow> u8 \<Rightarrow> ColumnNode run" where
  "ColumnNode_recovered addr type ikey ttl ivalue_size off =
     bind_run (assert_run (ivalue_size \<le> COL_KB_SIZE_MASK)) (\<lambda>_.
       Inr \<lparr>cn_addr = addr, uvalue_or_kbm = 0, cn_ttl = ttl,
            kb_offset_and_size = push_bit COL_KB_OFFSET_SHIFT (ucast off) OR ivalue_size,
            begin_seq = 0, end_seq = ULONG_MAX, ikey_seq = ikey,
            cn_flags = RequestType_bits type OR flags_trxn_committed\<rparr>)"

definition ColumnNode_fetched :: "u64 \<Rightarrow> SequenceNumber \<Rightarrow> u64 \<Rightarrow> u64 \<Rightarrow> u32 \<Rightarrow> u8 \<Rightarrow> ColumnNode run" where
  "ColumnNode_fetched addr seq ttl ikey ivalue_size off =
     bind_run (assert_run (ivalue_size \<le> COL_KB_SIZE_MASK)) (\<lambda>_.
       Inr \<lparr>cn_addr = addr, uvalue_or_kbm = 0, cn_ttl = ttl,
            kb_offset_and_size = push_bit COL_KB_OFFSET_SHIFT (ucast off) OR ivalue_size,
            begin_seq = seq, end_seq = ULONG_MAX, ikey_seq = ikey,
            cn_flags = RequestType_bits kPutType OR flags_trxn_committed\<rparr>)"

definition ColumnNode_new :: "u64 \<Rightarrow> RequestType \<Rightarrow> u64 \<Rightarrow> ColumnNode" where
  "ColumnNode_new addr type ttl =
     \<lparr>cn_addr = addr, uvalue_or_kbm = 0, cn_ttl = ttl, kb_offset_and_size = 0,
      begin_seq = 0, end_seq = ULONG_MAX, ikey_seq = 0, cn_flags = RequestType_bits type\<rparr>"

definition UpdateSequenceNumber :: "SequenceNumber \<Rightarrow> ColumnNode \<Rightarrow> ColumnNode" where
  "UpdateSequenceNumber seq n = n\<lparr>begin_seq := seq, end_seq := ULONG_MAX\<rparr>"

section \<open>Flags\<close>

definition set_flag :: "u8 \<Rightarrow> ColumnNode \<Rightarrow> ColumnNode" where
  "set_flag f n = n\<lparr>cn_flags := cn_flags n OR f\<rparr>"

definition clear_flag :: "u8 \<Rightarrow> ColumnNode \<Rightarrow> ColumnNode" where
  "clear_flag f n = n\<lparr>cn_flags := cn_flags n AND NOT f\<rparr>"

definition has_flag :: "u8 \<Rightarrow> ColumnNode \<Rightarrow> bool" where
  "has_flag f n = (cn_flags n AND f \<noteq> 0)"

definition SetTGIDSplit :: "ColumnNode \<Rightarrow> ColumnNode" where "SetTGIDSplit = set_flag flags_tgid_split"
definition ClearTGIDSplit :: "ColumnNode \<Rightarrow> ColumnNode" where "ClearTGIDSplit = clear_flag flags_tgid_split"
definition IsTGIDSplit :: "ColumnNode \<Rightarrow> bool" where "IsTGIDSplit = has_flag flags_tgid_split"
definition SetTransaction :: "ColumnNode \<Rightarrow> ColumnNode" where "SetTransaction = set_flag flags_trxn"
definition IsTransaction :: "ColumnNode \<Rightarrow> bool" where "IsTransaction = has_flag flags_trxn"
definition ClearTransaction :: "ColumnNode \<Rightarrow> ColumnNode" where "ClearTransaction = clear_flag flags_trxn"
definition DropColumnNode :: "ColumnNode \<Rightarrow> ColumnNode" where "DropColumnNode = set_flag flags_dropped"
definition IsDropped :: "ColumnNode \<Rightarrow> bool" where "IsDropped = has_flag flags_dropped"
definition IsHoldingIter :: "ColumnNode \<Rightarrow> bool" where "IsHoldingIter = has_flag flags_holding_iter"
definition SetHoldingIter :: "ColumnNode \<Rightarrow> ColumnNode" where "SetHoldingIter = set_flag flags_holding_iter"
definition ClearHoldingIter :: "ColumnNode \<Rightarrow> ColumnNode" where "ClearHoldingIter = clear_flag flags_holding_iter"
definition GetRecentColNodeyDeleted :: "ColumnNode \<Rightarrow> bool" where
  "GetRecentColNodeyDeleted = has_flag flags_recent_col_node_deleted"
definition SetRecentColNodeyDeleted :: "ColumnNode \<Rightarrow> ColumnNode" where
  "SetRecentColNodeyDeleted = set_flag flags_recent_col_node_deleted"
definition SetTRXNCommitted :: "ColumnNode \<Rightarrow> ColumnNode" where "SetTRXNCommitted = set_flag flags_trxn_committed"
definition IsTRXNCommitted :: "ColumnNode \<Rightarrow> bool" where "IsTRXNCommitted = has_flag flags_trxn_committed"

definition GetRequestType :: "ColumnNode \<Rightarrow> RequestType" where
  "GetRequestType n = (if cn_flags n AND flags_del_type = 0 then kPutType else kDelType)"

section \<open>Value or key block\<close>

definition GetUserValue :: "ColumnNode \<Rightarrow> u64" where
  "GetUserValue n = (if uvalue_or_kbm n AND USERVALUE_FLAG \<noteq> 0 then uvalue_or_kbm n AND ADDRESS_MASK else 0)"

definition HasUserValue :: "ColumnNode \<Rightarrow> bool" where
  "HasUserValue n = (uvalue_or_kbm n AND USERVALUE_FLAG \<noteq> 0)"

definition RemoveUserValue :: "ColumnNode \<Rightarrow> ColumnNode run" where
  "RemoveUserValue n =
     (if USERVALUE_FLAG AND uvalue_or_kbm n = 0 then Inl Aborted else Inr (n\<lparr>uvalue_or_kbm := 0\<rparr>))"

definition InsertUserValue :: "u64 \<Rightarrow> ColumnNode \<Rightarrow> ColumnNode run" where
  "InsertUserValue uv n =
     bind_run (assert_run (uvalue_or_kbm n = 0)) (\<lambda>_.
     bind_run (assert_run (uv < ADDRESS_MASK)) (\<lambda>_.
       Inr (n\<lparr>uvalue_or_kbm := USERVALUE_FLAG OR uv\<rparr>)))"

text \<open>Also returns the user value handed to \<open>Manifest::FreeUserValue\<close>, if any.\<close>

definition InvalidateUserValue :: "ColumnNode \<Rightarrow> (ColumnNode \<times> u64 list) run" where
  "InvalidateUserValue n =
     (let uv = GetUserValue n
      in if uv \<noteq> 0 then bind_run (RemoveUserValue n) (\<lambda>n. Inr (n, [uv])) else Inr (n, []))"

definition GetKeyBlockMeta :: "ColumnNode \<Rightarrow> u64" where
  "GetKeyBlockMeta n = (if uvalue_or_kbm n AND USERVALUE_FLAG \<noteq> 0 then 0 else uvalue_or_kbm n)"

definition SetKeyBlockMeta :: "u64 \<Rightarrow> ColumnNode \<Rightarrow> ColumnNode run" where
  "SetKeyBlockMeta kbm n =
     bind_run (assert_run (kbm = uvalue_or_kbm n \<or> uvalue_or_kbm n = 0)) (\<lambda>_.
       if kbm = 0 then Inl Aborted else Inr (n\<lparr>uvalue_or_kbm := kbm\<rparr>))"

definition RemoveKeyBlockMeta :: "ColumnNode \<Rightarrow> ColumnNode run" where
  "RemoveKeyBlockMeta n =
     (if uvalue_or_kbm n AND USERVALUE_FLAG \<noteq> 0 then Inl Aborted else Inr (n\<lparr>uvalue_or_kbm := 0\<rparr>))"

definition GetiValueSize :: "ColumnNode \<Rightarrow> u32" where
  "GetiValueSize n = kb_offset_and_size n AND COL_KB_SIZE_MASK"

definition GetKeyBlockOffset :: "ColumnNode \<Rightarrow> u8" where
  "GetKeyBlockOffset n = ucast (drop_bit COL_KB_OFFSET_SHIFT (kb_offset_and_size n))"

definition kMaxRequestPerKeyBlock :: nat where "kMaxRequestPerKeyBlock = 32"
definition kDeviceRquestMaxSize :: nat where "kDeviceRquestMaxSize = 0x200000"

definition SetKeyBlockOffset :: "u8 \<Rightarrow> ColumnNode \<Rightarrow> ColumnNode run" where
  "SetKeyBlockOffset off n =
     bind_run (assert_run (unat off < kMaxRequestPerKeyBlock)) (\<lambda>_.
     bind_run (assert_run (kb_offset_and_size n = 0)) (\<lambda>_.
       Inr (n\<lparr>kb_offset_and_size := kb_offset_and_size n OR push_bit COL_KB_OFFSET_SHIFT (ucast off)\<rparr>)))"

text \<open>A worker has written the version in a key block; its user value (if any) is freed.\<close>

definition UpdateColumnNode :: "u32 \<Rightarrow> u64 \<Rightarrow> u64 \<Rightarrow> ColumnNode \<Rightarrow> (ColumnNode \<times> u64 list) run" where
  "UpdateColumnNode kb_size ikey kbm n =
     bind_run (assert_run (GetiValueSize n = 0)) (\<lambda>_.
     bind_run (assert_run (unat kb_size < kDeviceRquestMaxSize)) (\<lambda>_.
     bind_run (assert_run (kb_offset_and_size n AND COL_KB_SIZE_MASK = 0)) (\<lambda>_.
       let uv = GetUserValue n
       in bind_run (assert_run (uv \<noteq> 0 \<or> GetRequestType n = kDelType)) (\<lambda>_.
            Inr (n\<lparr>kb_offset_and_size := kb_offset_and_size n OR kb_size, uvalue_or_kbm := kbm, ikey_seq := ikey\<rparr>,
                 if uv \<noteq> 0 then [uv] else [])))))"

section \<open>The packed fields do not interfere\<close>

lemma pack_offset:
  assumes "sz \<le> COL_KB_SIZE_MASK"
  shows "(ucast (drop_bit 24 (push_bit 24 (ucast (off :: u8)) OR sz :: u32)) :: u8) = off"
    "(push_bit 24 (ucast (off :: u8)) OR sz) AND COL_KB_SIZE_MASK = (sz :: u32)"
proof -
  have m: "COL_KB_SIZE_MASK = mask 24" by (simp add: COL_KB_SIZE_MASK_def mask_eq_exp_minus_1)
  have "unat sz < 2 ^ 24" using assms by (simp add: COL_KB_SIZE_MASK_def word_le_nat_alt)
  then have "take_bit 24 sz = sz" 
    by (metis take_bit_nat_eq_self unsigned_take_bit_eq word_unat_eq_iff)
  then have b: "bit sz i \<Longrightarrow> i < 24" for i by (metis bit_take_bit_iff)
  show "(ucast (drop_bit 24 (push_bit 24 (ucast (off :: u8)) OR sz :: u32)) :: u8) = off"
    by (rule bit_word_eqI) (auto simp: bit_unsigned_iff bit_drop_bit_eq bit_or_iff bit_push_bit_iff dest: b)
  show "(push_bit 24 (ucast (off :: u8)) OR sz) AND COL_KB_SIZE_MASK = (sz :: u32)"
    unfolding m by (rule bit_word_eqI) (auto simp: bit_and_iff bit_mask_iff bit_or_iff bit_push_bit_iff dest: b)
qed

lemma pack_user_value:
  assumes "uv < ADDRESS_MASK"
  shows "(USERVALUE_FLAG OR uv) AND USERVALUE_FLAG \<noteq> 0" "(USERVALUE_FLAG OR uv) AND ADDRESS_MASK = uv"
    "uv AND USERVALUE_FLAG = 0"
proof -
  have m: "ADDRESS_MASK = mask 48" by (simp add: ADDRESS_MASK_def mask_eq_exp_minus_1)
  have u: "USERVALUE_FLAG = 2 ^ 63" by (simp add: USERVALUE_FLAG_def)
  have f: "bit USERVALUE_FLAG i \<longleftrightarrow> i = 63" for i unfolding u bit_exp_iff by auto
  have "unat uv < 2 ^ 48" using assms by (simp add: ADDRESS_MASK_def word_less_nat_alt)
  then have "take_bit 48 uv = uv" 
    by (metis take_bit_nat_eq_self unsigned_take_bit_eq word_unat_eq_iff)
  then have b: "bit uv i \<Longrightarrow> i < 48" for i by (metis bit_take_bit_iff)
  have "bit ((USERVALUE_FLAG OR uv) AND USERVALUE_FLAG) 63" by (simp add: f bit_and_iff bit_or_iff)
  then show "(USERVALUE_FLAG OR uv) AND USERVALUE_FLAG \<noteq> 0" by (metis bit_0_eq bot_apply bot_bool_def)
  show "(USERVALUE_FLAG OR uv) AND ADDRESS_MASK = uv"
    unfolding m by (rule bit_word_eqI) (auto simp: bit_and_iff bit_mask_iff bit_or_iff f dest: b)
  show "uv AND USERVALUE_FLAG = 0"
    unfolding m by (rule bit_word_eqI) (auto simp: bit_and_iff f dest: b)
qed
text \<open>
  The flag bits are pairwise different, so that setting or clearing one leaves
  the tests of the others, and the request type, alone.
\<close>

definition flag_bits :: "u8 list" where
  "flag_bits = [flags_del_type, flags_trxn, flags_dropped, flags_holding_iter,
     flags_recent_col_node_deleted, flags_trxn_committed, flags_tgid_split]"

lemma flags_disjoint:
  "\<lbrakk>f \<in> set flag_bits; g \<in> set flag_bits; f \<noteq> g\<rbrakk> \<Longrightarrow> f AND g = 0"
  by (auto simp: flag_bits_def flag_defs)

lemma has_set_flag:
  "\<lbrakk>f \<in> set flag_bits; g \<in> set flag_bits\<rbrakk> \<Longrightarrow> has_flag g (set_flag f n) = (f = g \<or> has_flag g n)"
  using flags_disjoint[of f g]
  by (cases "f = g") (auto simp: has_flag_def set_flag_def bit.conj_disj_distrib2 flag_bits_def flag_defs)

lemma has_clear_flag:
  assumes "f \<in> set flag_bits" "g \<in> set flag_bits"
  shows "has_flag g (clear_flag f n) = (f \<noteq> g \<and> has_flag g n)"
proof (cases "f = g")
  case True
  then show ?thesis by (simp add: has_flag_def clear_flag_def and.assoc)
next
  case False
  then have "\<not> (bit f i \<and> bit g i)" for i
    using arg_cong[OF flags_disjoint[OF assms], of "\<lambda>w. bit w i"] by (simp add: bit_and_iff)
  then have "NOT f AND g = g" by (intro bit_word_eqI) (auto simp: bit_and_iff bit_not_iff)
  then show ?thesis using False by (simp add: has_flag_def clear_flag_def and.assoc)
qed

lemma GetRequestType_flags: "GetRequestType n = (if has_flag flags_del_type n then kDelType else kPutType)"
  by (simp add: GetRequestType_def has_flag_def)

lemma GetRequestType_set [simp]:
  "f \<in> set (tl flag_bits) \<Longrightarrow> GetRequestType (set_flag f n) = GetRequestType n"
  "f \<in> set (tl flag_bits) \<Longrightarrow> GetRequestType (clear_flag f n) = GetRequestType n"
  by (auto simp: GetRequestType_flags has_set_flag has_clear_flag flag_bits_def flag_defs)

section \<open>Properties\<close>

text \<open>
  C28: a column node keeps its packed parts apart. A node fetched from the device
  format returns the key block offset and size it was made from and is a
  committed put; inserting a user value makes exactly that pointer readable and
  hides the key block pointer; setting a flag changes the answer of no other flag.
\<close>

theorem column_node_packing:
  assumes "sz \<le> COL_KB_SIZE_MASK" "uv < ADDRESS_MASK" "0 < uv" "f \<in> set flag_bits" "g \<in> set flag_bits"
  shows "\<exists>n n'. ColumnNode_fetched addr seq ttl ikey sz off = Inr n \<and> GetKeyBlockOffset n = off
    \<and> GetiValueSize n = sz \<and> GetRequestType n = kPutType \<and> IsTRXNCommitted n
    \<and> InsertUserValue uv n = Inr n' \<and> GetUserValue n' = uv \<and> GetKeyBlockMeta n' = 0
    \<and> InvalidateUserValue n' = Inr (n, [uv])
    \<and> has_flag g (set_flag f n) = (f = g \<or> has_flag g n)"
proof -
  let ?n = "\<lparr>cn_addr = addr, uvalue_or_kbm = 0, cn_ttl = ttl,
            kb_offset_and_size = push_bit COL_KB_OFFSET_SHIFT (ucast off) OR sz,
            begin_seq = seq, end_seq = ULONG_MAX, ikey_seq = ikey,
            cn_flags = RequestType_bits kPutType OR flags_trxn_committed\<rparr>"
  have "ColumnNode_fetched addr seq ttl ikey sz off = Inr ?n" using assms(1) by (simp add: ColumnNode_fetched_def)
  moreover have "GetKeyBlockOffset ?n = off" "GetiValueSize ?n = sz"
    using pack_offset[OF assms(1), of off]
    by (simp_all add: GetKeyBlockOffset_def GetiValueSize_def COL_KB_OFFSET_SHIFT_def)
  moreover have "GetRequestType ?n = kPutType" "IsTRXNCommitted ?n"
    by (simp_all add: GetRequestType_def IsTRXNCommitted_def has_flag_def RequestType_bits_def flag_defs)
  moreover have "InsertUserValue uv ?n = Inr (?n\<lparr>uvalue_or_kbm := USERVALUE_FLAG OR uv\<rparr>)"
    using assms(2) by (simp add: InsertUserValue_def)
  moreover note pack_user_value[OF assms(2)] has_set_flag[OF assms(4,5), of ?n]
  ultimately show ?thesis using assms(3)
    by (intro exI[of _ ?n] exI[of _ "?n\<lparr>uvalue_or_kbm := USERVALUE_FLAG OR uv\<rparr>"])
       (simp add: GetUserValue_def GetKeyBlockMeta_def InvalidateUserValue_def RemoveUserValue_def and.commute)
qed

theorem column_node_packing_witness:
  "\<exists>n. ColumnNode_fetched 1 10 0 99 4096 3 = Inr n \<and> GetKeyBlockOffset n = 3 \<and> GetiValueSize n = 4096"
  using column_node_packing[where sz = 4096 and uv = "0x7f0000001000" and f = flags_trxn and g = flags_dropped
      and addr = 1 and seq = 10 and ttl = 0 and ikey = 99 and off = 3]
  by (auto simp: COL_KB_SIZE_MASK_def ADDRESS_MASK_def flag_bits_def)

end
