(* ===== verification/UserKeys.thy ===== *)
theory UserKeys
  imports ColumnNodes Coding
begin

text \<open>
  \<^verbatim>\<open>db/userkey.cc\<close> and the \<open>UserKey\<close> class of \<^verbatim>\<open>db/insdb_internal.h\<close>: the
  multi-version column lists of a user key. The intrusive list of a column is the
  list of its nodes, newest first; pointers to column nodes are their
  addresses. All functions run under the column lock.
\<close>

section \<open>Transactions and requests\<close>

type_synonym TransactionID = u64
type_synonym TrxnGroupID = u32

record Transaction =
  t_count :: u32
  t_seq_number :: u32
  t_id :: TransactionID

definition Transaction_init :: Transaction where
  "Transaction_init = \<lparr>t_count = 0, t_seq_number = 0, t_id = 0\<rparr>"

definition TGID_SHIFT :: nat where "TGID_SHIFT = 5"

definition tgid_of :: "TransactionID \<Rightarrow> TrxnGroupID" where
  "tgid_of tid = ucast (drop_bit TGID_SHIFT tid)"

record RequestNode =
  rn_trxns :: "Transaction list"
  rn_tgid_for_dec :: TrxnGroupID
  rn_latest_col_node :: u64

definition RequestNode_Init :: "Transaction \<Rightarrow> RequestNode \<Rightarrow> RequestNode run" where
  "RequestNode_Init trxn r =
     bind_run (assert_run (rn_trxns r = [])) (\<lambda>_.
       Inr \<lparr>rn_trxns = (if t_id trxn \<noteq> 0 then [trxn] else []), rn_tgid_for_dec = 0, rn_latest_col_node = 0\<rparr>)"

definition InsertTrxn :: "Transaction \<Rightarrow> RequestNode \<Rightarrow> RequestNode run" where
  "InsertTrxn trxn r =
     bind_run (assert_run (rn_trxns r \<noteq> [])) (\<lambda>_. Inr (r\<lparr>rn_trxns := rn_trxns r @ [trxn]\<rparr>))"

definition GetTrxn :: "RequestNode \<Rightarrow> Transaction \<times> RequestNode" where
  "GetTrxn r =
     (if rn_trxns r = [] then (Transaction_init, r)
      else (last (rn_trxns r), r\<lparr>rn_trxns := butlast (rn_trxns r)\<rparr>))"

section \<open>Column data\<close>

record ColumnData =
  col_list :: "ColumnNode list"
  latest_col_node :: u64
  last_tgid :: TrxnGroupID

datatype InsertColumnNodeStatus =
  kFailInsert | kSuccessInsert | kInsertedToLast | kNeedToSchedule | kHasBeenScheduled

definition kUnusedNextInternalKey :: u64 where "kUnusedNextInternalKey = 1088"

definition SetLastTGID :: "TrxnGroupID \<Rightarrow> ColumnData \<Rightarrow> TrxnGroupID \<times> ColumnData" where
  "SetLastTGID tgid c = (last_tgid c, c\<lparr>last_tgid := tgid\<rparr>)"

definition SetLatestColumnNode :: "u64 \<Rightarrow> ColumnData \<Rightarrow> ColumnData" where
  "SetLatestColumnNode addr c = c\<lparr>latest_col_node := addr\<rparr>"

text \<open>Following a column node pointer.\<close>

definition deref :: "u64 \<Rightarrow> ColumnNode list \<Rightarrow> ColumnNode run" where
  "deref a ns = of_opt Out_of_bounds (find (\<lambda>n. cn_addr n = a) ns)"

text \<open>The two tests of \<open>GetColumnNode\<close>: is this the version of \<open>seq_num\<close>, and is it gone?\<close>

definition version_matches :: "SequenceNumber \<Rightarrow> ColumnNode \<Rightarrow> bool" where
  "version_matches seq_num n =
     (begin_seq n \<le> seq_num
      \<and> (end_seq n = ULONG_MAX \<or> seq_num < end_seq n \<or> GetRequestType n = kDelType))"

definition version_gone :: "u64 \<Rightarrow> u64 \<Rightarrow> ColumnNode \<Rightarrow> bool" where
  "version_gone cur_time ttl n =
     (IsDropped n \<or> (ttl \<noteq> 0 \<and> cn_ttl n + ttl < cur_time) \<or> GetRequestType n = kDelType)"

text \<open>Returns the node (if any) and the value of the reference parameter \<open>deleted\<close>, initially false.\<close>

definition GetColumnNode :: "u64 \<Rightarrow> SequenceNumber \<Rightarrow> u64 \<Rightarrow> ColumnData \<Rightarrow> (ColumnNode option \<times> bool) run" where
  "GetColumnNode cur_time seq_num ttl c =
     (if latest_col_node c = 0 then Inr (None, False)
      else bind_run (deref (latest_col_node c) (col_list c)) (\<lambda>n.
        if version_matches seq_num n then
          (if version_gone cur_time ttl n then Inr (None, True) else Inr (Some n, False))
        else (case col_list c of
                [] \<Rightarrow> Inl Out_of_bounds
              | _ # older \<Rightarrow>
                  (case find (version_matches seq_num) older of
                     None \<Rightarrow> Inr (None, False)
                   | Some n \<Rightarrow> if version_gone cur_time ttl n then Inr (None, True) else Inr (Some n, False)))))"

text \<open>
  \<open>UpdateColumn\<close> puts a new version in front. Besides the status it returns
  whether the key block of the previous version is to be prefetched.
\<close>

definition UpdateColumn :: "ColumnNode \<Rightarrow> bool \<Rightarrow> ColumnData \<Rightarrow> (InsertColumnNodeStatus \<times> bool \<times> ColumnData) run" where
  "UpdateColumn new force c =
     bind_run (assert_run (ikey_seq new = 0)) (\<lambda>_.
       let new' = (if GetRequestType new = kDelType then new\<lparr>end_seq := begin_seq new\<rparr> else new)
       in case col_list c of
            [] \<Rightarrow> Inr (kNeedToSchedule, False, c\<lparr>col_list := [new']\<rparr>)
          | old # rest \<Rightarrow>
              (let close = (GetRequestType old = kPutType \<and> end_seq old = ULONG_MAX)
               in if \<not> close \<and> GetRequestType new = kDelType \<and> GetRequestType old = kDelType \<and> \<not> force
                  then Inr (kFailInsert, False, c)
                  else (let old' = (if close then old\<lparr>end_seq := begin_seq new\<rparr> else old);
                            ret = (if ikey_seq old' = 0 then kHasBeenScheduled else kNeedToSchedule);
                            prefetch = (ikey_seq old' \<noteq> 0 \<and> ikey_seq old' > kUnusedNextInternalKey)
                        in Inr (ret, prefetch, c\<lparr>col_list := new' # old' # rest\<rparr>))))"

text \<open>A column read from the table on the device goes behind the versions in memory.\<close>

definition InsertColumnNode :: "ColumnNode \<Rightarrow> ColumnData \<Rightarrow> (InsertColumnNodeStatus \<times> ColumnData) run" where
  "InsertColumnNode new c =
     bind_run (assert_run (ikey_seq new \<noteq> 0)) (\<lambda>_.
     bind_run (assert_run (GetRequestType new = kPutType)) (\<lambda>_.
       if col_list c \<noteq> [] then
         (let old = last (col_list c)
          in if ikey_seq old = ikey_seq new \<and> GetKeyBlockOffset old = GetKeyBlockOffset new
             then Inr (kFailInsert, c)
             else Inr (kInsertedToLast, c\<lparr>col_list := col_list c @ [new\<lparr>end_seq := begin_seq old\<rparr>]\<rparr>))
       else Inr (kSuccessInsert, c\<lparr>col_list := [new], latest_col_node := cn_addr new\<rparr>)))"

section \<open>Vertical merge\<close>

text \<open>
  What a merge leaves behind besides the shortened list: the transactions
  recorded in the key block log, the group counters to decrement (all in the
  order of the code), the smallest transaction id and the freed user values.
\<close>

record merge_out =
  mo_req :: RequestNode
  mo_merged :: "Transaction list"
  mo_dec :: "TrxnGroupID list"
  mo_smallest :: TransactionID
  mo_freed :: "u64 list"

text \<open>The inner loop over the snapshots that see this version; returns the remaining snapshots.\<close>

fun skip_snaps :: "ColumnNode \<Rightarrow> SequenceNumber list \<Rightarrow> bool \<Rightarrow> bool \<times> SequenceNumber list" where
  "skip_snaps n [] iter = (iter, [])"
| "skip_snaps n (s # snaps) iter =
     (if begin_seq n \<le> s
      then skip_snaps n snaps (iter \<or> (end_seq n > s \<and> GetRequestType n = kPutType))
      else (iter, s # snaps))"

fun merge_loop :: "SequenceNumber list \<Rightarrow> merge_out \<Rightarrow> ColumnNode list \<Rightarrow> (ColumnNode list \<times> merge_out) run" where
  "merge_loop snaps m [] = Inr ([], m)"
| "merge_loop snaps m (n # ns) =
     (if ikey_seq n \<noteq> 0 \<or> IsTGIDSplit n then Inr (ClearTGIDSplit n # ns, m)
      else
        (let (iter, snaps') = skip_snaps n snaps False;
             (n1, m1) =
               (if IsTransaction n
                then (let (trxn, req) = GetTrxn (mo_req m)
                      in (ClearTransaction n,
                          m\<lparr>mo_req := req, mo_merged := mo_merged m @ [trxn],
                            mo_smallest := (if mo_smallest m = 0 \<or> mo_smallest m > t_id trxn then t_id trxn
                                            else mo_smallest m),
                            mo_dec := mo_dec m @ [tgid_of (t_id trxn)]\<rparr>))
                else (n, m))
         in if \<not> iter then
              (if GetRequestType n1 = kPutType then
                 bind_run (assert_run (GetUserValue n1 \<noteq> 0)) (\<lambda>_.
                 bind_run (InvalidateUserValue n1) (\<lambda>(n2, freed).
                   merge_loop snaps' (m1\<lparr>mo_freed := mo_freed m1 @ freed\<rparr>) ns))
               else merge_loop snaps' m1 ns)
            else
              bind_run (assert_run (GetUserValue n1 \<noteq> 0)) (\<lambda>_.
              bind_run (merge_loop snaps' m1 ns) (\<lambda>(kept, m2).
                Inr (SetTRXNCommitted (n1\<lparr>ikey_seq := ULONG_MAX\<rparr>) # kept, m2)))))"

text \<open>
  The header is the node the request points to; the nodes in front of it are
  newer and untouched. The result also carries the header transaction that
  \<open>SetHeadTrxn\<close> records.
\<close>

definition DoVerticalMerge :: "RequestNode \<Rightarrow> u64 \<Rightarrow> SequenceNumber list \<Rightarrow> ColumnData
    \<Rightarrow> (Transaction \<times> merge_out \<times> ColumnData) run" where
  "DoVerticalMerge req worker_id snapinfo_list c =
     bind_run (deref (rn_latest_col_node req) (col_list c)) (\<lambda>head.
     bind_run (assert_run (ikey_seq head = worker_id)) (\<lambda>_.
       let newer = takeWhile (\<lambda>n. cn_addr n \<noteq> rn_latest_col_node req) (col_list c);
           older = tl (dropWhile (\<lambda>n. cn_addr n \<noteq> rn_latest_col_node req) (col_list c));
           snaps = dropWhile (\<lambda>s. begin_seq head \<le> s) snapinfo_list;
           (head', trxn, req') =
             (if IsTransaction head
              then (let (t, r) = GetTrxn req
                    in (ClearTransaction head, t, r\<lparr>rn_tgid_for_dec := tgid_of (t_id t)\<rparr>))
              else (head, Transaction_init, req));
           m = \<lparr>mo_req = req', mo_merged = [], mo_dec = [], mo_smallest = t_id trxn, mo_freed = []\<rparr>
       in bind_run (merge_loop snaps m older) (\<lambda>(kept, m').
            Inr (trxn, m', c\<lparr>col_list := newer @ head' # kept\<rparr>))))"

section \<open>UserKey\<close>

record UserKey =
  uk_key :: bytes
  uk_key_buffer_size :: nat
  uk_flags :: u8
  uk_ref_cnt :: u16
  uk_cols :: "ColumnData list"

definition ColumnData_init :: ColumnData where
  "ColumnData_init = \<lparr>col_list = [], latest_col_node = 0, last_tgid = 0\<rparr>"

definition UserKey_new :: "nat \<Rightarrow> nat \<Rightarrow> UserKey" where
  "UserKey_new kMaxColumnCount key_size =
     \<lparr>uk_key = [], uk_key_buffer_size = key_size, uk_flags = 0, uk_ref_cnt = 0,
      uk_cols = replicate kMaxColumnCount ColumnData_init\<rparr>"

definition InitUserKey :: "bytes \<Rightarrow> UserKey \<Rightarrow> UserKey" where
  "InitUserKey user_key u =
     u\<lparr>uk_flags := 0, uk_ref_cnt := 1,
       uk_key_buffer_size := max (uk_key_buffer_size u) (length user_key), uk_key := user_key\<rparr>"

definition flags_fetched :: u8 where "flags_fetched = 0x01"
definition flags_referenced :: u8 where "flags_referenced = 0x02"
definition flags_evict_prepare :: u8 where "flags_evict_prepare = 0x04"
definition flags_userkey_dirty :: u8 where "flags_userkey_dirty = 0x08"

text \<open>The atomic read-modify-write operations return the previous state of the bit.\<close>

definition fetch_or_flag :: "u8 \<Rightarrow> UserKey \<Rightarrow> bool \<times> UserKey" where
  "fetch_or_flag f u = (uk_flags u AND f \<noteq> 0, u\<lparr>uk_flags := uk_flags u OR f\<rparr>)"

definition fetch_and_not_flag :: "u8 \<Rightarrow> UserKey \<Rightarrow> bool \<times> UserKey" where
  "fetch_and_not_flag f u = (uk_flags u AND f \<noteq> 0, u\<lparr>uk_flags := uk_flags u AND NOT f\<rparr>)"

definition IsFetched :: "UserKey \<Rightarrow> bool" where "IsFetched u = (uk_flags u AND flags_fetched \<noteq> 0)"
definition SetFetched :: "UserKey \<Rightarrow> UserKey" where "SetFetched u = snd (fetch_or_flag flags_fetched u)"
definition ClearReferenced :: "UserKey \<Rightarrow> bool \<times> UserKey" where "ClearReferenced = fetch_and_not_flag flags_referenced"
definition SetReferenced :: "UserKey \<Rightarrow> UserKey" where "SetReferenced u = snd (fetch_or_flag flags_referenced u)"
definition SetEvictionPrepare :: "UserKey \<Rightarrow> UserKey" where "SetEvictionPrepare u = snd (fetch_or_flag flags_evict_prepare u)"
definition ClearEvictionPrepare :: "UserKey \<Rightarrow> UserKey" where
  "ClearEvictionPrepare u = snd (fetch_and_not_flag flags_evict_prepare u)"
definition IsEvictionPrepared :: "UserKey \<Rightarrow> bool" where "IsEvictionPrepared u = (uk_flags u AND flags_evict_prepare \<noteq> 0)"
definition SetDirty :: "UserKey \<Rightarrow> bool \<times> UserKey" where "SetDirty = fetch_or_flag flags_userkey_dirty"
definition ClearDirty :: "UserKey \<Rightarrow> bool \<times> UserKey" where "ClearDirty = fetch_and_not_flag flags_userkey_dirty"
definition IsDirty :: "UserKey \<Rightarrow> bool" where "IsDirty u = (uk_flags u AND flags_userkey_dirty \<noteq> 0)"

definition IncreaseReferenceCount :: "UserKey \<Rightarrow> UserKey" where
  "IncreaseReferenceCount u = u\<lparr>uk_ref_cnt := uk_ref_cnt u + 1\<rparr>"

definition DecreaseReferenceCount :: "UserKey \<Rightarrow> u16 \<times> UserKey" where
  "DecreaseReferenceCount u = (uk_ref_cnt u, u\<lparr>uk_ref_cnt := uk_ref_cnt u - 1\<rparr>)"

text \<open>Returns whether the key may be used; a key being evicted gives back the reference.\<close>

definition IsSKTableEvictionInProgress :: "UserKey \<Rightarrow> bool \<times> UserKey" where
  "IsSKTableEvictionInProgress u =
     (if IsEvictionPrepared u then (False, snd (DecreaseReferenceCount u)) else (True, u))"

definition with_column :: "u16 \<Rightarrow> (ColumnData \<Rightarrow> ('a \<times> ColumnData) run) \<Rightarrow> UserKey \<Rightarrow> ('a \<times> UserKey) run" where
  "with_column col_id f u =
     (if unat col_id < length (uk_cols u)
      then bind_run (f (uk_cols u ! unat col_id)) (\<lambda>(r, c). Inr (r, u\<lparr>uk_cols := (uk_cols u)[unat col_id := c]\<rparr>))
      else Inl Out_of_bounds)"

definition UserKey_UpdateColumn :: "ColumnNode \<Rightarrow> u16 \<Rightarrow> bool \<Rightarrow> UserKey \<Rightarrow> (InsertColumnNodeStatus \<times> UserKey) run" where
  "UserKey_UpdateColumn new col_id force u =
     bind_run (with_column col_id (\<lambda>c. bind_run (UpdateColumn new force c) (\<lambda>(st, pf, c). Inr (st, c))) u) (\<lambda>(st, u).
       if st = kFailInsert then Inr (st, u) else Inr (st, snd (SetDirty u)))"

text \<open>
  \<open>UserKeyCleanup\<close> pops at most one version of every column. The assertion on the
  list size has no effect: \<open>col_list_size\<close> returns a \<open>bool\<close>. The result: whether a
  version was found, the freed user values and the key block metas whose
  reference is given back.
\<close>

fun cleanup_columns :: "ColumnData list \<Rightarrow> (bool \<times> u64 list \<times> u64 list \<times> ColumnData list) run" where
  "cleanup_columns [] = Inr (False, [], [], [])"
| "cleanup_columns (c # cs) =
     (if col_list c = [] then
        bind_run (cleanup_columns cs) (\<lambda>(act, fr, kb, cs'). Inr (act, fr, kb, c # cs'))
      else
        (let n = last (col_list c)
         in bind_run (InvalidateUserValue n) (\<lambda>(n, freed).
            bind_run (assert_run (\<not> HasUserValue n)) (\<lambda>_.
              let kbm = GetKeyBlockMeta n
              in bind_run (cleanup_columns cs) (\<lambda>(act, fr, kb, cs').
                Inr (True, freed @ fr, (if kbm \<noteq> 0 then [kbm] else []) @ kb,
                     c\<lparr>col_list := butlast (col_list c)\<rparr> # cs'))))))"

definition UserKeyCleanup :: "UserKey \<Rightarrow> (bool \<times> u64 list \<times> u64 list \<times> UserKey) run" where
  "UserKeyCleanup u =
     bind_run (assert_run (\<not> IsDirty u)) (\<lambda>_.
     bind_run (cleanup_columns (uk_cols u)) (\<lambda>(active, freed, kbms, cols).
       Inr (active, freed, kbms, u\<lparr>uk_cols := cols, uk_key := []\<rparr>)))"

text \<open>
  \<open>InsertColumnNodes\<close> parses the column records of a key in the table on the
  device. A varint that cannot be read leaves the variable at its previous
  value. \<open>fresh i\<close> is the address of the node allocated for the i-th record.
\<close>

record col_vars =
  cv_ikey :: u64
  cv_size :: u32
  cv_seq :: u64
  cv_ttl :: u64

definition COLUMN_NODE_ID_MASK :: byte where "COLUMN_NODE_ID_MASK = 0x3F"
definition COLUMN_NODE_HAS_SEQ_NUM_BIT :: byte where "COLUMN_NODE_HAS_SEQ_NUM_BIT = 0x80"
definition COLUMN_NODE_HAS_TTL_BIT :: byte where "COLUMN_NODE_HAS_TTL_BIT = 0x40"
definition COLUMN_NODE_OFFSET_MASK :: byte where "COLUMN_NODE_OFFSET_MASK = 0x3f"

definition get64 :: "u64 \<Rightarrow> bytes \<Rightarrow> u64 \<times> bytes" where
  "get64 old p = (case GetVarint64 p of None \<Rightarrow> (old, p) | Some (v, q) \<Rightarrow> (v, q))"

definition get32 :: "u32 \<Rightarrow> bytes \<Rightarrow> u32 \<times> bytes" where
  "get32 old p = (case GetVarint32 p of None \<Rightarrow> (old, p) | Some (v, q) \<Rightarrow> (v, q))"

definition parse_column :: "bool \<Rightarrow> col_vars \<Rightarrow> bytes \<Rightarrow> (byte \<times> byte \<times> col_vars \<times> bytes) option" where
  "parse_column valid_seq v p =
     (case p of
        b0 # offset # p1 \<Rightarrow>
          (let col_id = b0 AND COLUMN_NODE_ID_MASK;
               (ikey, p2) = get64 (cv_ikey v) p1;
               (sz, p3) = get32 (cv_size v) p2;
               (seq, p4) = (if offset AND COLUMN_NODE_HAS_SEQ_NUM_BIT \<noteq> 0
                            then (let (s, q) = get64 (cv_seq v) p3 in (if valid_seq then s else 0, q))
                            else (0, p3));
               (ttl, p5) = (if offset AND COLUMN_NODE_HAS_TTL_BIT \<noteq> 0 then get64 (cv_ttl v) p4 else (0, p4))
           in Some (col_id, offset, \<lparr>cv_ikey = ikey, cv_size = sz, cv_seq = seq, cv_ttl = ttl\<rparr>, p5))
      | _ \<Rightarrow> None)"

fun InsertColumnNodes_loop :: "nat \<Rightarrow> bool \<Rightarrow> (nat \<Rightarrow> u64) \<Rightarrow> col_vars \<Rightarrow> bytes \<Rightarrow> UserKey \<Rightarrow> (bytes \<times> UserKey) run" where
  "InsertColumnNodes_loop 0 valid_seq fresh v p u = Inr (p, u)"
| "InsertColumnNodes_loop (Suc i) valid_seq fresh v p u =
     bind_run (of_opt Out_of_bounds (parse_column valid_seq v p)) (\<lambda>(col_id, offset, v, p).
     bind_run (ColumnNode_fetched (fresh i) (cv_seq v) (cv_ttl v) (cv_ikey v) (cv_size v)
                 (offset AND COLUMN_NODE_OFFSET_MASK)) (\<lambda>n.
     bind_run (with_column (ucast col_id) (\<lambda>c. InsertColumnNode n c) u) (\<lambda>(st, u).
       InsertColumnNodes_loop i valid_seq fresh v p u)))"

definition InsertColumnNodes :: "bool \<Rightarrow> (nat \<Rightarrow> u64) \<Rightarrow> bytes \<Rightarrow> UserKey \<Rightarrow> (bytes \<times> UserKey) run" where
  "InsertColumnNodes valid_seq fresh col_info u =
     (case col_info of
        [] \<Rightarrow> Inl Assert_failed
      | nr_column # p \<Rightarrow>
          InsertColumnNodes_loop (unat nr_column) valid_seq fresh \<lparr>cv_ikey = 0, cv_size = 0, cv_seq = 0, cv_ttl = 0\<rparr> p u)"

section \<open>Multi-version reads\<close>

text \<open>What a list of versions answers at a sequence number.\<close>

datatype answer = Absent | Deleted | Value u64

definition answer_of :: "ColumnNode \<Rightarrow> answer" where
  "answer_of n = (if GetRequestType n = kDelType then Deleted else Value (cn_addr n))"

definition answer_at :: "ColumnNode list \<Rightarrow> SequenceNumber \<Rightarrow> answer" where
  "answer_at ns s = (case find (version_matches s) ns of None \<Rightarrow> Absent | Some n \<Rightarrow> answer_of n)"

text \<open>
  Versions are ordered from new to old; a put that is not the newest version
  ends no later than a newer version begins; the newest put is open.
\<close>

definition older_than :: "SequenceNumber \<Rightarrow> ColumnNode \<Rightarrow> bool" where
  "older_than b n = (begin_seq n \<le> b \<and> (GetRequestType n = kPutType \<longrightarrow> end_seq n \<le> b))"

fun chain_ok :: "SequenceNumber \<Rightarrow> ColumnNode list \<Rightarrow> bool" where
  "chain_ok b [] = True"
| "chain_ok b (n # ns) = (older_than b n \<and> chain_ok (begin_seq n) ns)"

fun versions_ok :: "ColumnNode list \<Rightarrow> bool" where
  "versions_ok [] = True"
| "versions_ok (n # ns) =
     ((GetRequestType n = kPutType \<longrightarrow> end_seq n = ULONG_MAX) \<and> begin_seq n < ULONG_MAX \<and> chain_ok (begin_seq n) ns)"

definition column_ok :: "ColumnData \<Rightarrow> bool" where
  "column_ok c =
     (versions_ok (col_list c) \<and> distinct (map cn_addr (col_list c)) \<and> 0 \<notin> cn_addr ` set (col_list c)
      \<and> latest_col_node c = (case col_list c of [] \<Rightarrow> 0 | n # _ \<Rightarrow> cn_addr n))"

lemma answer_at_Nil [simp]: "answer_at [] s = Absent"
  by (simp add: answer_at_def)

lemma answer_at_Cons:
  "answer_at (n # ns) s = (if version_matches s n then answer_of n else answer_at ns s)"
  by (simp add: answer_at_def)

lemma answer_at_append:
  "answer_at (xs @ ys) s = (if \<exists>n \<in> set xs. version_matches s n then answer_at xs s else answer_at ys s)"
  by (induction xs) (auto simp: answer_at_Cons)

lemma max_ge: "s \<le> ULONG_MAX"
  by (simp add: ULONG_MAX_def)

lemma GetColumnNode_column:
  assumes "column_ok c"
  shows "GetColumnNode cur_time s ttl c = Inr (case find (version_matches s) (col_list c) of
      None \<Rightarrow> (None, False)
    | Some n \<Rightarrow> if version_gone cur_time ttl n then (None, True) else (Some n, False))"
proof (cases "col_list c")
  case Nil
  then show ?thesis using assms by (simp add: GetColumnNode_def column_ok_def)
next
  case (Cons n ns)
  then have l: "latest_col_node c = cn_addr n" "cn_addr n \<noteq> 0" using assms by (auto simp: column_ok_def)
  then show ?thesis using Cons by (auto simp: GetColumnNode_def deref_def split: option.split)
qed

text \<open>A put version matches exactly from its begin up to its end.\<close>

lemma matches_put:
  assumes "older_than b n" "GetRequestType n = kPutType" "s < ULONG_MAX"
  shows "version_matches s n \<longleftrightarrow> begin_seq n \<le> s \<and> s < end_seq n"
  using assms by (auto simp: version_matches_def)

lemma chain_ok_mono: "chain_ok b ns \<Longrightarrow> b \<le> b' \<Longrightarrow> chain_ok b' ns"
  by (cases ns) (auto simp: older_than_def)

text \<open>No value of an older version can be read at or after the begin of a newer one.\<close>

lemma no_older_value:
  assumes "chain_ok b ns" "b \<le> s" "b < ULONG_MAX"
  shows "answer_at ns s \<noteq> Value a"
  using assms
proof (induction ns arbitrary: b)
  case (Cons n ns)
  have o: "older_than b n" and c: "chain_ok (begin_seq n) ns" using Cons.prems(1) by auto
  then have b: "begin_seq n \<le> b" by (simp add: older_than_def)
  then have IH: "answer_at ns s \<noteq> Value a"
    using Cons.IH[OF c] Cons.prems(2,3) by (meson order_trans order_le_less_trans)
  show ?case
  proof (cases "GetRequestType n = kPutType")
    case True
    then have "end_seq n \<le> b" using o by (simp add: older_than_def)
    then have "end_seq n \<le> s" "end_seq n \<noteq> ULONG_MAX" using Cons.prems(2,3) by (auto intro: order_trans)
    then have "\<not> version_matches s n" using True by (auto simp: version_matches_def)
    then show ?thesis using IH by (simp add: answer_at_Cons)
  next
    case False
    then have "GetRequestType n = kDelType" by (cases "GetRequestType n") auto
    then show ?thesis using IH by (simp add: answer_at_Cons answer_of_def)
  qed
qed simp

section \<open>Updates\<close>

lemma GetRequestType_end [simp]:
  "GetRequestType (n\<lparr>end_seq := e\<rparr>) = GetRequestType n"
  "GetRequestType (n\<lparr>ikey_seq := k\<rparr>) = GetRequestType n"
  by (simp_all add: GetRequestType_def)

lemma UpdateColumn_answer:
  assumes "versions_ok (col_list c)" "ikey_seq new = 0" "end_seq new = ULONG_MAX" "begin_seq new < ULONG_MAX"
    and "col_list c \<noteq> [] \<Longrightarrow> begin_seq (hd (col_list c)) \<le> begin_seq new"
  shows "\<exists>st pf c'. UpdateColumn new force c = Inr (st, pf, c') \<and> versions_ok (col_list c')
    \<and> (st \<noteq> kFailInsert \<longrightarrow> col_list c' \<noteq> [] \<and> cn_addr (hd (col_list c')) = cn_addr new
         \<and> map cn_addr (tl (col_list c')) = map cn_addr (col_list c))
    \<and> (st = kFailInsert \<longrightarrow> c' = c)
    \<and> latest_col_node c' = latest_col_node c \<and> col_list c' \<noteq> [] \<and> begin_seq (hd (col_list c')) \<le> begin_seq new
    \<and> (\<forall>s. answer_at (col_list c') s = (if begin_seq new \<le> s then answer_of new else answer_at (col_list c) s))"
proof (cases "col_list c")
  case Nil
  then show ?thesis using assms(2,3,4)
    by (auto simp: UpdateColumn_def Let_def answer_at_Cons version_matches_def answer_of_def)
next
  case (Cons old rest)
  have o: "GetRequestType old = kPutType \<longrightarrow> end_seq old = ULONG_MAX" "begin_seq old < ULONG_MAX"
    "chain_ok (begin_seq old) rest" "begin_seq old \<le> begin_seq new"
    using assms(1,5) Cons by auto
  have t: "GetRequestType n = kDelType \<longleftrightarrow> GetRequestType n \<noteq> kPutType" for n
    by (cases "GetRequestType n") auto
  show ?thesis
  proof (cases "GetRequestType old = kPutType")
    case True
    then show ?thesis using assms(2,3,4) o Cons
      by (auto simp: UpdateColumn_def Let_def answer_at_Cons version_matches_def answer_of_def older_than_def t)
  next
    case False
    then show ?thesis using assms(2,3,4) o Cons
      by (auto simp: UpdateColumn_def Let_def answer_at_Cons version_matches_def answer_of_def older_than_def t
          intro: order_trans)
  qed
qed

section \<open>Vertical merge keeps what snapshots read\<close>

definition value_at :: "ColumnNode list \<Rightarrow> SequenceNumber \<Rightarrow> u64 option" where
  "value_at ns s = (case answer_at ns s of Value a \<Rightarrow> Some a | _ \<Rightarrow> None)"

lemma flag_fields [simp]:
  "begin_seq (set_flag f n) = begin_seq n" "end_seq (set_flag f n) = end_seq n"
  "cn_addr (set_flag f n) = cn_addr n" "ikey_seq (set_flag f n) = ikey_seq n"
  "GetUserValue (set_flag f n) = GetUserValue n"
  "begin_seq (clear_flag f n) = begin_seq n" "end_seq (clear_flag f n) = end_seq n"
  "cn_addr (clear_flag f n) = cn_addr n" "ikey_seq (clear_flag f n) = ikey_seq n"
  "GetUserValue (clear_flag f n) = GetUserValue n"
  by (simp_all add: set_flag_def clear_flag_def GetUserValue_def)

lemma flag_in_tl [simp]:
  "flags_tgid_split \<in> set (tl flag_bits)" "flags_trxn \<in> set (tl flag_bits)"
  "flags_trxn_committed \<in> set (tl flag_bits)"
  by (simp_all add: flag_bits_def)

lemmas flag_ops = ClearTGIDSplit_def ClearTransaction_def SetTRXNCommitted_def

text \<open>Two nodes that differ only in bookkeeping fields give the same answers.\<close>

definition same_version :: "ColumnNode \<Rightarrow> ColumnNode \<Rightarrow> bool" where
  "same_version n n' = (begin_seq n = begin_seq n' \<and> end_seq n = end_seq n' \<and> cn_addr n = cn_addr n'
     \<and> GetRequestType n = GetRequestType n')"

lemma same_version_cong:
  assumes "same_version n n'"
  shows "version_matches s n = version_matches s n'" "answer_of n = answer_of n'"
    "older_than b n = older_than b n'" "begin_seq n = begin_seq n'" "cn_addr n = cn_addr n'"
  using assms by (auto simp: same_version_def version_matches_def answer_of_def older_than_def)

lemma same_version_flags [simp]:
  "same_version (ClearTGIDSplit n) n" "same_version (ClearTransaction n) n"
  "same_version (SetTRXNCommitted (n\<lparr>ikey_seq := k\<rparr>)) n"
  "same_version (SetTRXNCommitted (ClearTransaction n\<lparr>ikey_seq := k\<rparr>)) n"
  by (simp_all add: same_version_def flag_ops)

lemma skip_snaps_eq:
  "skip_snaps n snaps it =
     (it \<or> (\<exists>s \<in> set (takeWhile (\<lambda>s. begin_seq n \<le> s) snaps). s < end_seq n \<and> GetRequestType n = kPutType),
      dropWhile (\<lambda>s. begin_seq n \<le> s) snaps)"
  by (induction snaps arbitrary: it) auto

lemma InvalidateUserValue_ok: "GetUserValue n \<noteq> 0 \<Longrightarrow> \<exists>n'. InvalidateUserValue n = Inr (n', [GetUserValue n])"
  by (auto simp: InvalidateUserValue_def GetUserValue_def RemoveUserValue_def and.commute split: if_splits)

definition merge_ready :: "ColumnNode list \<Rightarrow> bool" where
  "merge_ready ns = (\<forall>n \<in> set ns. ikey_seq n = 0 \<longrightarrow> GetRequestType n = kPutType \<longrightarrow> GetUserValue n \<noteq> 0)"

text \<open>Either the node is dropped, or a node of the same version is kept in front of the rest.\<close>

lemma merge_loop_step:
  assumes "ikey_seq n = 0" "\<not> IsTGIDSplit n" "GetRequestType n = kPutType \<Longrightarrow> GetUserValue n \<noteq> 0"
    and "skip_snaps n snaps False = (iter, snaps')"
    and "\<And>m. \<exists>kept m'. merge_loop snaps' m ns = Inr (kept, m') \<and> P kept"
  shows "\<exists>kept m'. merge_loop snaps m (n # ns) = Inr (kept, m')
    \<and> (if iter then \<exists>n' ks. kept = n' # ks \<and> same_version n' n \<and> P ks else P kept)"
proof -
  obtain n1 m1 where t: "(if IsTransaction n
      then (let (trxn, req) = GetTrxn (mo_req m)
            in (ClearTransaction n,
                m\<lparr>mo_req := req, mo_merged := mo_merged m @ [trxn],
                  mo_smallest := (if mo_smallest m = 0 \<or> mo_smallest m > t_id trxn then t_id trxn else mo_smallest m),
                  mo_dec := mo_dec m @ [tgid_of (t_id trxn)]\<rparr>))
      else (n, m)) = (n1, m1)" by fastforce
  then have n1: "n1 = n \<or> n1 = ClearTransaction n" by (auto split: if_splits prod.splits)
  then have ty: "GetRequestType n1 = GetRequestType n" "GetUserValue n1 = GetUserValue n"
    by (auto simp: flag_ops)
  have it: "iter \<Longrightarrow> GetRequestType n = kPutType" using assms(4) by (auto simp: skip_snaps_eq)
  have sv: "same_version (SetTRXNCommitted (n1\<lparr>ikey_seq := ULONG_MAX\<rparr>)) n" using n1 by auto
  show ?thesis
  proof (cases iter)
    case True
    obtain ks m2 where "merge_loop snaps' m1 ns = Inr (ks, m2)" "P ks" using assms(5) by blast
    then show ?thesis using True assms(1-4) it ty sv t by auto
  next
    case False
    show ?thesis
    proof (cases "GetRequestType n = kPutType")
      case True
      then obtain n2 where "InvalidateUserValue n1 = Inr (n2, [GetUserValue n1])"
        using InvalidateUserValue_ok[of n1] assms(3) ty by auto
      then show ?thesis using False True assms ty t
          assms(5)[of "m1\<lparr>mo_freed := mo_freed m1 @ [GetUserValue n1]\<rparr>"] by auto
    next
      case False
      then show ?thesis using \<open>\<not> iter\<close> assms ty t assms(5)[of m1] by auto
    qed
  qed
qed

definition keeps_reads :: "SequenceNumber list \<Rightarrow> ColumnNode list \<Rightarrow> ColumnNode list \<Rightarrow> bool" where
  "keeps_reads snaps ns kept =
     ((\<forall>s \<in> set snaps. value_at kept s = value_at ns s) \<and> (\<forall>b. chain_ok b ns \<longrightarrow> chain_ok b kept)
      \<and> set (map cn_addr kept) \<subseteq> set (map cn_addr ns) \<and> (distinct (map cn_addr ns) \<longrightarrow> distinct (map cn_addr kept)))"

lemma sorted_snaps:
  assumes "sorted_wrt (\<ge>) snaps" "s \<in> set (dropWhile (\<lambda>s. b \<le> s) snaps)"
  shows "s < (b :: SequenceNumber)"
  using assms by (induction snaps) (force split: if_splits)+

lemma snaps_split: "s \<in> set snaps \<Longrightarrow> s \<in> set (takeWhile P snaps) \<or> s \<in> set (dropWhile P snaps)"
  by (metis UnE set_append takeWhile_dropWhile_id)

lemma value_at_Cons:
  "value_at (n # ns) s = (if version_matches s n then (if GetRequestType n = kPutType then Some (cn_addr n) else None)
     else value_at ns s)"
  by (cases "GetRequestType n") (simp_all add: value_at_def answer_at_Cons answer_of_def)

lemma value_at_older: "chain_ok b ns \<Longrightarrow> b \<le> s \<Longrightarrow> b < ULONG_MAX \<Longrightarrow> value_at ns s = None"
  using no_older_value[of b ns s] by (auto simp: value_at_def split: answer.split)

lemma keeps_reads_drop:
  assumes "keeps_reads (dropWhile (\<lambda>s. begin_seq n \<le> s) snaps) ns kept"
    and "chain_ok b (n # ns)" "b < ULONG_MAX" "sorted_wrt (\<ge>) snaps" "\<forall>s \<in> set snaps. s < b"
    and "\<forall>s \<in> set (takeWhile (\<lambda>s. begin_seq n \<le> s) snaps). \<not> (s < end_seq n \<and> GetRequestType n = kPutType)"
  shows "keeps_reads snaps (n # ns) kept"
proof -
  have o: "older_than b n" "chain_ok (begin_seq n) ns" using assms(2) by auto
  have c: "chain_ok b' kept" if "chain_ok b' (n # ns)" for b'
    using assms(1) that chain_ok_mono[of "begin_seq n" kept b'] by (auto simp: keeps_reads_def older_than_def)
  have bm: "begin_seq n < ULONG_MAX" using o(1) assms(3) by (auto simp: older_than_def)
  have "value_at kept s = value_at (n # ns) s" if "s \<in> set snaps" for s
  proof (cases "begin_seq n \<le> s")
    case False
    then have "s \<in> set (dropWhile (\<lambda>s. begin_seq n \<le> s) snaps)"
      using snaps_split[OF that] by (blast dest: set_takeWhileD)
    then show ?thesis using assms(1) False by (auto simp: keeps_reads_def value_at_Cons version_matches_def)
  next
    case True
    have "s \<in> set (takeWhile (\<lambda>s. begin_seq n \<le> s) snaps)"
      using snaps_split[OF that] sorted_snaps[OF assms(4), of s "begin_seq n"] True by (meson leD)
    then have "\<not> (s < end_seq n \<and> GetRequestType n = kPutType)" using assms(6) by blast
    moreover have "s < ULONG_MAX" using assms(3,5) that by force
    ultimately have "value_at (n # ns) s = None"
      using matches_put[OF o(1)] value_at_older[OF o(2) True bm] by (auto simp: value_at_Cons)
    moreover have "value_at kept s = None"
      using assms(1) o(2) value_at_older[OF _ True bm] by (auto simp: keeps_reads_def)
    ultimately show ?thesis by simp
  qed
  then show ?thesis using c assms(1) by (auto simp: keeps_reads_def)
qed

lemma keeps_reads_keep:
  assumes "keeps_reads (dropWhile (\<lambda>s. begin_seq n \<le> s) snaps) ns kept" "same_version n' n"
    and "chain_ok b (n # ns)" "b < ULONG_MAX" "sorted_wrt (\<ge>) snaps"
  shows "keeps_reads snaps (n # ns) (n' # kept)"
proof -
  note v = same_version_cong[OF assms(2)]
  have o: "older_than b n" "chain_ok (begin_seq n) ns" using assms(3) by auto
  have bm: "begin_seq n < ULONG_MAX" using o(1) assms(4) by (auto simp: older_than_def)
  have t: "GetRequestType n' = GetRequestType n" using assms(2) by (simp add: same_version_def)
  have "value_at (n' # kept) s = value_at (n # ns) s" if "s \<in> set snaps" for s
  proof (cases "begin_seq n \<le> s")
    case False
    then have "s \<in> set (dropWhile (\<lambda>s. begin_seq n \<le> s) snaps)"
      using snaps_split[OF that] by (blast dest: set_takeWhileD)
    then show ?thesis using assms(1) t v by (auto simp: keeps_reads_def value_at_Cons)
  next
    case True
    have "value_at kept s = None" "value_at ns s = None"
      using assms(1) o(2) value_at_older[OF _ True bm] by (auto simp: keeps_reads_def)
    then show ?thesis using t v by (simp add: value_at_Cons)
  qed
  then show ?thesis using assms(1) v by (auto simp: keeps_reads_def)
qed

lemma keeps_reads_same:
  assumes "same_version n' n"
  shows "keeps_reads snaps (n # ns) (n' # ns)"
proof -
  note v = same_version_cong[OF assms]
  have t: "GetRequestType n' = GetRequestType n" using assms by (simp add: same_version_def)
  have "value_at (n' # ns) s = value_at (n # ns) s" for s by (simp add: value_at_Cons v t)
  then show ?thesis by (simp add: keeps_reads_def v)
qed

lemma merge_loop_ok:
  assumes "chain_ok b ns" "b < ULONG_MAX" "sorted_wrt (\<ge>) snaps" "\<forall>s \<in> set snaps. s < b" "merge_ready ns"
  shows "\<exists>kept m'. merge_loop snaps m ns = Inr (kept, m') \<and> keeps_reads snaps ns kept"
  using assms
proof (induction ns arbitrary: b snaps m)
  case Nil
  then show ?case by (simp add: keeps_reads_def)
next
  case (Cons n ns)
  show ?case
  proof (cases "ikey_seq n \<noteq> 0 \<or> IsTGIDSplit n")
    case True
    then show ?thesis by (simp add: keeps_reads_same)
  next
    case False
    let ?snaps = "dropWhile (\<lambda>s. begin_seq n \<le> s) snaps"
    obtain iter where i: "skip_snaps n snaps False = (iter, ?snaps)" by (simp add: skip_snaps_eq)
    have o: "older_than b n" "chain_ok (begin_seq n) ns" using Cons.prems(1) by auto
    have bm: "begin_seq n < ULONG_MAX" using o(1) Cons.prems(2) by (auto simp: older_than_def)
    have IH: "\<exists>kept m'. merge_loop ?snaps m ns = Inr (kept, m') \<and> keeps_reads ?snaps ns kept" for m
      using Cons.prems(3,5) o(2) bm
      by (intro Cons.IH[of "begin_seq n"])
         (auto simp: merge_ready_def intro: sorted_wrt_dropWhile sorted_snaps[OF Cons.prems(3)])
    obtain kept m' where k: "merge_loop snaps m (n # ns) = Inr (kept, m')"
      "if iter then \<exists>n' ks. kept = n' # ks \<and> same_version n' n \<and> keeps_reads ?snaps ns ks
       else keeps_reads ?snaps ns kept"
      using merge_loop_step[OF _ _ _ i IH, of m] False Cons.prems(5) by (auto simp: merge_ready_def)
    have "keeps_reads snaps (n # ns) kept"
    proof (cases iter)
      case True
      then show ?thesis using k(2) keeps_reads_keep[OF _ _ Cons.prems(1-3)] by auto
    next
      case iter: False
      then have "\<forall>s \<in> set (takeWhile (\<lambda>s. begin_seq n \<le> s) snaps). \<not> (s < end_seq n \<and> GetRequestType n = kPutType)"
        using i by (auto simp: skip_snaps_eq)
      then show ?thesis using k(2) iter keeps_reads_drop[OF _ Cons.prems(1-4)] by auto
    qed
    then show ?thesis using k(1) by blast
  qed
qed

lemma DoVerticalMerge_ok:
  assumes "col_list c = newer @ head # older" "distinct (map cn_addr (col_list c))"
    and "rn_latest_col_node req = cn_addr head" "ikey_seq head = worker_id"
    and "chain_ok (begin_seq head) older" "begin_seq head < ULONG_MAX" "merge_ready older"
    and "sorted_wrt (\<ge>) snaps"
  shows "\<exists>trxn m kept head' c'. DoVerticalMerge req worker_id snaps c = Inr (trxn, m, c')
    \<and> col_list c' = newer @ head' # kept \<and> same_version head' head \<and> latest_col_node c' = latest_col_node c
    \<and> keeps_reads (dropWhile (\<lambda>s. begin_seq head \<le> s) snaps) older kept"
proof -
  have "cn_addr head \<notin> cn_addr ` set newer" using assms(1,2) by simp
  then have nh: "\<forall>n \<in> set newer. cn_addr n \<noteq> cn_addr head" by (metis imageI)
  then have l: "find (\<lambda>n. cn_addr n = cn_addr head) (col_list c) = Some head"
    "takeWhile (\<lambda>n. cn_addr n \<noteq> cn_addr head) (col_list c) = newer"
    "dropWhile (\<lambda>n. cn_addr n \<noteq> cn_addr head) (col_list c) = head # older"
    unfolding assms(1) by (induction newer) auto
  let ?snaps = "dropWhile (\<lambda>s. begin_seq head \<le> s) snaps"
  obtain head' trxn req' where t: "(if IsTransaction head
      then (let (t, r) = GetTrxn req in (ClearTransaction head, t, r\<lparr>rn_tgid_for_dec := tgid_of (t_id t)\<rparr>))
      else (head, Transaction_init, req)) = (head', trxn, req')" by (rule prod_cases3)
  then have "head' = head \<or> head' = ClearTransaction head" by (auto split: if_splits prod.splits)
  then have sv: "same_version head' head" by (auto simp: same_version_def flag_ops)
  let ?m = "\<lparr>mo_req = req', mo_merged = [], mo_dec = [], mo_smallest = t_id trxn, mo_freed = []\<rparr>"
  have "\<exists>kept m'. merge_loop ?snaps ?m older = Inr (kept, m') \<and> keeps_reads ?snaps older kept"
    using assms by (intro merge_loop_ok[of "begin_seq head"]) (auto intro: sorted_wrt_dropWhile sorted_snaps)
  then obtain kept m' where "merge_loop ?snaps ?m older = Inr (kept, m')" "keeps_reads ?snaps older kept" by blast
  then show ?thesis using l assms(3,4) sv t
    by (intro exI[of _ trxn] exI[of _ m'] exI[of _ kept] exI[of _ head']
          exI[of _ "c\<lparr>col_list := newer @ head' # kept\<rparr>"]) (simp add: DoVerticalMerge_def deref_def)
qed

lemma value_at_append:
  "value_at (xs @ ys) s = (if \<exists>n \<in> set xs. version_matches s n then value_at xs s else value_at ys s)"
  by (simp add: value_at_def answer_at_append)

lemma merge_reads:
  assumes "keeps_reads (dropWhile (\<lambda>s. begin_seq head \<le> s) snaps) older kept" "same_version head' head"
    and "chain_ok (begin_seq head) older" "begin_seq head < ULONG_MAX" "sorted_wrt (\<ge>) snaps"
    and "s \<in> set snaps \<or> begin_seq head \<le> s"
  shows "value_at (newer @ head' # kept) s = value_at (newer @ head # older) s"
proof -
  note v = same_version_cong[OF assms(2)]
  have t: "GetRequestType head' = GetRequestType head" using assms(2) by (simp add: same_version_def)
  have "value_at kept s = value_at older s"
  proof (cases "begin_seq head \<le> s")
    case True
    then show ?thesis using value_at_older[OF _ True assms(4)] assms(1,3) by (auto simp: keeps_reads_def)
  next
    case False
    then have "s \<in> set (dropWhile (\<lambda>s. begin_seq head \<le> s) snaps)"
      using assms(6) snaps_split[of s snaps] by (blast dest: set_takeWhileD)
    then show ?thesis using assms(1) by (simp add: keeps_reads_def)
  qed
  then show ?thesis by (simp add: value_at_append value_at_Cons v t)
qed

lemma new_node_type: "GetRequestType (UpdateSequenceNumber q (ColumnNode_new a t ttl)) = t"
  by (cases t) (simp_all add: GetRequestType_def UpdateSequenceNumber_def ColumnNode_new_def RequestType_bits_def flag_defs)

lemma new_node_fields [simp]:
  "begin_seq (UpdateSequenceNumber q (ColumnNode_new a t ttl)) = q"
  "end_seq (UpdateSequenceNumber q (ColumnNode_new a t ttl)) = ULONG_MAX"
  "cn_addr (UpdateSequenceNumber q (ColumnNode_new a t ttl)) = a"
  "ikey_seq (UpdateSequenceNumber q (ColumnNode_new a t ttl)) = 0"
  by (simp_all add: UpdateSequenceNumber_def ColumnNode_new_def)

section \<open>Properties\<close>


definition merge_demo_old :: ColumnNode where
  "merge_demo_old = (UpdateSequenceNumber 5 (ColumnNode_new 16 kDelType 0))\<lparr>end_seq := 9\<rparr>"

definition merge_demo_head :: ColumnNode where
  "merge_demo_head = (UpdateSequenceNumber 9 (ColumnNode_new 32 kPutType 0))\<lparr>ikey_seq := 3\<rparr>"

definition merge_demo_column :: ColumnData where
  "merge_demo_column = \<lparr>col_list = [merge_demo_head, merge_demo_old], latest_col_node = 32, last_tgid = 0\<rparr>"


text \<open>
  C29: cleaning a key pops its version but leaves \<open>latest_col_node_\<close>, and
  \<open>InitUserKey\<close> does not reset it either: when the allocator hands the object out
  for another key, a lookup before the first write follows a pointer to a
  freed node.
\<close>

theorem recycled_key_dangles:
  assumes "uk_cols u = c # cs" "col_list c = [n]" "latest_col_node c = cn_addr n" "cn_addr n \<noteq> 0"
    and "UserKeyCleanup u = Inr (active, freed, kbms, u')"
  shows "GetColumnNode cur_time s ttl (hd (uk_cols (InitUserKey key u'))) = Inl Out_of_bounds"
proof -
  obtain cs' where "uk_cols u' = c\<lparr>col_list := []\<rparr> # cs'"
    using assms(1,2,5) by (auto simp: UserKeyCleanup_def Let_def bind_run_Inr_iff)
  then show ?thesis using assms(3,4) by (simp add: InitUserKey_def GetColumnNode_def deref_def)
qed

definition recycled_demo :: UserKey where
  "recycled_demo = \<lparr>uk_key = [1], uk_key_buffer_size = 8, uk_flags = 0, uk_ref_cnt = 0,
     uk_cols = [\<lparr>col_list = [merge_demo_old], latest_col_node = 16, last_tgid = 0\<rparr>]\<rparr>"

theorem recycled_key_dangles_witness:
  "\<exists>u'. UserKeyCleanup recycled_demo = Inr (True, [], [], u')
    \<and> GetColumnNode 0 7 0 (hd (uk_cols (InitUserKey [2] u'))) = Inl Out_of_bounds"
proof -
  have "GetUserValue merge_demo_old = 0" "HasUserValue merge_demo_old = False" "GetKeyBlockMeta merge_demo_old = 0"
    "cn_addr merge_demo_old = 16"
    by (simp_all add: merge_demo_old_def UpdateSequenceNumber_def ColumnNode_new_def GetUserValue_def
        HasUserValue_def GetKeyBlockMeta_def)
  then obtain u' where "UserKeyCleanup recycled_demo = Inr (True, [], [], u')"
    by (simp add: UserKeyCleanup_def recycled_demo_def IsDirty_def InvalidateUserValue_def flags_userkey_dirty_def)
  moreover from this have "GetColumnNode 0 7 0 (hd (uk_cols (InitUserKey [2] u'))) = Inl Out_of_bounds"
    using \<open>cn_addr merge_demo_old = 16\<close>
    by (intro recycled_key_dangles[of recycled_demo _ "[]" merge_demo_old]) (auto simp: recycled_demo_def)
  ultimately show ?thesis by blast
qed

end
