(* ===== verification/TrxnGroups.thy ===== *)
theory TrxnGroups
  imports UserKeys
begin

text \<open>
  Transaction groups of \<^verbatim>\<open>db/manifest.cc\<close>: identifiers are handed out in groups
  of 32, the requests of a group are counted down as they reach the device, and
  a group whose count is zero is recorded in a list of completed ranges that the
  worker logs persist and recovery consults.
\<close>

record TrxnGroupRange =
  rg_start :: TrxnGroupID
  rg_end :: TrxnGroupID

definition TrxnGroupRange_one :: "TrxnGroupID \<Rightarrow> TrxnGroupRange" where
  "TrxnGroupRange_one tgid = \<lparr>rg_start = tgid, rg_end = tgid\<rparr>"

fun IsCompletedTrxnGroupRange :: "TrxnGroupRange list \<Rightarrow> TrxnGroupID \<Rightarrow> bool" where
  "IsCompletedTrxnGroupRange [] tgid = False"
| "IsCompletedTrxnGroupRange (r # rs) tgid =
     (if rg_start r \<le> tgid \<and> tgid \<le> rg_end r then True else IsCompletedTrxnGroupRange rs tgid)"

text \<open>The second test of the last branch dereferences the next element, which is a fault at the end of the list.\<close>

fun AddCompletedTrxnGroupRange :: "TrxnGroupID \<Rightarrow> TrxnGroupRange list \<Rightarrow> TrxnGroupRange list run" where
  "AddCompletedTrxnGroupRange tgid [] = Inr []"
| "AddCompletedTrxnGroupRange tgid (r # rs) =
     (if tgid = rg_start r - 1 then Inr (r\<lparr>rg_start := tgid\<rparr> # rs)
      else if tgid < rg_start r then Inr (TrxnGroupRange_one tgid # r # rs)
      else if rg_end r + 1 = tgid then
        (case rs of
           [] \<Rightarrow> Inl Out_of_bounds
         | r2 # rs2 \<Rightarrow>
             if tgid = rg_start r2 - 1 then Inr (r\<lparr>rg_end := rg_end r2\<rparr> # rs2)
             else Inr (r\<lparr>rg_end := tgid\<rparr> # rs))
      else bind_run (AddCompletedTrxnGroupRange tgid rs) (\<lambda>rs'. Inr (r # rs')))"

definition CopyCompletedTrxnGroupRange :: "TrxnGroupRange list \<Rightarrow> TrxnGroupRange list \<Rightarrow> TrxnGroupRange list" where
  "CopyCompletedTrxnGroupRange completed out = out @ completed"

record TrxnState =
  next_trxn_id :: TransactionID
  uncompleted_trxn_group :: "TrxnGroupID \<rightharpoonup> u32"
  completed_trxn_group_list :: "TrxnGroupRange list"

definition TrxnState_init :: TrxnState where
  "TrxnState_init =
     \<lparr>next_trxn_id = push_bit TGID_SHIFT 1, uncompleted_trxn_group = Map.empty,
      completed_trxn_group_list = [TrxnGroupRange_one 0, TrxnGroupRange_one 0xFFFFFFFF]\<rparr>"

definition IsTrxnGroupCompleted :: "TrxnGroupID \<Rightarrow> TrxnState \<Rightarrow> bool" where
  "IsTrxnGroupCompleted tgid st = (uncompleted_trxn_group st tgid = None)"

definition GetTrxnID :: "u32 \<Rightarrow> TrxnState \<Rightarrow> TransactionID \<times> TrxnState" where
  "GetTrxnID cnt st =
     (let trxn_id = next_trxn_id st;
          nxt = (if cnt > 4096 then push_bit TGID_SHIFT (drop_bit TGID_SHIFT trxn_id + 1) else trxn_id + 1);
          total = (case uncompleted_trxn_group st (tgid_of trxn_id) of None \<Rightarrow> cnt | Some n \<Rightarrow> n + cnt)
      in (trxn_id, st\<lparr>next_trxn_id := nxt,
            uncompleted_trxn_group := (uncompleted_trxn_group st)(tgid_of trxn_id \<mapsto> total)\<rparr>))"

text \<open>
  The build without \<open>ENABLE_SANITYCHECK\<close>: an unknown group is ignored. The new
  transaction id is computed in the 32 bits of a group id.
\<close>

definition DecTrxnGroup :: "TrxnGroupID \<Rightarrow> u32 \<Rightarrow> TrxnState \<Rightarrow> TrxnState run" where
  "DecTrxnGroup tgid cnt st =
     (case uncompleted_trxn_group st tgid of
        None \<Rightarrow> Inr st
      | Some n \<Rightarrow>
          if n - cnt \<noteq> 0 then Inr (st\<lparr>uncompleted_trxn_group := (uncompleted_trxn_group st)(tgid \<mapsto> n - cnt)\<rparr>)
          else
            (let nxt = (if ucast tgid = drop_bit TGID_SHIFT (next_trxn_id st)
                        then ucast (push_bit TGID_SHIFT (tgid + 1)) else next_trxn_id st)
             in bind_run (AddCompletedTrxnGroupRange tgid (completed_trxn_group_list st)) (\<lambda>rs.
                  Inr (st\<lparr>next_trxn_id := nxt,
                          uncompleted_trxn_group := (uncompleted_trxn_group st)(tgid := None),
                          completed_trxn_group_list := rs\<rparr>))))"

section \<open>Ranges\<close>

definition GROUP_MAX :: TrxnGroupID where "GROUP_MAX = 0xFFFFFFFF"

text \<open>Ranges ordered, separated by at least one missing group, the last one reaching the largest id.\<close>

fun ranges_from :: "nat \<Rightarrow> TrxnGroupRange list \<Rightarrow> bool" where
  "ranges_from lo [] = False"
| "ranges_from lo (r # rs) =
     (lo \<le> unat (rg_start r) \<and> rg_start r \<le> rg_end r
      \<and> (if rs = [] then rg_end r = GROUP_MAX else ranges_from (unat (rg_end r) + 2) rs))"

lemma GROUP_MAX_unat: "unat g \<le> unat GROUP_MAX" for g :: TrxnGroupID
  using unat_less_exp[of g] by (simp add: GROUP_MAX_def)

lemma group_Suc: "g \<noteq> GROUP_MAX \<Longrightarrow> unat (g + 1) = unat g + 1" for g :: TrxnGroupID
proof -
  assume "g \<noteq> GROUP_MAX"
  moreover have "(- 1 :: TrxnGroupID) = GROUP_MAX" by (simp add: GROUP_MAX_def)
  ultimately have "1 + g \<noteq> 0" using max_word_wrap[of g] by (metis add.commute)
  then show ?thesis using unatSuc[of g] by (simp add: add.commute)
qed

lemma pred_group: "g \<noteq> GROUP_MAX \<Longrightarrow> g = w - 1 \<longleftrightarrow> unat g + 1 = unat w" for g w :: TrxnGroupID
  using group_Suc[of g] by (metis eq_diff_eq word_unat_eq_iff)

lemma succ_group: "e < g \<Longrightarrow> e + 1 = g \<longleftrightarrow> unat e + 1 = unat g" for g e :: TrxnGroupID
  using group_Suc[of e] GROUP_MAX_unat[of g] by (metis leD word_unat_eq_iff word_less_nat_alt)

lemma ranges_cover_max: "ranges_from lo rs \<Longrightarrow> IsCompletedTrxnGroupRange rs GROUP_MAX"
  using GROUP_MAX_unat by (induction lo rs rule: ranges_from.induct) (auto simp: word_le_nat_alt split: if_splits)

lemma ranges_from_low: "ranges_from lo rs \<Longrightarrow> IsCompletedTrxnGroupRange rs g \<Longrightarrow> lo \<le> unat g"
  by (induction lo rs rule: ranges_from.induct) (auto simp: word_le_nat_alt split: if_splits)

lemma AddCompletedTrxnGroupRange_ok:
  assumes "ranges_from lo rs" "lo \<le> unat g" "\<not> IsCompletedTrxnGroupRange rs g"
  shows "\<exists>rs'. AddCompletedTrxnGroupRange g rs = Inr rs' \<and> ranges_from lo rs'
    \<and> (\<forall>h. IsCompletedTrxnGroupRange rs' h \<longleftrightarrow> h = g \<or> IsCompletedTrxnGroupRange rs h)"
  using assms
proof (induction rs arbitrary: lo)
  case (Cons r rs)
  have gm: "g \<noteq> GROUP_MAX" using ranges_cover_max[OF Cons.prems(1)] Cons.prems(3) by auto
  have r: "lo \<le> unat (rg_start r)" "rg_start r \<le> rg_end r" using Cons.prems(1) by auto
  consider "unat g + 1 = unat (rg_start r)" | "unat g + 1 < unat (rg_start r)" | "rg_end r < g"
    using Cons.prems(3) by (auto simp: word_le_nat_alt word_less_nat_alt split: if_splits) (metis Suc_lessI not_less)
  then show ?case
  proof cases
    case 1
    then show ?thesis using Cons.prems r
      by (auto simp: pred_group[OF gm] word_le_nat_alt split: if_splits) (auto simp: word_unat_eq_iff)
  next
    case 2
    then show ?thesis using Cons.prems r
      by (auto simp: pred_group[OF gm] TrxnGroupRange_one_def word_le_nat_alt word_less_nat_alt)
         (simp_all add: word_unat_eq_iff)
  next
    case 3
    then have n: "\<not> unat g + 1 = unat (rg_start r)" "\<not> g < rg_start r" "rg_end r \<noteq> GROUP_MAX"
      using r(2) GROUP_MAX_unat[of g] by (auto simp: word_le_nat_alt word_less_nat_alt)
    then have rs: "rs \<noteq> []" "ranges_from (unat (rg_end r) + 2) rs" "\<not> IsCompletedTrxnGroupRange rs g"
      using Cons.prems by (auto split: if_splits)
    show ?thesis
    proof (cases "rg_end r + 1 = g")
      case True
      then have e: "unat g = unat (rg_end r) + 1" using succ_group[OF 3] by simp
      obtain r2 rs2 where r2: "rs = r2 # rs2" using rs(1) by (cases rs) auto
      have s2: "unat (rg_end r) + 2 \<le> unat (rg_start r2)" "rg_start r2 \<le> rg_end r2" using rs(2) r2 by auto
      have add: "AddCompletedTrxnGroupRange g (r # rs) = Inr
        (if unat g + 1 = unat (rg_start r2) then r\<lparr>rg_end := rg_end r2\<rparr> # rs2 else r\<lparr>rg_end := g\<rparr> # rs)"
        using True n(1,2) pred_group[OF gm] r2 by auto
      show ?thesis
      proof (cases "unat g + 1 = unat (rg_start r2)")
        case True
        then show ?thesis using add rs(2) r s2 e
          by (auto simp: r2 word_le_nat_alt split: if_splits) (simp_all add: word_unat_eq_iff)
      next
        case False
        then show ?thesis using add rs(2) r s2 e
          by (auto simp: r2 word_le_nat_alt split: if_splits) (simp_all add: word_unat_eq_iff)
      qed
    next
      case False
      then have "unat (rg_end r) + 2 \<le> unat g" using succ_group[OF 3] 3 by (auto simp: word_less_nat_alt)
      then obtain rs' where rs': "AddCompletedTrxnGroupRange g rs = Inr rs'" "ranges_from (unat (rg_end r) + 2) rs'"
        "\<forall>h. IsCompletedTrxnGroupRange rs' h \<longleftrightarrow> h = g \<or> IsCompletedTrxnGroupRange rs h"
        using Cons.IH[OF rs(2) _ rs(3)] by blast
      have "rs' \<noteq> []" using rs'(2) by auto
      then show ?thesis using rs' False n r pred_group[OF gm] by (intro exI[of _ "r # rs'"]) simp
    qed
  qed
qed simp

section \<open>A set of completed groups\<close>

text \<open>
  What the clients of the completed list rely on: it is a set of group ids to
  which groups are added one at a time.
\<close>

fun add_all :: "('g \<Rightarrow> 's \<Rightarrow> 's run) \<Rightarrow> 'g list \<Rightarrow> 's \<Rightarrow> 's run" where
  "add_all add [] s = Inr s"
| "add_all add (g # gs) s = bind_run (add g s) (add_all add gs)"

locale group_set =
  fixes add :: "'g \<Rightarrow> 's \<Rightarrow> 's run" and isin :: "'s \<Rightarrow> 'g \<Rightarrow> bool" and inv :: "'s \<Rightarrow> bool"
  assumes add_ok: "inv s \<Longrightarrow> \<not> isin s g \<Longrightarrow>
    \<exists>s'. add g s = Inr s' \<and> inv s' \<and> (\<forall>h. isin s' h \<longleftrightarrow> h = g \<or> isin s h)"
begin

lemma add_all_set:
  assumes "inv s" "distinct gs" "\<forall>g \<in> set gs. \<not> isin s g"
  shows "\<exists>s'. add_all add gs s = Inr s' \<and> inv s' \<and> (\<forall>h. isin s' h \<longleftrightarrow> h \<in> set gs \<or> isin s h)"
  using assms
proof (induction gs arbitrary: s)
  case (Cons g gs)
  obtain s1 where s1: "add g s = Inr s1" "inv s1" "\<forall>h. isin s1 h \<longleftrightarrow> h = g \<or> isin s h"
    using add_ok[OF Cons.prems(1), of g] Cons.prems(3) by auto
  have "\<forall>h \<in> set gs. \<not> isin s1 h" using s1(3) Cons.prems(2,3) by auto
  then show ?case using Cons.IH[OF s1(2)] Cons.prems(2) s1 by auto
qed simp

end

interpretation ranges: group_set AddCompletedTrxnGroupRange IsCompletedTrxnGroupRange "ranges_from 0"
  by unfold_locales (auto intro!: AddCompletedTrxnGroupRange_ok)

section \<open>Group numbers\<close>

definition group_no :: "TransactionID \<Rightarrow> nat" where
  "group_no tid = unat tid div 32"

lemma unat_tgid_of: "group_no tid < 2 ^ 27 \<Longrightarrow> unat (tgid_of tid) = group_no tid"
  by (simp add: tgid_of_def group_no_def TGID_SHIFT_def unat_shiftr unsigned_ucast_eq take_bit_nat_eq_self)

lemma tgid_of_eq: "group_no tid < 2 ^ 27 \<Longrightarrow> ucast g = drop_bit TGID_SHIFT tid \<longleftrightarrow> g = tgid_of tid"
proof -
  assume "group_no tid < 2 ^ 27"
  then have "unat (drop_bit TGID_SHIFT tid) = unat (tgid_of tid)"
    using unat_tgid_of[of tid] by (simp add: group_no_def TGID_SHIFT_def unat_shiftr)
  moreover have "unat (ucast g :: u64) = unat g" by (simp add: unat_ucast_widen)
  ultimately show ?thesis by (simp add: word_unat_eq_iff)
qed

lemma next_group_64:
  "group_no tid + 1 < 2 ^ 27 \<Longrightarrow>
    unat (push_bit TGID_SHIFT (drop_bit TGID_SHIFT tid + 1)) = (group_no tid + 1) * 32"
proof -
  assume a: "group_no tid + 1 < 2 ^ 27"
  have d: "unat (drop_bit TGID_SHIFT tid) = group_no tid" by (simp add: group_no_def TGID_SHIFT_def unat_shiftr)
  then show ?thesis using a by (simp add: TGID_SHIFT_def push_bit_eq_mult unat_word_ariths)
qed

lemma next_group_32:
  "unat g + 1 < 2 ^ 27 \<Longrightarrow> unat (ucast (push_bit TGID_SHIFT (g + 1 :: TrxnGroupID)) :: u64) = (unat g + 1) * 32"
  by (simp add: unat_ucast_widen TGID_SHIFT_def push_bit_eq_mult unat_word_ariths)

section \<open>Outstanding requests\<close>

definition outstanding :: "TrxnState \<Rightarrow> TrxnGroupID \<Rightarrow> nat" where
  "outstanding st g = (case uncompleted_trxn_group st g of None \<Rightarrow> 0 | Some n \<Rightarrow> unat n)"

definition trxn_inv :: "TrxnState \<Rightarrow> bool" where
  "trxn_inv st =
     (ranges_from 0 (completed_trxn_group_list st)
      \<and> 0 < group_no (next_trxn_id st) \<and> group_no (next_trxn_id st) < 2 ^ 27
      \<and> (\<forall>g. IsCompletedTrxnGroupRange (completed_trxn_group_list st) g
            \<longleftrightarrow> g = GROUP_MAX \<or> unat g < group_no (next_trxn_id st) \<and> outstanding st g = 0)
      \<and> (\<forall>g n. uncompleted_trxn_group st g = Some n \<longrightarrow> n \<noteq> 0 \<and> unat g \<le> group_no (next_trxn_id st)))"

lemma trxn_inv_init: "trxn_inv TrxnState_init"
proof -
  have "IsCompletedTrxnGroupRange (completed_trxn_group_list TrxnState_init) g \<longleftrightarrow> g = GROUP_MAX \<or> g = 0" for g
    using GROUP_MAX_unat[of g]
    by (auto simp: TrxnState_init_def TrxnGroupRange_one_def GROUP_MAX_def word_le_nat_alt word_unat_eq_iff)
  then show ?thesis
    by (auto simp: trxn_inv_def group_no_def outstanding_def TrxnState_init_def TGID_SHIFT_def TrxnGroupRange_one_def
        GROUP_MAX_def word_unat_eq_iff)
qed

lemma GetTrxnID_ok:
  assumes "trxn_inv st" "cnt \<noteq> 0" "group_no (next_trxn_id st) + 1 < 2 ^ 27"
    and "outstanding st (tgid_of (next_trxn_id st)) + unat cnt < 2 ^ 32" "GetTrxnID cnt st = (tid, st')"
  shows "trxn_inv st'" "tid = next_trxn_id st"
    "outstanding st' = (outstanding st)(tgid_of tid := outstanding st (tgid_of tid) + unat cnt)"
    "completed_trxn_group_list st' = completed_trxn_group_list st"
    "group_no (next_trxn_id st') \<le> group_no (next_trxn_id st) + 1"
proof -
  let ?n = "next_trxn_id st"
  have t: "unat (tgid_of ?n) = group_no ?n" using assms(3) by (intro unat_tgid_of) simp
  show tid: "tid = ?n" and c: "completed_trxn_group_list st' = completed_trxn_group_list st"
    using assms(5) by (auto simp: GetTrxnID_def Let_def)
  have u: "uncompleted_trxn_group st' = (uncompleted_trxn_group st)(tgid_of ?n \<mapsto>
      (case uncompleted_trxn_group st (tgid_of ?n) of None \<Rightarrow> cnt | Some n \<Rightarrow> n + cnt))"
    and n: "next_trxn_id st' = (if cnt > 4096 then push_bit TGID_SHIFT (drop_bit TGID_SHIFT ?n + 1) else ?n + 1)"
    using assms(5) by (auto simp: GetTrxnID_def Let_def)
  show o: "outstanding st' = (outstanding st)(tgid_of tid := outstanding st (tgid_of tid) + unat cnt)"
    using assms(4) unfolding tid outstanding_def u
    by (auto simp: fun_eq_iff unat_word_ariths split: option.splits)
  have "unat (?n + 1) = unat ?n + 1" using assms(3) by (simp add: group_no_def unat_word_ariths)
  then have g: "group_no (next_trxn_id st') = group_no ?n \<or> group_no (next_trxn_id st') = group_no ?n + 1"
    using next_group_64[OF assms(3)] unfolding n group_no_def by auto
  then show "group_no (next_trxn_id st') \<le> group_no ?n + 1" by auto
  have "0 < outstanding st' (tgid_of ?n)" using assms(2) o tid by (simp add: unat_gt_0)
  then have "IsCompletedTrxnGroupRange (completed_trxn_group_list st') h
      \<longleftrightarrow> h = GROUP_MAX \<or> unat h < group_no (next_trxn_id st') \<and> outstanding st' h = 0" for h
    using assms(1) g t o tid unfolding trxn_inv_def c by (cases "h = tgid_of ?n") (auto simp: less_Suc_eq word_unat_eq_iff)
  moreover have "m \<noteq> 0 \<and> unat h \<le> group_no (next_trxn_id st')" if "uncompleted_trxn_group st' h = Some m" for h m
  proof (cases "h = tgid_of ?n")
    case True
    then show ?thesis using that g t \<open>0 < outstanding st' (tgid_of ?n)\<close> by (auto simp: outstanding_def)
  next
    case False
    then have "m \<noteq> 0 \<and> unat h \<le> group_no ?n" using that assms(1) u by (simp add: trxn_inv_def)
    then show ?thesis using g by auto
  qed
  ultimately show "trxn_inv st'" using assms(1,3) g unfolding trxn_inv_def c by auto
qed

lemma DecTrxnGroup_last:
  assumes "trxn_inv st" "uncompleted_trxn_group st g = Some n" "n - cnt = 0" "group_no (next_trxn_id st) + 1 < 2 ^ 27"
  shows "\<exists>st'. DecTrxnGroup g cnt st = Inr st' \<and> trxn_inv st' \<and> outstanding st' = (outstanding st)(g := 0)
    \<and> group_no (next_trxn_id st') \<le> group_no (next_trxn_id st) + 1"
proof -
  have i: "n \<noteq> 0" "unat g \<le> group_no (next_trxn_id st)" using assms(1,2) by (auto simp: trxn_inv_def)
  have gm: "g \<noteq> GROUP_MAX" using i(2) assms(4) by (auto simp: GROUP_MAX_def)
  then have nc: "\<not> IsCompletedTrxnGroupRange (completed_trxn_group_list st) g"
    using assms(1) assms(2) i(1) by (simp add: trxn_inv_def outstanding_def unat_eq_0)
  obtain rs where rs: "AddCompletedTrxnGroupRange g (completed_trxn_group_list st) = Inr rs" "ranges_from 0 rs"
    "\<forall>h. IsCompletedTrxnGroupRange rs h \<longleftrightarrow> h = g \<or> IsCompletedTrxnGroupRange (completed_trxn_group_list st) h"
    using ranges.add_ok[OF _ nc] assms(1) by (auto simp: trxn_inv_def)
  define nxt where "nxt = (if g = tgid_of (next_trxn_id st)
    then ucast (push_bit TGID_SHIFT (g + 1)) else next_trxn_id st)"
  define st1 where "st1 = st\<lparr>next_trxn_id := nxt, uncompleted_trxn_group := (uncompleted_trxn_group st)(g := None),
    completed_trxn_group_list := rs\<rparr>"
  have t: "unat (tgid_of (next_trxn_id st)) = group_no (next_trxn_id st)" using assms(4) by (intro unat_tgid_of) simp
  have gn: "group_no nxt = (if unat g = group_no (next_trxn_id st) then unat g + 1 else group_no (next_trxn_id st))"
    using next_group_32[of g] assms(4) i(2) t by (auto simp: nxt_def group_no_def word_unat_eq_iff)
  have o: "outstanding st1 = (outstanding st)(g := 0)" by (auto simp: outstanding_def st1_def fun_eq_iff)
  have "IsCompletedTrxnGroupRange rs h \<longleftrightarrow> h = GROUP_MAX \<or> unat h < group_no nxt \<and> outstanding st1 h = 0" for h
  proof (cases "h = g")
    case True
    then show ?thesis using rs(3) gn o i(2) by auto
  next
    case False
    have "IsCompletedTrxnGroupRange rs h \<longleftrightarrow> h = GROUP_MAX \<or> unat h < group_no (next_trxn_id st) \<and> outstanding st h = 0"
      using False rs(3) assms(1) by (simp add: trxn_inv_def)
    moreover have "unat h \<noteq> unat g" using False by (simp add: word_unat_eq_iff)
    ultimately show ?thesis using o False gn by auto
  qed
  moreover have "m \<noteq> 0 \<and> unat h \<le> group_no nxt" if "uncompleted_trxn_group st1 h = Some m" for h m
  proof -
    have "m \<noteq> 0 \<and> unat h \<le> group_no (next_trxn_id st)"
      using that assms(1) by (simp add: st1_def trxn_inv_def split: if_splits)
    then show ?thesis using gn by auto
  qed
  ultimately have "trxn_inv st1" using assms(1,4) gn rs(2) by (auto simp: trxn_inv_def st1_def)
  moreover have "DecTrxnGroup g cnt st = Inr st1"
    using assms(2,3) rs(1) tgid_of_eq[of "next_trxn_id st" g] assms(4)
    by (simp add: DecTrxnGroup_def st1_def nxt_def)
  moreover have "group_no (next_trxn_id st1) \<le> group_no (next_trxn_id st) + 1" using gn by (simp add: st1_def)
  ultimately show ?thesis using o by auto
qed

lemma DecTrxnGroup_ok:
  assumes "trxn_inv st" "unat cnt \<le> outstanding st g" "group_no (next_trxn_id st) + 1 < 2 ^ 27"
  shows "\<exists>st'. DecTrxnGroup g cnt st = Inr st' \<and> trxn_inv st'
    \<and> outstanding st' = (outstanding st)(g := outstanding st g - unat cnt)
    \<and> group_no (next_trxn_id st') \<le> group_no (next_trxn_id st) + 1"
proof (cases "uncompleted_trxn_group st g")
  case None
  then show ?thesis using assms by (auto simp: DecTrxnGroup_def outstanding_def fun_eq_iff)
next
  case (Some n)
  have n: "unat (n - cnt) = unat n - unat cnt" using assms(2) Some
    by (simp add: outstanding_def unat_sub word_le_nat_alt)
  have i: "n \<noteq> 0" "unat g \<le> group_no (next_trxn_id st)" using assms(1) Some by (auto simp: trxn_inv_def)
  show ?thesis
  proof (cases "n - cnt = 0")
    case False
    let ?st = "st\<lparr>uncompleted_trxn_group := (uncompleted_trxn_group st)(g \<mapsto> n - cnt)\<rparr>"
    have o: "outstanding ?st = (outstanding st)(g := outstanding st g - unat cnt)"
      using Some n by (auto simp: outstanding_def fun_eq_iff)
    have "outstanding ?st h = 0 \<longleftrightarrow> outstanding st h = 0" for h
      using o False n i(1) Some by (auto simp: outstanding_def unat_eq_0)
    then have "trxn_inv ?st" using assms(1) False i(2) unfolding trxn_inv_def by auto
    then show ?thesis using Some False o by (simp add: DecTrxnGroup_def)
  next
    case True
    then have "outstanding st g - unat cnt = 0" using Some n by (simp add: outstanding_def)
    then show ?thesis using DecTrxnGroup_last[OF assms(1) Some True assms(3)] by simp
  qed
qed

text \<open>
  The states the manifest can reach, with the number of requests of each group
  that were counted in by \<open>GetTrxnID\<close> and not yet counted out by \<open>DecTrxnGroup\<close>.
  A request is counted out at most once; the group number stays below the
  bound of 27 bits and the counter of a group below 32 bits.
\<close>

inductive trxn_reach :: "TrxnState \<Rightarrow> (TrxnGroupID \<Rightarrow> nat) \<Rightarrow> bool" where
  reach_init: "trxn_reach TrxnState_init (\<lambda>_. 0)"
| reach_get: "trxn_reach st out \<Longrightarrow> cnt \<noteq> 0 \<Longrightarrow> group_no (next_trxn_id st) + 1 < 2 ^ 27 \<Longrightarrow>
    out (tgid_of (next_trxn_id st)) + unat cnt < 2 ^ 32 \<Longrightarrow> GetTrxnID cnt st = (tid, st') \<Longrightarrow>
    trxn_reach st' (out(tgid_of tid := out (tgid_of tid) + unat cnt))"
| reach_dec: "trxn_reach st out \<Longrightarrow> unat cnt \<le> out g \<Longrightarrow> group_no (next_trxn_id st) + 1 < 2 ^ 27 \<Longrightarrow>
    DecTrxnGroup g cnt st = Inr st' \<Longrightarrow> trxn_reach st' (out(g := out g - unat cnt))"

lemma trxn_reach_inv: "trxn_reach st out \<Longrightarrow> trxn_inv st \<and> out = outstanding st"
proof (induction rule: trxn_reach.induct)
  case reach_init
  then show ?case by (simp add: trxn_inv_init) (simp add: outstanding_def TrxnState_init_def fun_eq_iff)
next
  case (reach_get st out cnt tid st')
  then show ?case using GetTrxnID_ok[of st cnt tid st'] by auto
next
  case (reach_dec st out cnt g st')
  then show ?case using DecTrxnGroup_ok[of st cnt g] by auto
qed

section \<open>Properties\<close>

text \<open>
  C5: the completed list is exactly the set of finished groups. In every
  reachable state a group is missing from the uncompleted table iff none of its
  requests is outstanding; the ranges contain a group iff it is the sentinel or
  it was handed out before the current group and has no outstanding request; a
  transaction id is never handed out in a group already recorded as completed;
  and counting out outstanding requests never faults.
\<close>

theorem trxn_groups_correct:
  assumes "trxn_reach st out"
  shows "(IsTrxnGroupCompleted g st \<longleftrightarrow> out g = 0)
    \<and> (IsCompletedTrxnGroupRange (completed_trxn_group_list st) g
        \<longleftrightarrow> g = GROUP_MAX \<or> unat g < group_no (next_trxn_id st) \<and> out g = 0)
    \<and> \<not> IsCompletedTrxnGroupRange (completed_trxn_group_list st) (tgid_of (fst (GetTrxnID cnt st)))
    \<and> (unat cnt \<le> out g \<and> group_no (next_trxn_id st) + 1 < 2 ^ 27 \<longrightarrow> (\<exists>st'. DecTrxnGroup g cnt st = Inr st'))"
proof -
  note i = trxn_reach_inv[OF assms]
  have o: "out = outstanding st" using i by simp
  have "IsTrxnGroupCompleted g st \<longleftrightarrow> out g = 0"
    using i by (auto simp: IsTrxnGroupCompleted_def o outstanding_def trxn_inv_def unat_eq_0 split: option.split)
  moreover have c: "IsCompletedTrxnGroupRange (completed_trxn_group_list st) g
      \<longleftrightarrow> g = GROUP_MAX \<or> unat g < group_no (next_trxn_id st) \<and> out g = 0" for g
    using i by (simp add: trxn_inv_def)
  moreover have "unat (tgid_of (next_trxn_id st)) = group_no (next_trxn_id st)" "group_no (next_trxn_id st) < 2 ^ 27"
    using i unat_tgid_of by (auto simp: trxn_inv_def)
  then have "\<not> IsCompletedTrxnGroupRange (completed_trxn_group_list st) (tgid_of (fst (GetTrxnID cnt st)))"
    by (auto simp: c GetTrxnID_def Let_def GROUP_MAX_def)
  moreover have "\<exists>st'. DecTrxnGroup g cnt st = Inr st'"
    if "unat cnt \<le> out g" "group_no (next_trxn_id st) + 1 < 2 ^ 27"
    using DecTrxnGroup_ok[of st cnt g] i that by auto
  ultimately show ?thesis by blast
qed

lemma trxn_reach_demo:
  "\<exists>st. trxn_reach st ((\<lambda>_. 0)(1 := 3)) \<and> completed_trxn_group_list st = completed_trxn_group_list TrxnState_init
    \<and> group_no (next_trxn_id st) = 1"
proof -
  obtain tid st where g: "GetTrxnID 3 TrxnState_init = (tid, st)" by fastforce
  have n: "tid = 32" "tgid_of 32 = 1" "next_trxn_id st = 33"
    "completed_trxn_group_list st = completed_trxn_group_list TrxnState_init"
    using g by (auto simp: GetTrxnID_def TrxnState_init_def TGID_SHIFT_def Let_def tgid_of_def)
  have "trxn_reach st ((\<lambda>_. 0)(tgid_of tid := 0 + unat (3 :: u32)))"
    by (rule reach_get[OF reach_init _ _ _ g]) (simp_all add: TrxnState_init_def TGID_SHIFT_def group_no_def)
  then show ?thesis using n by (intro exI[of _ st]) (simp add: group_no_def)
qed

theorem trxn_groups_correct_witness:
  "\<exists>st. \<not> IsTrxnGroupCompleted 1 st \<and> IsTrxnGroupCompleted 2 st
    \<and> IsCompletedTrxnGroupRange (completed_trxn_group_list st) 0 \<and> (\<exists>st'. DecTrxnGroup 1 3 st = Inr st')"
proof -
  obtain st where st: "trxn_reach st ((\<lambda>_. 0)(1 := 3))" "group_no (next_trxn_id st) = 1" using trxn_reach_demo by blast
  show ?thesis
    using trxn_groups_correct[OF st(1), of 1 3] trxn_groups_correct[OF st(1), of 2] trxn_groups_correct[OF st(1), of 0] st(2)
    by (intro exI[of _ st]) simp
qed

text \<open>Whatever the order in which groups finish, the list of ranges ends up
  describing the same set: adding distinct groups that are not yet recorded
  succeeds and records exactly these groups.
\<close>

theorem completed_ranges_set:
  assumes "ranges_from 0 rs" "distinct gs" "\<forall>g \<in> set gs. \<not> IsCompletedTrxnGroupRange rs g"
  shows "\<exists>rs'. add_all AddCompletedTrxnGroupRange gs rs = Inr rs' \<and> ranges_from 0 rs'
    \<and> (\<forall>h. IsCompletedTrxnGroupRange rs' h \<longleftrightarrow> h \<in> set gs \<or> IsCompletedTrxnGroupRange rs h)"
  using assms by (rule ranges.add_all_set)

theorem completed_ranges_set_witness:
  "\<exists>rs'. add_all AddCompletedTrxnGroupRange [3, 1, 2] (completed_trxn_group_list TrxnState_init) = Inr rs'
    \<and> IsCompletedTrxnGroupRange rs' 2 \<and> \<not> IsCompletedTrxnGroupRange rs' 4"
  using completed_ranges_set[of "completed_trxn_group_list TrxnState_init" "[3, 1, 2]"]
  by (auto simp: TrxnState_init_def TrxnGroupRange_one_def GROUP_MAX_def)

text \<open>
  C30: the room of 37 bits announced for transaction ids is not there. When the
  current group is number \<^term>\<open>2 ^ 27 - 1 :: nat\<close> and its last request is counted out, the next id is
  computed in 32 bits and becomes 0, the id reserved for requests outside any
  transaction.
\<close>

theorem trxn_id_wraps:
  assumes "uncompleted_trxn_group st 0x7FFFFFF = Some n" "drop_bit TGID_SHIFT (next_trxn_id st) = 0x7FFFFFF"
    and "DecTrxnGroup 0x7FFFFFF n st = Inr st'"
  shows "next_trxn_id st' = 0"
  using assms by (auto simp: DecTrxnGroup_def bind_run_Inr_iff TGID_SHIFT_def Let_def)

theorem trxn_id_wraps_witness:
  "\<exists>st'. DecTrxnGroup 0x7FFFFFF 2 (TrxnState_init\<lparr>next_trxn_id := 0xFFFFFFE1,
      uncompleted_trxn_group := [0x7FFFFFF \<mapsto> 2]\<rparr>) = Inr st' \<and> next_trxn_id st' = 0"
proof -
  let ?st = "TrxnState_init\<lparr>next_trxn_id := 0xFFFFFFE1, uncompleted_trxn_group := [0x7FFFFFF \<mapsto> 2]\<rparr>"
  have "\<exists>st'. DecTrxnGroup 0x7FFFFFF 2 ?st = Inr st'"
    by (simp add: DecTrxnGroup_def TrxnState_init_def TrxnGroupRange_one_def Let_def)
  then show ?thesis using trxn_id_wraps[of ?st 2] by (auto simp: TGID_SHIFT_def)
qed

end
