(* ===== verification/UserValues.thy ===== *)
theory UserValues
  imports Codec
begin

text \<open>
  \<open>UserValue\<close> of \<^verbatim>\<open>db/insdb_internal.h\<close>: the buffer that holds a user value, followed by
  its key, column id and time to live, and a pin count. The capacity is kept
  in units of 32 bytes in 16 bits.
\<close>

definition UV_BUF_SIZE_SHIFT :: nat where "UV_BUF_SIZE_SHIFT = 5"

record UserValue =
  uv_buf :: bytes
  uv_value_size :: u32
  uv_buf_size :: u16
  uv_pinned :: "16 word"

definition uv_align :: "u32 \<Rightarrow> u32" where
  "uv_align sz = (sz + 0x1F) AND 0xFFFFFFE0"

definition UserValue_new :: "u32 \<Rightarrow> UserValue" where
  "UserValue_new sz =
     (if sz \<noteq> 0
      then \<lparr>uv_buf = replicate (unat (uv_align sz)) 0, uv_value_size = 0,
            uv_buf_size = ucast (drop_bit UV_BUF_SIZE_SHIFT (uv_align sz)), uv_pinned = 1\<rparr>
      else \<lparr>uv_buf = [], uv_value_size = 0, uv_buf_size = 0, uv_pinned = 1\<rparr>)"

definition uv_capacity :: "UserValue \<Rightarrow> u32" where
  "uv_capacity u = push_bit UV_BUF_SIZE_SHIFT (ucast (uv_buf_size u))"

definition uv_realloc :: "u32 \<Rightarrow> UserValue \<Rightarrow> UserValue" where
  "uv_realloc sz u =
     u\<lparr>uv_buf := replicate (unat (uv_align sz)) 0,
       uv_buf_size := ucast (drop_bit UV_BUF_SIZE_SHIFT (uv_align sz))\<rparr>"

definition InitUserValue_plain :: "bytes \<Rightarrow> UserValue \<Rightarrow> UserValue run" where
  "InitUserValue_plain uval u =
     bind_run (assert_run (uv_pinned u = 1)) (\<lambda>_.
       let u1 = u\<lparr>uv_value_size := word_of_nat (length uval)\<rparr>
       in if uv_value_size u1 = 0 then Inr u1
          else (let u2 = (if uv_capacity u1 < uv_value_size u1 then uv_realloc (uv_value_size u1) u1 else u1)
                in bind_run (of_opt Out_of_bounds (poke 0 (take (unat (uv_value_size u1)) uval) (uv_buf u2)))
                     (\<lambda>b. Inr (u2\<lparr>uv_buf := b\<rparr>))))"

text \<open>The sizes are compared in 64 bits, the new capacity is computed from the low 32 bits.\<close>

definition InitUserValue :: "bytes \<Rightarrow> bytes \<Rightarrow> u8 \<Rightarrow> u64 \<Rightarrow> UserValue \<Rightarrow> UserValue run" where
  "InitUserValue uval key col_id ttl u =
     bind_run (assert_run (uv_pinned u = 1)) (\<lambda>_.
       let u1 = u\<lparr>uv_value_size := word_of_nat (length uval)\<rparr>;
           need = (ucast (uv_value_size u1) + word_of_nat (length key) + 1 + (if ttl \<noteq> 0 then 8 else 0)) :: u64;
           u2 = (if ucast (uv_capacity u1) < need then uv_realloc (ucast need) u1 else u1);
           off1 = length uval;
           off2 = off1 + length key;
           off3 = off2 + 1
       in bind_run (of_opt Out_of_bounds (poke 0 (take (unat (uv_value_size u1)) uval) (uv_buf u2))) (\<lambda>b.
          bind_run (of_opt Out_of_bounds (poke off1 key b)) (\<lambda>b.
          bind_run (of_opt Out_of_bounds (poke off2 [col_id] b)) (\<lambda>b.
          bind_run (if ttl \<noteq> 0 then of_opt Out_of_bounds (poke off3 (le_bytes 8 ttl) b) else Inr b) (\<lambda>b.
            Inr (u2\<lparr>uv_buf := b\<rparr>))))))"

definition InitPinAndFlag :: "UserValue \<Rightarrow> UserValue" where
  "InitPinAndFlag u = u\<lparr>uv_pinned := 1\<rparr>"

definition Pin :: "UserValue \<Rightarrow> UserValue" where
  "Pin u = u\<lparr>uv_pinned := uv_pinned u + 1\<rparr>"

definition UnPin :: "UserValue \<Rightarrow> bool \<times> UserValue" where
  "UnPin u = (let n = uv_pinned u - 1 in (n \<noteq> 0, u\<lparr>uv_pinned := n\<rparr>))"

text \<open>\<open>FreeUserValue\<close>: whether the object goes back to its allocator.\<close>

definition FreeUserValue :: "UserValue \<Rightarrow> bool \<times> UserValue" where
  "FreeUserValue u = (let (pinned, u') = UnPin u in if \<not> pinned then (True, InitPinAndFlag u') else (False, u'))"

definition uv_GetKeySlice :: "u16 \<Rightarrow> UserValue \<Rightarrow> bytes run" where
  "uv_GetKeySlice key_size u =
     bind_run (assert_run (uv_value_size u + ucast key_size \<le> uv_capacity u)) (\<lambda>_.
       of_opt Out_of_bounds (peek (unat (uv_value_size u)) (unat key_size) (uv_buf u)))"

definition ReadValue :: "UserValue \<Rightarrow> bytes run" where
  "ReadValue u = of_opt Out_of_bounds (peek 0 (unat (uv_value_size u)) (uv_buf u))"

section \<open>Capacity\<close>

text \<open>The recorded capacity never exceeds the allocation.\<close>

definition uv_ok :: "UserValue \<Rightarrow> bool" where
  "uv_ok u = (unat (uv_buf_size u) * 32 \<le> length (uv_buf u))"

lemma unat_uv_align: "unat s + 31 < 2 ^ 32 \<Longrightarrow> unat (uv_align s) = (unat s + 31) div 32 * 32"
proof -
  assume a: "unat s + 31 < 2 ^ 32"
  have "x AND 0xFFFFFFE0 = push_bit 5 (drop_bit 5 x)" for x :: u32
  proof -
    have m: "(0xFFFFFFE0 :: u32) = NOT (mask 5)" by (simp add: mask_eq_exp_minus_1)
    show ?thesis unfolding m by (intro bit_eqI) (auto simp: bit_simps)
  qed
  then have "unat (uv_align s) = unat (push_bit 5 (drop_bit 5 (s + 0x1F)))" by (simp only: uv_align_def)
  moreover have "unat (s + 0x1F) = unat s + 31" using a by (simp add: unat_word_ariths)
  moreover have "unat (push_bit 5 (drop_bit 5 x)) = unat x div 32 * 32" for x :: u32
  proof -
    have "unat x div 32 * 32 < 2 ^ 32" using unat_less_exp[of x] by simp
    then show ?thesis by (simp add: push_bit_eq_mult unat_word_ariths unat_shiftr)
  qed
  ultimately show ?thesis by simp
qed

lemma unat_uv_capacity: "unat (uv_capacity u) = unat (uv_buf_size u) * 32"
proof -
  have "unat (uv_buf_size u) < 2 ^ 16" using unat_less_exp[of "uv_buf_size u"] by simp
  moreover have "unat (ucast (uv_buf_size u) :: u32) = unat (uv_buf_size u)" by (simp add: unat_ucast_widen)
  ultimately show ?thesis
    by (simp add: uv_capacity_def UV_BUF_SIZE_SHIFT_def push_bit_eq_mult unat_word_ariths)
qed

lemma uv_realloc_ok:
  assumes "unat s + 31 < 2 ^ 21"
  shows "uv_ok (uv_realloc s u)" "unat s \<le> length (uv_buf (uv_realloc s u))"
    "unat (uv_buf_size (uv_realloc s u)) * 32 = length (uv_buf (uv_realloc s u))"
proof -
  have a: "unat (uv_align s) = (unat s + 31) div 32 * 32" using assms by (intro unat_uv_align) simp
  then have d: "unat (ucast (drop_bit 5 (uv_align s)) :: u16) = (unat s + 31) div 32"
    using assms by (simp add: unsigned_ucast_eq unat_shiftr take_bit_nat_eq_self)
  show "unat (uv_buf_size (uv_realloc s u)) * 32 = length (uv_buf (uv_realloc s u))"
    using a d by (simp add: uv_realloc_def UV_BUF_SIZE_SHIFT_def)
  then show "uv_ok (uv_realloc s u)" by (simp add: uv_ok_def)
  show "unat s \<le> length (uv_buf (uv_realloc s u))" using a by (simp add: uv_realloc_def)
qed

lemma UserValue_new_ok: "unat s + 31 < 2 ^ 21 \<Longrightarrow> uv_ok (UserValue_new s) \<and> uv_pinned (UserValue_new s) = 1"
  using uv_realloc_ok(1)[of s "\<lparr>uv_buf = [], uv_value_size = 0, uv_buf_size = 0, uv_pinned = 1\<rparr>"]
  by (auto simp: UserValue_new_def uv_ok_def uv_realloc_def)

lemma poke_append:
  "length xs = off \<Longrightarrow> length bs \<le> length ys \<Longrightarrow> poke off bs (xs @ ys) = Some ((xs @ bs) @ drop (length bs) ys)"
  by (auto simp: poke_def)

lemma InitUserValue_ok:
  assumes "uv_ok u" "uv_pinned u = 1" "length uval + length key + 9 + 31 < 2 ^ 21"
  shows "\<exists>u'. InitUserValue uval key col_id ttl u = Inr u' \<and> uv_ok u' \<and> uv_pinned u' = 1
    \<and> unat (uv_value_size u') = length uval \<and> length uval + length key \<le> unat (uv_capacity u')
    \<and> (\<exists>rest. uv_buf u' = uval @ key @ col_id # (if ttl \<noteq> 0 then le_bytes 8 ttl else []) @ rest)"
proof -
  let ?t = "if ttl \<noteq> 0 then 8 else 0 :: nat"
  define need :: u64 where "need = word_of_nat (length uval + length key + 1 + ?t)"
  define u1 where "u1 = u\<lparr>uv_value_size := word_of_nat (length uval)\<rparr>"
  define u2 where "u2 = (if ucast (uv_capacity u1) < need then uv_realloc (ucast need) u1 else u1)"
  have v: "unat (uv_value_size u1) = length uval" using assms(3) by (simp add: u1_def unsigned_of_nat take_bit_nat_eq_self)
  have n: "unat need = length uval + length key + 1 + ?t"
    using assms(3) unfolding need_def unsigned_of_nat by (simp add: take_bit_nat_eq_self)
  have n32: "unat (ucast need :: u32) = unat need"
    using n assms(3) by (simp add: unsigned_ucast_eq take_bit_nat_eq_self)
  have need: "ucast (uv_value_size u1) + word_of_nat (length key) + 1 + (if ttl \<noteq> 0 then 8 else 0) = need"
    using assms(3) by (simp add: need_def u1_def unsigned_of_nat take_bit_nat_eq_self)
  have u2: "uv_ok u2 \<and> unat need \<le> unat (uv_capacity u2) \<and> uv_pinned u2 = 1 \<and> uv_value_size u2 = uv_value_size u1"
  proof (cases "ucast (uv_capacity u1) < need")
    case True
    have "unat (ucast need :: u32) + 31 < 2 ^ 21" using n n32 assms(3) by simp
    from uv_realloc_ok[OF this, of u1] True show ?thesis
      using n32 assms(2) by (simp add: u2_def unat_uv_capacity uv_realloc_def u1_def)
  next
    case False
    then have "unat need \<le> unat (uv_capacity u1)" by (simp add: word_less_nat_alt unat_ucast_widen)
    then show ?thesis using False assms(1,2) by (simp add: u2_def u1_def uv_ok_def)
  qed
  then have len: "length uval + length key + 1 + ?t \<le> length (uv_buf u2)"
    using n by (simp add: uv_ok_def unat_uv_capacity)
  let ?b1 = "drop (length uval) (uv_buf u2)" and ?tb = "if ttl \<noteq> 0 then le_bytes 8 ttl else []"
  have "poke 0 uval (uv_buf u2) = Some (uval @ ?b1)" using len by (simp add: poke_def)
  moreover have "poke (length uval) key (uval @ ?b1) = Some ((uval @ key) @ drop (length key) ?b1)"
    using len by (intro poke_append) auto
  moreover have "poke (length uval + length key) [col_id] ((uval @ key) @ drop (length key) ?b1)
      = Some (((uval @ key) @ [col_id]) @ drop (length [col_id]) (drop (length key) ?b1))"
    using len by (intro poke_append) auto
  moreover have "poke (length uval + length key + 1) ?tb (((uval @ key) @ [col_id]) @ drop (length [col_id]) (drop (length key) ?b1))
      = Some ((((uval @ key) @ [col_id]) @ ?tb) @ drop (length ?tb) (drop (length [col_id]) (drop (length key) ?b1)))"
    using len by (intro poke_append) (auto simp: len_simps)
  ultimately have "InitUserValue uval key col_id ttl u = Inr (u2\<lparr>uv_buf :=
      (((uval @ key) @ [col_id]) @ ?tb) @ drop (length ?tb) (drop (length [col_id]) (drop (length key) ?b1))\<rparr>)"
    using assms(2) v unfolding InitUserValue_def Let_def u1_def[symmetric] need u2_def[symmetric]
    by (cases "ttl = 0") (simp_all add: u1_def)
  then show ?thesis using u2 v n by (auto simp: uv_ok_def uv_capacity_def)
qed

lemma InitUserValue_read:
  assumes "uv_ok u" "uv_pinned u = 1" "length uval + length key + 40 < 2 ^ 21"
  shows "\<exists>u'. InitUserValue uval key col_id ttl u = Inr u' \<and> ReadValue u' = Inr uval"
proof -
  obtain u' rest where u': "InitUserValue uval key col_id ttl u = Inr u'" "unat (uv_value_size u') = length uval"
    "uv_buf u' = uval @ key @ col_id # (if ttl \<noteq> 0 then le_bytes 8 ttl else []) @ rest"
    using InitUserValue_ok[OF assms(1,2), of uval key col_id ttl] assms(3) by auto
  then show ?thesis by (simp add: ReadValue_def peek_def)
qed

section \<open>Properties\<close>

text \<open>
  C31: initialising a user value, fresh or recycled, stores the value, the key, the
  column id and the time to live one after the other and never writes outside
  the buffer; the value and the key are read back.
\<close>

theorem user_value_layout:
  assumes "uv_ok u" "uv_pinned u = 1" "length uval + length key + 40 < 2 ^ 21" "length key < 2 ^ 16"
  shows "\<exists>u' rest. InitUserValue uval key col_id ttl u = Inr u' \<and> uv_ok u'
    \<and> ReadValue u' = Inr uval \<and> uv_GetKeySlice (word_of_nat (length key)) u' = Inr key
    \<and> uv_buf u' = uval @ key @ col_id # (if ttl \<noteq> 0 then le_bytes 8 ttl else []) @ rest"
proof -
  obtain u' rest where u': "InitUserValue uval key col_id ttl u = Inr u'" "uv_ok u'"
    "unat (uv_value_size u') = length uval" "length uval + length key \<le> unat (uv_capacity u')"
    "uv_buf u' = uval @ key @ col_id # (if ttl \<noteq> 0 then le_bytes 8 ttl else []) @ rest"
    using InitUserValue_ok[OF assms(1,2), of uval key col_id ttl] assms(3) by auto
  have k: "unat (word_of_nat (length key) :: u16) = length key"
    using assms(4) unfolding unsigned_of_nat by (simp add: take_bit_nat_eq_self)
  have "uv_value_size u' + ucast (word_of_nat (length key) :: u16) \<le> uv_capacity u'"
    using u'(3,4) k assms(3) by (simp add: word_le_nat_alt unat_word_ariths unat_ucast_widen)
  then have "uv_GetKeySlice (word_of_nat (length key)) u' = Inr key"
    using u'(3,5) k by (simp add: uv_GetKeySlice_def peek_def)
  moreover have "ReadValue u' = Inr uval" using u'(3,5) by (simp add: ReadValue_def peek_def)
  ultimately show ?thesis using u'(1,2,5) by blast
qed

theorem user_value_layout_witness:
  "\<exists>u'. InitUserValue [10, 20] [7] 3 0 (UserValue_new 3) = Inr u' \<and> ReadValue u' = Inr [10, 20]"
  using user_value_layout[of "UserValue_new 3" "[10, 20]" "[7]" 3 0] UserValue_new_ok[of 3] by auto

text \<open>
  A buffer of 2 MB, the documented maximum, is recorded with capacity 0, since
  its size in units of 32 bytes does not fit in 16 bits.
\<close>

theorem user_value_2mb_capacity:
  "length (uv_buf (uv_realloc 0x200000 u)) = 0x200000 \<and> uv_capacity (uv_realloc 0x200000 u) = 0"
proof -
  have "uv_align 0x200000 = 0x200000" by (simp add: uv_align_def)
  then show ?thesis by (simp add: uv_capacity_def uv_realloc_def UV_BUF_SIZE_SHIFT_def)
qed

end
