(* ===== verification/WriteStore.thy ===== *)
theory WriteStore
  imports TrxnGroups UserValues
begin

text \<open>
  The write path of \<^verbatim>\<open>db/write_batch.cc\<close> and \<^verbatim>\<open>db/manifest.cc\<close>: \<open>WriteBatchInternal::Store\<close>
  finds or creates the user key, gives the new version its sequence number, puts
  it in front of its column, assigns a transaction id and schedules a request
  for the workers. Objects the allocators hand out, the column options and the
  address of the user value allocated along with a node come from the
  environment record.
\<close>

record StoreEnv =
  TtlIsEnabled :: "u16 \<Rightarrow> bool"
  env_ttl :: u64
  AllocUserKey :: "nat \<Rightarrow> UserKey"
  AllocUserValue :: "u32 \<Rightarrow> UserValue"
  value_addr :: "u64 \<Rightarrow> u64"

record StoreState =
  ss_keys :: "bytes \<rightharpoonup> UserKey"
  ss_values :: "u64 \<rightharpoonup> UserValue"
  ss_seq :: SequenceNumber
  ss_trxns :: TrxnState
  ss_req_of :: "bytes \<times> u16 \<Rightarrow> nat option"
  ss_reqs :: "RequestNode list"
  ss_pending :: "nat list"
  ss_active :: "bytes list"

section \<open>The key hash map\<close>

text \<open>A key whose table is being evicted makes the lookup loop until the eviction has removed it.\<close>

datatype lookup = Waiting | Missing | Found UserKey

definition IncreaseUserKeyReference :: "UserKey \<Rightarrow> UserKey option" where
  "IncreaseUserKeyReference uk = (if IsEvictionPrepared uk then None else Some (IncreaseReferenceCount uk))"

definition FindUserKeyFromHashMap :: "bytes \<Rightarrow> StoreState \<Rightarrow> lookup" where
  "FindUserKeyFromHashMap key st =
     (case ss_keys st key of
        None \<Rightarrow> Missing
      | Some uk \<Rightarrow>
          (case IncreaseUserKeyReference uk of
             None \<Rightarrow> Waiting
           | Some uk1 \<Rightarrow> (let (ok, uk2) = IsSKTableEvictionInProgress uk1 in if ok then Found uk2 else Waiting)))"

definition InsertUserKeyToHashMap :: "UserKey \<Rightarrow> StoreState \<Rightarrow> bool \<times> StoreState" where
  "InsertUserKeyToHashMap uk st =
     (case ss_keys st (uk_key uk) of
        None \<Rightarrow> (True, st\<lparr>ss_keys := (ss_keys st)(uk_key uk \<mapsto> uk)\<rparr>)
      | Some _ \<Rightarrow> (False, st))"

definition KeyHashMapFindOrInsertUserKey :: "StoreEnv \<Rightarrow> bytes \<Rightarrow> StoreState \<Rightarrow> (bool \<times> UserKey \<times> StoreState) option" where
  "KeyHashMapFindOrInsertUserKey env key st =
     (case FindUserKeyFromHashMap key st of
        Waiting \<Rightarrow> None
      | Found uk \<Rightarrow> Some (False, uk, st\<lparr>ss_keys := (ss_keys st)(key \<mapsto> uk)\<rparr>)
      | Missing \<Rightarrow>
          (let uk = InitUserKey key (AllocUserKey env (length key));
               (ok, st') = InsertUserKeyToHashMap uk st
           in if ok then Some (True, uk, st') else None))"

definition RemoveUserKeyFromHashMap :: "bytes \<Rightarrow> StoreState \<Rightarrow> bool \<times> StoreState" where
  "RemoveUserKeyFromHashMap key st =
     (ss_keys st key \<noteq> None, st\<lparr>ss_keys := (ss_keys st)(key := None)\<rparr>)"

definition GenerateSequenceNumber :: "StoreState \<Rightarrow> SequenceNumber \<times> StoreState" where
  "GenerateSequenceNumber st = (ss_seq st + 1, st\<lparr>ss_seq := ss_seq st + 1\<rparr>)"

section \<open>Scheduling\<close>

definition modify_node :: "u64 \<Rightarrow> (ColumnNode \<Rightarrow> ColumnNode) \<Rightarrow> ColumnData \<Rightarrow> ColumnData" where
  "modify_node a f c = c\<lparr>col_list := map (\<lambda>n. if cn_addr n = a then f n else n) (col_list c)\<rparr>"

text \<open>Allocate a request, initialise it, remember it in the column and put it into the pending queue.\<close>

definition new_request :: "Transaction \<Rightarrow> bytes \<times> u16 \<Rightarrow> StoreState \<Rightarrow> StoreState run" where
  "new_request trxn kc st =
     bind_run (RequestNode_Init trxn \<lparr>rn_trxns = [], rn_tgid_for_dec = 0, rn_latest_col_node = 0\<rparr>) (\<lambda>r.
       Inr (st\<lparr>ss_reqs := ss_reqs st @ [r], ss_req_of := (ss_req_of st)(kc := Some (length (ss_reqs st))),
               ss_pending := ss_pending st @ [length (ss_reqs st)]\<rparr>))"

definition update_request :: "bytes \<times> u16 \<Rightarrow> (RequestNode \<Rightarrow> RequestNode run) \<Rightarrow> StoreState \<Rightarrow> StoreState run" where
  "update_request kc f st =
     bind_run (of_opt Out_of_bounds (ss_req_of st kc)) (\<lambda>i.
       if i < length (ss_reqs st)
       then bind_run (f (ss_reqs st ! i)) (\<lambda>r. Inr (st\<lparr>ss_reqs := (ss_reqs st)[i := r]\<rparr>))
       else Inl Out_of_bounds)"

definition mark_trxn :: "Transaction \<Rightarrow> u64 \<Rightarrow> ColumnData \<Rightarrow> ColumnData" where
  "mark_trxn trxn a c = (if t_id trxn \<noteq> 0 then modify_node a SetTransaction c else c)"

text \<open>The flag of the result tells that the version joins a request already queued.\<close>

definition schedule :: "Transaction \<Rightarrow> u64 \<Rightarrow> InsertColumnNodeStatus \<Rightarrow> bytes \<times> u16 \<Rightarrow> ColumnData \<Rightarrow> StoreState
    \<Rightarrow> (bool \<times> ColumnData \<times> StoreState) run" where
  "schedule trxn a sched_stat kc c st =
     (if sched_stat = kNeedToSchedule then
        bind_run (assert_run (ss_req_of st kc = None)) (\<lambda>_.
        bind_run (new_request trxn kc st) (\<lambda>st.
          Inr (False, SetLatestColumnNode a (snd (SetLastTGID (tgid_of (t_id trxn)) (mark_trxn trxn a c))), st)))
      else
        (let (old, c) = SetLastTGID (tgid_of (t_id trxn)) c
         in if drop_bit TGID_SHIFT (t_id trxn) \<noteq> ucast old then
              bind_run (update_request kc (\<lambda>r. Inr (r\<lparr>rn_latest_col_node := latest_col_node c\<rparr>)) st) (\<lambda>st.
              bind_run (deref (latest_col_node c) (col_list c)) (\<lambda>_.
              bind_run (new_request trxn kc st) (\<lambda>st.
                Inr (False, SetLatestColumnNode a (mark_trxn trxn a (modify_node (latest_col_node c) SetTGIDSplit c)), st))))
            else
              bind_run (assert_run (sched_stat = kHasBeenScheduled)) (\<lambda>_.
              bind_run (if t_id trxn \<noteq> 0 then update_request kc (InsertTrxn trxn) st else Inr st) (\<lambda>st.
                Inr (True, SetLatestColumnNode a (mark_trxn trxn a c), st)))))"

section \<open>Store\<close>

definition make_node :: "StoreEnv \<Rightarrow> u64 \<Rightarrow> bytes \<Rightarrow> bytes \<Rightarrow> u16 \<Rightarrow> RequestType \<Rightarrow> StoreState \<Rightarrow> (ColumnNode \<times> StoreState) run" where
  "make_node env a key val col_id type st =
     (let ttl = (if TtlIsEnabled env col_id then env_ttl env else 0);
          n = ColumnNode_new a type ttl
      in if type = kPutType then
           bind_run (InitUserValue val key (ucast col_id) ttl (AllocUserValue env (word_of_nat (length val + length key + 1 + 8)))) (\<lambda>uv.
           bind_run (InsertUserValue (value_addr env a) n) (\<lambda>n.
             Inr (n, st\<lparr>ss_values := (ss_values st)(value_addr env a \<mapsto> uv)\<rparr>)))
         else Inr (n, st))"

definition set_column :: "bytes \<Rightarrow> UserKey \<Rightarrow> u16 \<Rightarrow> ColumnData \<Rightarrow> StoreState \<Rightarrow> StoreState" where
  "set_column key uk col_id c st = st\<lparr>ss_keys := (ss_keys st)(key \<mapsto> uk\<lparr>uk_cols := (uk_cols uk)[unat col_id := c]\<rparr>)\<rparr>"

definition Store :: "StoreEnv \<Rightarrow> u64 \<Rightarrow> bytes \<Rightarrow> bytes \<Rightarrow> u16 \<Rightarrow> RequestType \<Rightarrow> Transaction \<Rightarrow> StoreState
    \<Rightarrow> (Transaction \<times> StoreState) option run" where
  "Store env a key val col_id type trxn st =
     bind_run (make_node env a key val col_id type st) (\<lambda>(n, st).
       case KeyHashMapFindOrInsertUserKey env key st of
         None \<Rightarrow> Inr None
       | Some (new_uk, uk, st) \<Rightarrow>
           let st = (if new_uk then st\<lparr>ss_active := ss_active st @ [key]\<rparr> else st)
           in bind_run (assert_run (uk_ref_cnt uk \<noteq> 0)) (\<lambda>_.
             let (seq_number, st) = GenerateSequenceNumber st;
                 force = (t_count trxn > 1 \<and> t_seq_number trxn = t_count trxn - 1)
             in bind_run (UserKey_UpdateColumn (UpdateSequenceNumber seq_number n) col_id force uk) (\<lambda>(sched_stat, uk).
               if sched_stat = kFailInsert then
                 (let uk = snd (DecreaseReferenceCount uk)
                  in bind_run (if t_id trxn \<noteq> 0 then DecTrxnGroup (tgid_of (t_id trxn)) 1 (ss_trxns st) else Inr (ss_trxns st)) (\<lambda>ts.
                       Inr (Some (trxn\<lparr>t_count := t_count trxn - 1\<rparr>,
                                  st\<lparr>ss_trxns := ts, ss_keys := (ss_keys st)(key \<mapsto> uk)\<rparr>))))
               else
                 (let (trxn, ts) = (if t_count trxn > 1 \<and> t_id trxn = 0
                                    then (let (i, ts) = GetTrxnID (t_count trxn) (ss_trxns st) in (trxn\<lparr>t_id := i\<rparr>, ts))
                                    else (trxn, ss_trxns st))
                  in bind_run (schedule trxn a sched_stat (key, col_id) (uk_cols uk ! unat col_id) (st\<lparr>ss_trxns := ts\<rparr>)) (\<lambda>(merged, c, st).
                       let uk = (if merged then snd (DecreaseReferenceCount uk) else uk)
                       in Inr (Some (trxn\<lparr>t_seq_number := t_seq_number trxn + 1\<rparr>, set_column key uk col_id c st)))))))"

text \<open>The requests of one batch, in order: node address, key, value, column and type.\<close>

type_synonym store_op = "u64 \<times> bytes \<times> bytes \<times> u16 \<times> RequestType"

fun Store_all :: "StoreEnv \<Rightarrow> store_op list \<Rightarrow> Transaction \<Rightarrow> StoreState \<Rightarrow> (Transaction \<times> StoreState) option run" where
  "Store_all env [] trxn st = Inr (Some (trxn, st))"
| "Store_all env ((a, key, val, col_id, type) # ops) trxn st =
     bind_run (Store env a key val col_id type trxn st) (\<lambda>r.
       case r of None \<Rightarrow> Inr None | Some (trxn, st) \<Rightarrow> Store_all env ops trxn st)"

section \<open>Columns\<close>

definition node_ok :: "StoreEnv \<Rightarrow> ColumnNode \<Rightarrow> bool" where
  "node_ok env n = (\<not> IsDropped n \<and> (GetRequestType n = kPutType \<longrightarrow> GetUserValue n = value_addr env (cn_addr n)))"

definition col_inv :: "StoreEnv \<Rightarrow> SequenceNumber \<Rightarrow> ColumnData \<Rightarrow> bool" where
  "col_inv env b c = (column_ok c \<and> (\<forall>n \<in> set (col_list c). node_ok env n \<and> begin_seq n \<le> b))"

text \<open>A column whose newest version has not been submitted has a request, and a transaction group only with a queued transaction.\<close>

definition unsubmitted :: "ColumnData \<Rightarrow> bool" where
  "unsubmitted c = (col_list c \<noteq> [] \<and> ikey_seq (hd (col_list c)) = 0)"

definition req_ready :: "bytes \<times> u16 \<Rightarrow> ColumnData \<Rightarrow> StoreState \<Rightarrow> bool" where
  "req_ready kc c st =
     (if unsubmitted c
      then (\<exists>j < length (ss_reqs st). ss_req_of st kc = Some j \<and> (last_tgid c \<noteq> 0 \<longrightarrow> rn_trxns (ss_reqs st ! j) \<noteq> []))
      else ss_req_of st kc = None)"

definition reqs_grow :: "RequestNode list \<Rightarrow> RequestNode list \<Rightarrow> bool" where
  "reqs_grow rs rs' = (length rs \<le> length rs' \<and> (\<forall>j < length rs. rn_trxns (rs ! j) \<noteq> [] \<longrightarrow> rn_trxns (rs' ! j) \<noteq> []))"

lemma req_ready_grow:
  "req_ready kc c st \<Longrightarrow> reqs_grow (ss_reqs st) (ss_reqs st') \<Longrightarrow> ss_req_of st' kc = ss_req_of st kc \<Longrightarrow> req_ready kc c st'"
  by (auto simp: req_ready_def reqs_grow_def split: if_splits)

text \<open>Changes of a node that readers do not notice.\<close>

definition benign :: "(ColumnNode \<Rightarrow> ColumnNode) \<Rightarrow> bool" where
  "benign f = (\<forall>n. same_version (f n) n \<and> ikey_seq (f n) = ikey_seq n \<and> GetUserValue (f n) = GetUserValue n \<and> IsDropped (f n) = IsDropped n)"

lemma benign_flag: "f \<in> {flags_trxn, flags_tgid_split} \<Longrightarrow> benign (\<lambda>n. if P n then set_flag f n else n)"
  by (auto simp: benign_def same_version_def IsDropped_def has_set_flag flag_bits_def) (auto simp: flag_defs)

lemma benign_comp: "benign f \<Longrightarrow> benign g \<Longrightarrow> benign (f \<circ> g)"
  by (simp add: benign_def same_version_def)

lemma benign_id: "benign (\<lambda>n. n)"
  by (simp add: benign_def same_version_def)

lemma benignD:
  assumes "benign f"
  shows "version_matches s (f n) = version_matches s n" "answer_of (f n) = answer_of n"
    "older_than b (f n) = older_than b n" "begin_seq (f n) = begin_seq n" "cn_addr (f n) = cn_addr n"
    "end_seq (f n) = end_seq n" "GetRequestType (f n) = GetRequestType n" "ikey_seq (f n) = ikey_seq n"
    "node_ok env (f n) = node_ok env n"
  using assms same_version_cong[of "f n" n] by (auto simp: benign_def same_version_def node_ok_def)

lemma benign_list:
  assumes "benign f"
  shows "answer_at (map f ns) s = answer_at ns s" "versions_ok (map f ns) = versions_ok ns"
    "map cn_addr (map f ns) = map cn_addr ns"
proof -
  note b = benignD[OF assms]
  show "answer_at (map f ns) s = answer_at ns s" by (induction ns) (simp_all add: answer_at_Cons b)
  have c: "chain_ok x (map f ns) = chain_ok x ns" for x ns by (induction ns arbitrary: x) (simp_all add: b)
  show "versions_ok (map f ns) = versions_ok ns" by (cases ns) (simp_all add: b c)
  show "map cn_addr (map f ns) = map cn_addr ns" by (simp add: b)
qed

lemma benign_col:
  assumes "benign f" "col_list c' = map f (col_list c)"
  shows "answer_at (col_list c') s = answer_at (col_list c) s"
    "unsubmitted c' = unsubmitted c" "map cn_addr (col_list c') = map cn_addr (col_list c)"
    "versions_ok (col_list c') = versions_ok (col_list c)"
    "(\<forall>n \<in> set (col_list c'). node_ok env n \<and> begin_seq n \<le> b) = (\<forall>n \<in> set (col_list c). node_ok env n \<and> begin_seq n \<le> b)"
  using benign_list[OF assms(1), of "col_list c"] benignD[OF assms(1)] assms(2)
  by (auto simp: unsubmitted_def hd_map)

lemma mark_trxn_benign: "\<exists>f. benign f \<and> col_list (mark_trxn trxn a c) = map f (col_list c)"
proof (cases "t_id trxn = 0")
  case True
  then show ?thesis using benign_id by (intro exI[of _ "\<lambda>n. n"]) (simp add: mark_trxn_def)
next
  case False
  then show ?thesis using benign_flag[of flags_trxn "\<lambda>n. cn_addr n = a"]
    by (intro exI[of _ "\<lambda>n. if cn_addr n = a then set_flag flags_trxn n else n"])
       (simp add: mark_trxn_def modify_node_def SetTransaction_def)
qed

lemma mark_trxn_fields [simp]:
  "latest_col_node (mark_trxn trxn a c) = latest_col_node c" "last_tgid (mark_trxn trxn a c) = last_tgid c"
  by (simp_all add: mark_trxn_def modify_node_def)

lemma split_benign: "\<exists>f. benign f \<and> col_list (mark_trxn trxn a (modify_node a' SetTGIDSplit c)) = map f (col_list c)"
proof -
  obtain g where g: "benign g" "col_list (mark_trxn trxn a (modify_node a' SetTGIDSplit c))
      = map g (col_list (modify_node a' SetTGIDSplit c))" using mark_trxn_benign by blast
  have b: "benign (\<lambda>n. if cn_addr n = a' then set_flag flags_tgid_split n else n)" by (rule benign_flag) simp
  show ?thesis using g benign_comp[OF g(1) b] by (auto simp: modify_node_def SetTGIDSplit_def comp_def)
qed

definition trxn_wf :: "Transaction \<Rightarrow> bool" where
  "trxn_wf trxn = (t_id trxn \<noteq> 0 \<longrightarrow> tgid_of (t_id trxn) \<noteq> 0 \<and> group_no (t_id trxn) < 2 ^ 27)"

definition same_rest :: "StoreState \<Rightarrow> StoreState \<Rightarrow> bool" where
  "same_rest st st' = (ss_keys st' = ss_keys st \<and> ss_values st' = ss_values st \<and> ss_seq st' = ss_seq st
     \<and> ss_trxns st' = ss_trxns st \<and> reqs_grow (ss_reqs st) (ss_reqs st'))"

lemma new_request_ok:
  "\<exists>st'. new_request trxn kc st = Inr st' \<and> same_rest st st'
    \<and> (\<forall>kc'. kc' \<noteq> kc \<longrightarrow> ss_req_of st' kc' = ss_req_of st kc')
    \<and> (\<exists>j < length (ss_reqs st'). ss_req_of st' kc = Some j \<and> (t_id trxn \<noteq> 0 \<longrightarrow> rn_trxns (ss_reqs st' ! j) \<noteq> []))"
  by (simp add: new_request_def RequestNode_Init_def same_rest_def reqs_grow_def nth_append)

lemma update_request_ok:
  assumes "ss_req_of st kc = Some j" "j < length (ss_reqs st)" "f (ss_reqs st ! j) = Inr r"
    and "rn_trxns (ss_reqs st ! j) \<noteq> [] \<longrightarrow> rn_trxns r \<noteq> []"
  shows "\<exists>st'. update_request kc f st = Inr st' \<and> same_rest st st' \<and> ss_req_of st' = ss_req_of st"
  using assms by (auto simp: update_request_def same_rest_def reqs_grow_def nth_list_update)

lemma same_rest_trans: "same_rest st st1 \<Longrightarrow> same_rest st1 st2 \<Longrightarrow> same_rest st st2"
  by (auto simp: same_rest_def reqs_grow_def)

lemma ucast_back: "(ucast (ucast (w :: TrxnGroupID) :: TransactionID) :: TrxnGroupID) = w"
proof -
  have "unat (ucast w :: TransactionID) = unat w" by (simp add: unat_ucast_widen)
  then have "unat (ucast (ucast w :: TransactionID) :: TrxnGroupID) = unat w"
    using unat_less_exp[of w] unfolding unsigned_ucast_eq[where 'b = 64] by (simp add: take_bit_nat_eq_self)
  then show ?thesis by (simp add: word_unat_eq_iff)
qed

lemma tgid_zero: "trxn_wf trxn \<Longrightarrow> tgid_of (t_id trxn) = 0 \<longleftrightarrow> t_id trxn = 0"
  by (auto simp: trxn_wf_def tgid_of_def)

text \<open>What scheduling a new version promises, whichever branch it takes.\<close>

definition scheduled :: "Transaction \<Rightarrow> u64 \<Rightarrow> InsertColumnNodeStatus \<Rightarrow> bytes \<times> u16 \<Rightarrow> ColumnData \<Rightarrow> StoreState \<Rightarrow> bool" where
  "scheduled trxn a sched_stat kc c st =
     (\<exists>merged c' st' f. schedule trxn a sched_stat kc c st = Inr (merged, c', st') \<and> benign f
      \<and> col_list c' = map f (col_list c) \<and> latest_col_node c' = a \<and> req_ready kc c' st' \<and> same_rest st st'
      \<and> (\<forall>kc'. kc' \<noteq> kc \<longrightarrow> ss_req_of st' kc' = ss_req_of st kc'))"

lemma schedule_new:
  assumes "trxn_wf trxn" "ss_req_of st kc = None" "unsubmitted c"
  shows "scheduled trxn a kNeedToSchedule kc c st"
proof -
  obtain st' j where st': "new_request trxn kc st = Inr st'" "same_rest st st'"
    "\<forall>kc'. kc' \<noteq> kc \<longrightarrow> ss_req_of st' kc' = ss_req_of st kc'" "j < length (ss_reqs st')" "ss_req_of st' kc = Some j"
    "t_id trxn \<noteq> 0 \<longrightarrow> rn_trxns (ss_reqs st' ! j) \<noteq> []" using new_request_ok by blast
  obtain f where f: "benign f" "col_list (mark_trxn trxn a c) = map f (col_list c)" using mark_trxn_benign by blast
  define c' where "c' = SetLatestColumnNode a (snd (SetLastTGID (tgid_of (t_id trxn)) (mark_trxn trxn a c)))"
  have c': "col_list c' = map f (col_list c)" "latest_col_node c' = a" "last_tgid c' = tgid_of (t_id trxn)"
    using f(2) by (simp_all add: c'_def SetLatestColumnNode_def SetLastTGID_def)
  have "req_ready kc c' st'" using st'(4-6) c'(3) benign_col(2)[OF f(1) c'(1)] assms(1,3) tgid_zero
    by (auto simp: req_ready_def)
  moreover have "schedule trxn a kNeedToSchedule kc c st = Inr (False, c', st')"
    using assms(2) st'(1) by (simp add: schedule_def c'_def)
  ultimately show ?thesis using f(1) c' st'(2,3) unfolding scheduled_def by blast
qed

lemma schedule_split:
  assumes "trxn_wf trxn" "ss_req_of st kc = Some j" "j < length (ss_reqs st)" "unsubmitted c"
    and "drop_bit TGID_SHIFT (t_id trxn) \<noteq> ucast (last_tgid c)"
    and "\<exists>n \<in> set (col_list c). cn_addr n = latest_col_node c"
  shows "scheduled trxn a kHasBeenScheduled kc c st"
proof -
  define d where "d = c\<lparr>last_tgid := tgid_of (t_id trxn)\<rparr>"
  have d: "col_list d = col_list c" "latest_col_node d = latest_col_node c" by (simp_all add: d_def)
  obtain st1 where st1: "update_request kc (\<lambda>r. Inr (r\<lparr>rn_latest_col_node := latest_col_node d\<rparr>)) st = Inr st1"
    "same_rest st st1" "ss_req_of st1 = ss_req_of st" using update_request_ok[OF assms(2,3), of "\<lambda>r. Inr (r\<lparr>rn_latest_col_node := latest_col_node d\<rparr>)"] by auto
  obtain st' i where st': "new_request trxn kc st1 = Inr st'" "same_rest st1 st'"
    "\<forall>kc'. kc' \<noteq> kc \<longrightarrow> ss_req_of st' kc' = ss_req_of st1 kc'" "i < length (ss_reqs st')" "ss_req_of st' kc = Some i"
    "t_id trxn \<noteq> 0 \<longrightarrow> rn_trxns (ss_reqs st' ! i) \<noteq> []" using new_request_ok by blast
  have "find (\<lambda>n. cn_addr n = latest_col_node c) (col_list c) \<noteq> None" using assms(6) by (auto simp: find_None_iff)
  then obtain m where m: "deref (latest_col_node c) (col_list c) = Inr m" by (auto simp: deref_def)
  define c' where "c' = SetLatestColumnNode a (mark_trxn trxn a (modify_node (latest_col_node d) SetTGIDSplit d))"
  obtain f where f: "benign f" "col_list c' = map f (col_list c)"
    using split_benign[of trxn a "latest_col_node d" d] d(1) by (auto simp: c'_def SetLatestColumnNode_def)
  have c': "latest_col_node c' = a" "last_tgid c' = tgid_of (t_id trxn)"
    by (simp_all add: c'_def SetLatestColumnNode_def modify_node_def d_def)
  have "req_ready kc c' st'" using st'(4-6) c'(2) benign_col(2)[OF f] assms(1,4) tgid_zero by (auto simp: req_ready_def)
  moreover have "schedule trxn a kHasBeenScheduled kc c st = Inr (False, c', st')"
    using assms(5) st1(1) st'(1) m d by (simp add: schedule_def SetLastTGID_def c'_def d_def[symmetric] Let_def)
  ultimately show ?thesis using f c'(1) st'(3) st1(3) same_rest_trans[OF st1(2) st'(2)]
    unfolding scheduled_def by auto
qed

lemma schedule_merge:
  assumes "trxn_wf trxn" "ss_req_of st kc = Some j" "j < length (ss_reqs st)" "unsubmitted c"
    and "drop_bit TGID_SHIFT (t_id trxn) = ucast (last_tgid c)" "last_tgid c \<noteq> 0 \<longrightarrow> rn_trxns (ss_reqs st ! j) \<noteq> []"
  shows "scheduled trxn a kHasBeenScheduled kc c st"
proof -
  have t: "tgid_of (t_id trxn) = last_tgid c" using assms(5) by (simp add: tgid_of_def ucast_back)
  define c' where "c' = SetLatestColumnNode a (mark_trxn trxn a (c\<lparr>last_tgid := tgid_of (t_id trxn)\<rparr>))"
  obtain f where f: "benign f" "col_list c' = map f (col_list c)"
    using mark_trxn_benign[of trxn a "c\<lparr>last_tgid := tgid_of (t_id trxn)\<rparr>"] by (auto simp: c'_def SetLatestColumnNode_def)
  have c': "latest_col_node c' = a" "last_tgid c' = last_tgid c"
    using t by (simp_all add: c'_def SetLatestColumnNode_def)
  have "\<exists>st'. (if t_id trxn \<noteq> 0 then update_request kc (InsertTrxn trxn) st else Inr st) = Inr st'
    \<and> same_rest st st' \<and> ss_req_of st' = ss_req_of st"
  proof (cases "t_id trxn = 0")
    case True
    then show ?thesis by (auto simp: same_rest_def reqs_grow_def)
  next
    case False
    then have "rn_trxns (ss_reqs st ! j) \<noteq> []" using assms(6) t tgid_zero[OF assms(1)] by simp
    then show ?thesis using False
        update_request_ok[OF assms(2,3), of "InsertTrxn trxn" "(ss_reqs st ! j)\<lparr>rn_trxns := rn_trxns (ss_reqs st ! j) @ [trxn]\<rparr>"]
      by (simp add: InsertTrxn_def)
  qed
  then obtain st' where st': "(if t_id trxn \<noteq> 0 then update_request kc (InsertTrxn trxn) st else Inr st) = Inr st'"
    "same_rest st st'" "ss_req_of st' = ss_req_of st" by blast
  have "req_ready kc c st" using assms(2,3,4,6) by (auto simp: req_ready_def)
  then have "req_ready kc c st'" using st'(2,3) req_ready_grow by (simp add: same_rest_def)
  then have "req_ready kc c' st'" using benign_col(2)[OF f] c'(2) by (simp add: req_ready_def)
  moreover have "schedule trxn a kHasBeenScheduled kc c st = Inr (True, c', st')"
    using assms(5) st'(1) by (simp add: schedule_def SetLastTGID_def c'_def)
  ultimately show ?thesis using f c'(1) st'(2,3) unfolding scheduled_def by auto
qed

lemma schedule_ok:
  assumes "trxn_wf trxn" "req_ready kc c0 st" "last_tgid c = last_tgid c0" "unsubmitted c"
    and "unsubmitted c0 \<longrightarrow> (\<exists>n \<in> set (col_list c). cn_addr n = latest_col_node c)"
  shows "scheduled trxn a (if unsubmitted c0 then kHasBeenScheduled else kNeedToSchedule) kc c st"
proof (cases "unsubmitted c0")
  case True
  then obtain j where "j < length (ss_reqs st)" "ss_req_of st kc = Some j"
    "last_tgid c \<noteq> 0 \<longrightarrow> rn_trxns (ss_reqs st ! j) \<noteq> []" using assms(2,3) by (auto simp: req_ready_def)
  then show ?thesis using True schedule_split[of trxn st kc j c a] schedule_merge[of trxn st kc j c a] assms(1,4,5) by auto
next
  case False
  then show ?thesis using schedule_new[OF assms(1) _ assms(4)] assms(2) by (simp add: req_ready_def)
qed

lemma UpdateColumn_shape:
  assumes "UpdateColumn n force c = Inr (st, pf, c')"
  shows "last_tgid c' = last_tgid c"
    "st \<noteq> kFailInsert \<Longrightarrow> st = (if unsubmitted c then kHasBeenScheduled else kNeedToSchedule)"
    "st \<noteq> kFailInsert \<Longrightarrow> unsubmitted c' \<longleftrightarrow> ikey_seq n = 0"
    "\<forall>m \<in> set (col_list c'). (\<exists>m0 \<in> insert n (set (col_list c)). \<exists>e. m = m0\<lparr>end_seq := e\<rparr>)"
  using assms
  by (auto simp: UpdateColumn_def unsubmitted_def Let_def bind_run_Inr_iff split: list.splits if_splits)
     (metis ColumnNode.surjective ColumnNode.update_convs(6))+

lemma node_ok_end [simp]: "node_ok env (n\<lparr>end_seq := e\<rparr>) = node_ok env n"
  by (simp add: node_ok_def IsDropped_def has_flag_def GetRequestType_def GetUserValue_def)

text \<open>The column before and after a new version has been put in front.\<close>

definition new_column :: "StoreEnv \<Rightarrow> u64 \<Rightarrow> RequestType \<Rightarrow> SequenceNumber \<Rightarrow> InsertColumnNodeStatus \<Rightarrow> ColumnData \<Rightarrow> ColumnData \<Rightarrow> bool" where
  "new_column env a type q stat c0 c1 =
     (last_tgid c1 = last_tgid c0 \<and> latest_col_node c1 = latest_col_node c0 \<and> (stat = kFailInsert \<longrightarrow> c1 = c0)
      \<and> (stat \<noteq> kFailInsert \<longrightarrow> stat = (if unsubmitted c0 then kHasBeenScheduled else kNeedToSchedule) \<and> unsubmitted c1
           \<and> map cn_addr (col_list c1) = a # map cn_addr (col_list c0))
      \<and> versions_ok (col_list c1) \<and> (\<forall>m \<in> set (col_list c1). node_ok env m \<and> begin_seq m \<le> q)
      \<and> (\<forall>s. answer_at (col_list c1) s = (if q \<le> s then (if type = kDelType then Deleted else Value a) else answer_at (col_list c0) s)))"

lemma UpdateColumn_col:
  assumes "col_inv env b c" "b < q" "q < ULONG_MAX" "cn_addr n = a" "a \<noteq> 0" "a \<notin> cn_addr ` set (col_list c)"
    and "ikey_seq n = 0" "node_ok env n" "begin_seq n = q" "end_seq n = ULONG_MAX"
  shows "\<exists>st pf c'. UpdateColumn n force c = Inr (st, pf, c') \<and> new_column env a (GetRequestType n) q st c c'"
proof -
  have b: "begin_seq m \<le> q" "node_ok env m" if "m \<in> set (col_list c)" for m
    using assms(1,2) that by (auto simp: col_inv_def)
  have "versions_ok (col_list c)" "col_list c \<noteq> [] \<Longrightarrow> begin_seq (hd (col_list c)) \<le> begin_seq n"
    using assms(1,9) b by (auto simp: col_inv_def column_ok_def)
  from UpdateColumn_answer[OF this(1) assms(7,10) _ this(2), of force] assms(3,9)
  obtain st pf c' where u: "UpdateColumn n force c = Inr (st, pf, c')" "versions_ok (col_list c')"
    "st \<noteq> kFailInsert \<longrightarrow> col_list c' \<noteq> [] \<and> cn_addr (hd (col_list c')) = cn_addr n
         \<and> map cn_addr (tl (col_list c')) = map cn_addr (col_list c)"
    "st = kFailInsert \<longrightarrow> c' = c" "latest_col_node c' = latest_col_node c"
    "\<forall>s. answer_at (col_list c') s = (if q \<le> s then answer_of n else answer_at (col_list c) s)" by auto
  note sh = UpdateColumn_shape[OF u(1)]
  have ao: "answer_of n = (if GetRequestType n = kDelType then Deleted else Value a)" using assms(4) by (simp add: answer_of_def)
  have "node_ok env m \<and> begin_seq m \<le> q" if "m \<in> set (col_list c')" for m
    using sh(4) that b assms(8,9) by fastforce
  moreover have "st \<noteq> kFailInsert \<Longrightarrow> map cn_addr (col_list c') = a # map cn_addr (col_list c)"
    using u(3) assms(4) by (cases "col_list c'") auto
  ultimately show ?thesis using u(1,2,4,5,6) sh(1-3) assms(7) unfolding new_column_def ao[symmetric]
    by (intro exI[of _ st] exI[of _ pf] exI[of _ c'] conjI impI ballI) blast+
qed

section \<open>The invariant of the write path\<close>

text \<open>
  \<open>m\<close> is the number of requests of the batch still to come and \<open>fresh\<close> the set of
  addresses no node of the store has.
\<close>

definition key_inv :: "StoreEnv \<Rightarrow> nat \<Rightarrow> nat \<Rightarrow> u64 set \<Rightarrow> StoreState \<Rightarrow> bytes \<Rightarrow> UserKey \<Rightarrow> bool" where
  "key_inv env ncols m fresh st k uk =
     (\<not> IsEvictionPrepared uk \<and> length (uk_cols uk) = ncols \<and> unat (uk_ref_cnt uk) + m < 2 ^ 16
      \<and> (\<forall>i < ncols. col_inv env (ss_seq st) (uk_cols uk ! i) \<and> fresh \<inter> cn_addr ` set (col_list (uk_cols uk ! i)) = {}
           \<and> req_ready (k, word_of_nat i) (uk_cols uk ! i) st))"

definition store_inv :: "StoreEnv \<Rightarrow> nat \<Rightarrow> nat \<Rightarrow> u64 set \<Rightarrow> StoreState \<Rightarrow> bool" where
  "store_inv env ncols m fresh st =
     ((\<forall>k uk. ss_keys st k = Some uk \<longrightarrow> key_inv env ncols m fresh st k uk)
      \<and> (\<forall>k i. ss_keys st k = None \<longrightarrow> ss_req_of st (k, i) = None)
      \<and> unat (ss_seq st) + m < unat ULONG_MAX \<and> m + 1 < 2 ^ 16
      \<and> trxn_inv (ss_trxns st) \<and> group_no (next_trxn_id (ss_trxns st)) + m + 1 < 2 ^ 27)"

text \<open>The counters of the batch: requests done and to come, and room in the transaction group.\<close>

definition batch_inv :: "nat \<Rightarrow> Transaction \<Rightarrow> StoreState \<Rightarrow> bool" where
  "batch_inv m trxn st =
     (unat (t_count trxn) = unat (t_seq_number trxn) + m \<and> trxn_wf trxn
      \<and> (if t_id trxn = 0 then \<forall>g. outstanding (ss_trxns st) g + unat (t_count trxn) < 2 ^ 32
         else m \<le> outstanding (ss_trxns st) (tgid_of (t_id trxn))))"

definition env_ok :: "StoreEnv \<Rightarrow> nat \<Rightarrow> bool" where
  "env_ok env ncols =
     ((\<forall>k. \<exists>sz. AllocUserKey env k = UserKey_new ncols sz) \<and> (\<forall>sz. uv_ok (AllocUserValue env sz) \<and> uv_pinned (AllocUserValue env sz) = 1)
      \<and> ncols \<le> 2 ^ 16)"

definition store_op_ok :: "StoreEnv \<Rightarrow> nat \<Rightarrow> u64 set \<Rightarrow> store_op \<Rightarrow> bool" where
  "store_op_ok env ncols fresh op = (case op of (a, key, val, col_id, type) \<Rightarrow>
     a \<in> fresh \<and> a \<noteq> 0 \<and> unat col_id < ncols \<and> length val + length key + 40 < 2 ^ 21
     \<and> value_addr env a < ADDRESS_MASK \<and> (\<forall>b. value_addr env b = value_addr env a \<longrightarrow> b = a))"

lemma make_node_ok:
  assumes "env_ok env ncols" "store_op_ok env ncols fresh (a, key, val, col_id, type)"
  shows "\<exists>n uvs. make_node env a key val col_id type st = Inr (n, st\<lparr>ss_values := uvs\<rparr>)
    \<and> cn_addr n = a \<and> ikey_seq n = 0 \<and> node_ok env n \<and> GetRequestType n = type
    \<and> (\<forall>x. x \<noteq> value_addr env a \<longrightarrow> uvs x = ss_values st x)
    \<and> (type = kPutType \<longrightarrow> (\<exists>u. uvs (value_addr env a) = Some u \<and> ReadValue u = Inr val))"
proof -
  let ?ttl = "if TtlIsEnabled env col_id then env_ttl env else 0"
  let ?n = "ColumnNode_new a type ?ttl"
  have n: "cn_addr ?n = a" "ikey_seq ?n = 0" "\<not> IsDropped ?n" "uvalue_or_kbm ?n = 0" "GetRequestType ?n = type"
    by (cases type; simp add: ColumnNode_new_def IsDropped_def has_flag_def RequestType_bits_def flag_defs GetRequestType_def)+
  show ?thesis
  proof (cases "type = kPutType")
    case False
    then show ?thesis using n
      by (intro exI[of _ ?n] exI[of _ "ss_values st"]) (simp add: make_node_def Let_def node_ok_def)
  next
    case True
    have va: "value_addr env a < ADDRESS_MASK" using assms(2) by (simp add: store_op_ok_def)
    let ?n' = "?n\<lparr>uvalue_or_kbm := USERVALUE_FLAG OR value_addr env a\<rparr>"
    have i: "InsertUserValue (value_addr env a) ?n = Inr ?n'" using va n by (simp add: InsertUserValue_def)
    have g: "GetUserValue ?n' = value_addr env a" using pack_user_value[OF va] by (simp add: GetUserValue_def and.commute)
    have t: "GetRequestType ?n' = type" "\<not> IsDropped ?n'" using n by (simp_all add: GetRequestType_def IsDropped_def has_flag_def)
    let ?u0 = "AllocUserValue env (word_of_nat (length val + length key + 1 + 8))"
    obtain u where u: "InitUserValue val key (ucast col_id) ?ttl ?u0 = Inr u" "ReadValue u = Inr val"
      using InitUserValue_read[of ?u0 val key "ucast col_id" ?ttl] assms by (auto simp: env_ok_def store_op_ok_def)
    then show ?thesis using True n i g t
      by (intro exI[of _ ?n'] exI[of _ "(ss_values st)(value_addr env a \<mapsto> u)"]) (simp add: make_node_def Let_def node_ok_def)
  qed
qed

definition column :: "StoreState \<Rightarrow> bytes \<Rightarrow> nat \<Rightarrow> ColumnData" where
  "column st k i = (case ss_keys st k of None \<Rightarrow> ColumnData_init | Some uk \<Rightarrow> uk_cols uk ! i)"

lemma column_inv:
  assumes "store_inv env ncols m fresh st" "i < ncols"
  shows "col_inv env (ss_seq st) (column st k i)" "fresh \<inter> cn_addr ` set (col_list (column st k i)) = {}"
    "req_ready (k, word_of_nat i) (column st k i) st"
  using assms
  by (auto simp: store_inv_def key_inv_def column_def ColumnData_init_def col_inv_def column_ok_def req_ready_def
      unsubmitted_def split: option.splits)

lemma KeyHashMapFindOrInsertUserKey_ok:
  assumes "store_inv env ncols (Suc m) fresh st" "env_ok env ncols"
  shows "\<exists>new uk. KeyHashMapFindOrInsertUserKey env key st = Some (new, uk, st\<lparr>ss_keys := (ss_keys st)(key \<mapsto> uk)\<rparr>)
    \<and> \<not> IsEvictionPrepared uk \<and> length (uk_cols uk) = ncols \<and> uk_ref_cnt uk \<noteq> 0 \<and> unat (uk_ref_cnt uk) + m < 2 ^ 16
    \<and> (\<forall>i < ncols. uk_cols uk ! i = column st key i)"
proof (cases "ss_keys st key")
  case None
  obtain sz where "AllocUserKey env (length key) = UserKey_new ncols sz" using assms(2) unfolding env_ok_def by blast
  then show ?thesis using None assms(1)
    by (intro exI[of _ True] exI[of _ "InitUserKey key (UserKey_new ncols sz)"])
       (simp add: KeyHashMapFindOrInsertUserKey_def FindUserKeyFromHashMap_def InsertUserKeyToHashMap_def InitUserKey_def
        UserKey_new_def Let_def column_def IsEvictionPrepared_def store_inv_def)
next
  case (Some uk)
  then have k: "\<not> IsEvictionPrepared uk" "length (uk_cols uk) = ncols" "unat (uk_ref_cnt uk) + Suc m < 2 ^ 16"
    using assms(1) by (auto simp: store_inv_def key_inv_def)
  have r: "unat (uk_ref_cnt uk + 1) = unat (uk_ref_cnt uk) + 1" using k(3) by (simp add: unat_word_ariths)
  then have "uk_ref_cnt uk + 1 \<noteq> 0" by (metis add_is_0 one_neq_zero unat_0)
  then show ?thesis using Some k r
    by (intro exI[of _ False] exI[of _ "IncreaseReferenceCount uk"])
       (simp add: KeyHashMapFindOrInsertUserKey_def FindUserKeyFromHashMap_def IncreaseUserKeyReference_def
        IsSKTableEvictionInProgress_def IncreaseReferenceCount_def column_def IsEvictionPrepared_def)
qed

lemma col_inv_mono: "col_inv env b c \<Longrightarrow> b \<le> b' \<Longrightarrow> col_inv env b' c"
  by (auto simp: col_inv_def)

text \<open>Reassembling the invariant after one column of one key has changed.\<close>

lemma store_inv_update:
  assumes inv: "store_inv env ncols (Suc m) fresh st" and nc: "ncols \<le> 2 ^ 16" and cl: "unat col_id < ncols"
    and keys: "ss_keys st' = (ss_keys st)(key \<mapsto> uk)" and seq: "ss_seq st' = ss_seq st + 1"
    and req: "\<forall>kc. kc \<noteq> (key, col_id) \<longrightarrow> ss_req_of st' kc = ss_req_of st kc" "reqs_grow (ss_reqs st) (ss_reqs st')"
    and tr: "trxn_inv (ss_trxns st')" "group_no (next_trxn_id (ss_trxns st')) \<le> group_no (next_trxn_id (ss_trxns st)) + 1"
    and uk: "\<not> IsEvictionPrepared uk" "length (uk_cols uk) = ncols" "unat (uk_ref_cnt uk) + m < 2 ^ 16"
      "\<forall>i < ncols. i \<noteq> unat col_id \<longrightarrow> uk_cols uk ! i = column st key i"
    and col: "col_inv env (ss_seq st + 1) (uk_cols uk ! unat col_id)" "req_ready (key, col_id) (uk_cols uk ! unat col_id) st'"
      "fresh' \<inter> cn_addr ` set (col_list (uk_cols uk ! unat col_id)) = {}" and fr: "fresh' \<subseteq> fresh"
  shows "store_inv env ncols m fresh' st'"
proof -
  have sq: "unat (ss_seq st + 1) = unat (ss_seq st) + 1" "ss_seq st \<le> ss_seq st + 1"
    using inv unat_less_exp[of ULONG_MAX] by (auto simp: store_inv_def unat_word_ariths word_le_nat_alt)
  have ix: "(k, word_of_nat i) \<noteq> (key, col_id)" if "i < ncols" "k \<noteq> key \<or> i \<noteq> unat col_id" for k i
  proof -
    have "unat (word_of_nat i :: u16) = i" using that(1) nc unfolding unsigned_of_nat by (simp add: take_bit_nat_eq_self)
    then show ?thesis using that(2) by auto
  qed
  have old: "col_inv env (ss_seq st') (column st k i) \<and> fresh' \<inter> cn_addr ` set (col_list (column st k i)) = {}
      \<and> req_ready (k, word_of_nat i) (column st k i) st'" if "i < ncols" "k \<noteq> key \<or> i \<noteq> unat col_id" for k i
    using column_inv[OF inv that(1), of k] col_inv_mono[OF _ sq(2)] fr req(1) ix[OF that] seq
      req_ready_grow[OF _ req(2), of "(k, word_of_nat i)"] by auto
  have "key_inv env ncols m fresh' st' k u" if "ss_keys st' k = Some u" for k u
  proof (cases "k = key")
    case True
    have "col_inv env (ss_seq st') (uk_cols uk ! i) \<and> fresh' \<inter> cn_addr ` set (col_list (uk_cols uk ! i)) = {}
        \<and> req_ready (key, word_of_nat i) (uk_cols uk ! i) st'" if "i < ncols" for i
      using old[OF that, of key] uk(4) that col seq by (cases "i = unat col_id") auto
    moreover have "u = uk" using True that keys by simp
    ultimately show ?thesis using True uk(1-3) unfolding key_inv_def by blast
  next
    case False
    then have k: "ss_keys st k = Some u" using that keys by simp
    then have "column st k i = uk_cols u ! i" for i by (simp add: column_def)
    moreover have "key_inv env ncols (Suc m) fresh st k u" using inv k by (simp add: store_inv_def)
    ultimately show ?thesis using old[of _ k] False by (simp add: key_inv_def)
  qed
  then show ?thesis using inv keys req(1) tr sq(1) seq by (auto simp: store_inv_def)
qed

lemma SetDirty_fields [simp]:
  "IsEvictionPrepared (snd (SetDirty u)) = IsEvictionPrepared u" "uk_cols (snd (SetDirty u)) = uk_cols u"
  "uk_ref_cnt (snd (SetDirty u)) = uk_ref_cnt u"
  by (simp_all add: SetDirty_def fetch_or_flag_def IsEvictionPrepared_def bit.conj_disj_distrib2 flags_userkey_dirty_def
      flags_evict_prepare_def)

lemma evict_fields [simp]:
  "IsEvictionPrepared (u\<lparr>uk_cols := cs\<rparr>) = IsEvictionPrepared u"
  "IsEvictionPrepared (u\<lparr>uk_ref_cnt := r\<rparr>) = IsEvictionPrepared u"
  by (simp_all add: IsEvictionPrepared_def)

lemma UserKey_UpdateColumn_eq:
  assumes "unat col_id < length (uk_cols uk)" "UpdateColumn n force (uk_cols uk ! unat col_id) = Inr (st, pf, c)"
  shows "UserKey_UpdateColumn n col_id force uk = Inr (st,
    (if st = kFailInsert then uk\<lparr>uk_cols := (uk_cols uk)[unat col_id := c]\<rparr>
     else snd (SetDirty (uk\<lparr>uk_cols := (uk_cols uk)[unat col_id := c]\<rparr>))))"
  using assms by (simp add: UserKey_UpdateColumn_def with_column_def)

lemma batch_first_id:
  assumes "trxn_inv ts" "group_no (next_trxn_id ts) + 1 < 2 ^ 27" "batch_inv (Suc m) trxn st" "ss_trxns st = ts"
    and "(trxn', ts') = (if t_count trxn > 1 \<and> t_id trxn = 0
           then (let (i, ts) = GetTrxnID (t_count trxn) ts in (trxn\<lparr>t_id := i\<rparr>, ts)) else (trxn, ts))"
  shows "trxn_inv ts'" "group_no (next_trxn_id ts') \<le> group_no (next_trxn_id ts) + 1" "trxn_wf trxn'"
    "batch_inv m (trxn'\<lparr>t_seq_number := t_seq_number trxn' + 1\<rparr>) (st'\<lparr>ss_trxns := ts'\<rparr>)"
proof -
  have c: "unat (t_count trxn) = unat (t_seq_number trxn) + Suc m" using assms(3) by (simp add: batch_inv_def)
  then have sq: "unat (t_seq_number trxn + 1) = unat (t_seq_number trxn) + 1"
    using unat_less_exp[of "t_count trxn"] by (simp add: unat_word_ariths)
  have "trxn_inv ts' \<and> group_no (next_trxn_id ts') \<le> group_no (next_trxn_id ts) + 1 \<and> trxn_wf trxn'
    \<and> batch_inv m (trxn'\<lparr>t_seq_number := t_seq_number trxn' + 1\<rparr>) (st'\<lparr>ss_trxns := ts'\<rparr>)"
  proof (cases "t_count trxn > 1 \<and> t_id trxn = 0")
    case False
    then have "trxn' = trxn" "ts' = ts" using assms(5) by auto
    then show ?thesis using assms(1,3,4) c sq by (auto simp: batch_inv_def trxn_wf_def)
  next
    case True
    obtain i where i: "GetTrxnID (t_count trxn) ts = (i, ts')" "trxn' = trxn\<lparr>t_id := i\<rparr>"
      using True assms(5) by (auto split: prod.splits)
    have o: "outstanding ts (tgid_of (next_trxn_id ts)) + unat (t_count trxn) < 2 ^ 32" "t_count trxn \<noteq> 0"
      using True assms(3,4) by (auto simp: batch_inv_def)
    note g = GetTrxnID_ok[OF assms(1) o(2) assms(2) o(1) i(1)]
    have "unat (tgid_of i) = group_no i" "0 < group_no i" "group_no i < 2 ^ 27"
      using g(2) assms(1,2) unat_tgid_of by (auto simp: trxn_inv_def)
    moreover from this have "tgid_of i \<noteq> 0" "i \<noteq> 0" by (auto simp: group_no_def)
    ultimately show ?thesis using g c sq i(2) by (auto simp: batch_inv_def trxn_wf_def)
  qed
  then show "trxn_inv ts'" "group_no (next_trxn_id ts') \<le> group_no (next_trxn_id ts) + 1" "trxn_wf trxn'"
    "batch_inv m (trxn'\<lparr>t_seq_number := t_seq_number trxn' + 1\<rparr>) (st'\<lparr>ss_trxns := ts'\<rparr>)" by auto
qed

lemma batch_drop:
  assumes "trxn_inv ts" "group_no (next_trxn_id ts) + 1 < 2 ^ 27" "batch_inv (Suc m) trxn st" "ss_trxns st = ts"
  shows "\<exists>ts'. (if t_id trxn \<noteq> 0 then DecTrxnGroup (tgid_of (t_id trxn)) 1 ts else Inr ts) = Inr ts' \<and> trxn_inv ts'
    \<and> group_no (next_trxn_id ts') \<le> group_no (next_trxn_id ts) + 1
    \<and> batch_inv m (trxn\<lparr>t_count := t_count trxn - 1\<rparr>) (st'\<lparr>ss_trxns := ts'\<rparr>)"
proof -
  have c: "unat (t_count trxn) = unat (t_seq_number trxn) + Suc m" using assms(3) by (simp add: batch_inv_def)
  then have t: "unat (t_count trxn - 1) = unat (t_seq_number trxn) + m" by (subst unat_sub) (auto simp: word_le_nat_alt)
  show ?thesis
  proof (cases "t_id trxn = 0")
    case True
    have o: "\<forall>g. outstanding ts g + unat (t_count trxn) < 2 ^ 32" using True assms(3,4) unfolding batch_inv_def by auto
    have "outstanding ts g + unat (t_count trxn - 1) < 2 ^ 32" for g using spec[OF o, of g] c t by linarith
    then show ?thesis using True assms(1,3) t by (auto simp: batch_inv_def trxn_wf_def)
  next
    case False
    have "unat (1 :: u32) \<le> outstanding ts (tgid_of (t_id trxn))" using False assms(3,4) by (auto simp: batch_inv_def)
    from DecTrxnGroup_ok[OF assms(1) this assms(2)] show ?thesis
      using False assms(3,4) t by (auto simp: batch_inv_def trxn_wf_def)
  qed
qed

lemma column_update:
  "ss_keys st' = (ss_keys st)(key \<mapsto> uk) \<Longrightarrow> column st' k i = (if k = key then uk_cols uk ! i else column st k i)"
  by (simp add: column_def)

lemma store_inv_values: "store_inv env ncols m fresh (st\<lparr>ss_values := v\<rparr>) = store_inv env ncols m fresh st"
  by (simp add: store_inv_def key_inv_def req_ready_def)

lemma node_ok_seq [simp]:
  "node_ok env (UpdateSequenceNumber q n) = node_ok env n" "cn_addr (UpdateSequenceNumber q n) = cn_addr n"
  "ikey_seq (UpdateSequenceNumber q n) = ikey_seq n" "begin_seq (UpdateSequenceNumber q n) = q"
  "end_seq (UpdateSequenceNumber q n) = ULONG_MAX" "GetRequestType (UpdateSequenceNumber q n) = GetRequestType n"
  by (simp_all add: UpdateSequenceNumber_def node_ok_def IsDropped_def has_flag_def GetRequestType_def GetUserValue_def)

lemma dec_ref: "ref \<noteq> 0 \<Longrightarrow> unat ref + m < 2 ^ 16 \<Longrightarrow> unat (ref - 1) + m < 2 ^ 16" for ref :: u16
  using unat_minus_one[of ref] by simp

text \<open>What remains of \<open>Store\<close> once the version is in its column.\<close>

definition finish_store :: "u64 \<Rightarrow> bytes \<Rightarrow> u16 \<Rightarrow> Transaction \<Rightarrow> InsertColumnNodeStatus \<Rightarrow> ColumnData \<Rightarrow> UserKey \<Rightarrow> StoreState
    \<Rightarrow> (Transaction \<times> StoreState) option run" where
  "finish_store a key col_id trxn stat c1 uk st =
     (if stat = kFailInsert then
        bind_run (if t_id trxn \<noteq> 0 then DecTrxnGroup (tgid_of (t_id trxn)) 1 (ss_trxns st) else Inr (ss_trxns st)) (\<lambda>ts.
          Inr (Some (trxn\<lparr>t_count := t_count trxn - 1\<rparr>,
                     st\<lparr>ss_trxns := ts, ss_keys := (ss_keys st)(key \<mapsto> snd (DecreaseReferenceCount uk))\<rparr>)))
      else
        (let (trxn, ts) = (if t_count trxn > 1 \<and> t_id trxn = 0
                           then (let (i, ts) = GetTrxnID (t_count trxn) (ss_trxns st) in (trxn\<lparr>t_id := i\<rparr>, ts))
                           else (trxn, ss_trxns st));
             uk1 = snd (SetDirty (uk\<lparr>uk_cols := (uk_cols uk)[unat col_id := c1]\<rparr>))
         in bind_run (schedule trxn a stat (key, col_id) c1 (st\<lparr>ss_trxns := ts\<rparr>)) (\<lambda>(merged, c, st).
              let uk = (if merged then snd (DecreaseReferenceCount uk1) else uk1)
              in Inr (Some (trxn\<lparr>t_seq_number := t_seq_number trxn + 1\<rparr>, set_column key uk col_id c st)))))"

lemma Store_prepare:
  assumes "env_ok env ncols" "store_inv env ncols (Suc m) fresh st" "store_op_ok env ncols fresh (a, key, val, col_id, type)"
  shows "\<exists>s1 uk stat c1. Store env a key val col_id type trxn st = finish_store a key col_id trxn stat c1 uk s1
    \<and> ss_keys s1 = (ss_keys st)(key \<mapsto> uk) \<and> ss_seq s1 = ss_seq st + 1 \<and> ss_trxns s1 = ss_trxns st
    \<and> ss_req_of s1 = ss_req_of st \<and> ss_reqs s1 = ss_reqs st
    \<and> (\<forall>x. x \<noteq> value_addr env a \<longrightarrow> ss_values s1 x = ss_values st x)
    \<and> (type = kPutType \<longrightarrow> (\<exists>u. ss_values s1 (value_addr env a) = Some u \<and> ReadValue u = Inr val))
    \<and> \<not> IsEvictionPrepared uk \<and> length (uk_cols uk) = ncols \<and> uk_ref_cnt uk \<noteq> 0 \<and> unat (uk_ref_cnt uk) + m < 2 ^ 16
    \<and> (\<forall>i < ncols. uk_cols uk ! i = column st key i)
    \<and> new_column env a type (ss_seq st + 1) stat (column st key (unat col_id)) c1"
proof -
  have op: "a \<in> fresh" "a \<noteq> 0" "unat col_id < ncols" using assms(3) by (auto simp: store_op_ok_def)
  obtain n uvs where n: "make_node env a key val col_id type st = Inr (n, st\<lparr>ss_values := uvs\<rparr>)"
    "cn_addr n = a" "ikey_seq n = 0" "node_ok env n" "GetRequestType n = type"
    and uvs: "\<forall>x. x \<noteq> value_addr env a \<longrightarrow> uvs x = ss_values st x"
    "type = kPutType \<longrightarrow> (\<exists>u. uvs (value_addr env a) = Some u \<and> ReadValue u = Inr val)"
    using make_node_ok[OF assms(1,3), of st] by blast
  have inv: "store_inv env ncols (Suc m) fresh (st\<lparr>ss_values := uvs\<rparr>)" using assms(2) by (simp add: store_inv_values)
  have cs: "column (st\<lparr>ss_values := uvs\<rparr>) = column st" by (simp add: column_def fun_eq_iff)
  obtain new uk where uk: "KeyHashMapFindOrInsertUserKey env key (st\<lparr>ss_values := uvs\<rparr>)
      = Some (new, uk, st\<lparr>ss_values := uvs, ss_keys := (ss_keys st)(key \<mapsto> uk)\<rparr>)" "\<not> IsEvictionPrepared uk"
    "length (uk_cols uk) = ncols" "uk_ref_cnt uk \<noteq> 0" "unat (uk_ref_cnt uk) + m < 2 ^ 16"
    "\<forall>i < ncols. uk_cols uk ! i = column st key i"
    using KeyHashMapFindOrInsertUserKey_ok[OF inv assms(1), of key] cs by auto
  let ?c0 = "column st key (unat col_id)" and ?q = "ss_seq st + 1"
  have q: "ss_seq st < ?q" "?q < ULONG_MAX" using assms(2) unat_less_exp[of ULONG_MAX]
    by (auto simp: store_inv_def word_less_nat_alt unat_word_ariths)
  have an: "a \<notin> cn_addr ` set (col_list ?c0)" using column_inv(2)[OF assms(2) op(3), of key] op(1) by auto
  define force where "force = (t_count trxn > 1 \<and> t_seq_number trxn = t_count trxn - 1)"
  obtain stat pf c1 where c1: "UpdateColumn (UpdateSequenceNumber ?q n) force ?c0 = Inr (stat, pf, c1)"
    "new_column env a type ?q stat ?c0 c1"
    using UpdateColumn_col[OF column_inv(1)[OF assms(2) op(3)] q _ op(2) an, of "UpdateSequenceNumber ?q n" force] n(2-5) by auto
  have "UserKey_UpdateColumn (UpdateSequenceNumber ?q n) col_id force uk = Inr (stat,
      (if stat = kFailInsert then uk\<lparr>uk_cols := (uk_cols uk)[unat col_id := c1]\<rparr>
       else snd (SetDirty (uk\<lparr>uk_cols := (uk_cols uk)[unat col_id := c1]\<rparr>))))"
    using op(3) uk(3,6) c1(1) by (intro UserKey_UpdateColumn_eq) auto
  moreover have "stat = kFailInsert \<Longrightarrow> (uk_cols uk)[unat col_id := c1] = uk_cols uk"
    using c1(2) uk(6) op(3) by (auto simp: new_column_def) (metis list_update_id)
  moreover define s0 where "s0 = st\<lparr>ss_values := uvs, ss_keys := (ss_keys st)(key \<mapsto> uk)\<rparr>"
  moreover define s1 where "s1 = (if new then s0\<lparr>ss_active := ss_active s0 @ [key]\<rparr> else s0)\<lparr>ss_seq := ?q\<rparr>"
  ultimately have "Store env a key val col_id type trxn st = finish_store a key col_id trxn stat c1 uk s1"
    using n(1) uk(1,3,4) op(3)
    by (cases new; cases "stat = kFailInsert")
       (simp_all add: Store_def finish_store_def GenerateSequenceNumber_def force_def[symmetric] Let_def)
  then show ?thesis using uvs uk(2-6) c1(2) by (intro exI[of _ s1] exI) (auto simp: s1_def s0_def)
qed

text \<open>The situation after \<open>Store_prepare\<close>.\<close>

definition prepared :: "StoreEnv \<Rightarrow> nat \<Rightarrow> nat \<Rightarrow> u64 set \<Rightarrow> StoreState \<Rightarrow> u64 \<Rightarrow> bytes \<Rightarrow> u16 \<Rightarrow> RequestType
    \<Rightarrow> InsertColumnNodeStatus \<Rightarrow> ColumnData \<Rightarrow> UserKey \<Rightarrow> StoreState \<Rightarrow> bool" where
  "prepared env ncols m fresh st a key col_id type stat c1 uk s1 =
     (store_inv env ncols (Suc m) fresh st \<and> ncols \<le> 2 ^ 16 \<and> unat col_id < ncols \<and> a \<in> fresh \<and> a \<noteq> 0
      \<and> ss_keys s1 = (ss_keys st)(key \<mapsto> uk) \<and> ss_seq s1 = ss_seq st + 1 \<and> ss_trxns s1 = ss_trxns st
      \<and> ss_req_of s1 = ss_req_of st \<and> ss_reqs s1 = ss_reqs st
      \<and> \<not> IsEvictionPrepared uk \<and> length (uk_cols uk) = ncols \<and> uk_ref_cnt uk \<noteq> 0 \<and> unat (uk_ref_cnt uk) + m < 2 ^ 16
      \<and> (\<forall>i < ncols. uk_cols uk ! i = column st key i)
      \<and> new_column env a type (ss_seq st + 1) stat (column st key (unat col_id)) c1)"

definition answers_changed :: "nat \<Rightarrow> u64 \<Rightarrow> bytes \<Rightarrow> u16 \<Rightarrow> RequestType \<Rightarrow> StoreState \<Rightarrow> StoreState \<Rightarrow> bool" where
  "answers_changed ncols a key col_id type st st' =
     (\<forall>k i s. i < ncols \<longrightarrow> answer_at (col_list (column st' k i)) s =
        (if k = key \<and> i = unat col_id \<and> ss_seq st + 1 \<le> s then (if type = kDelType then Deleted else Value a)
         else answer_at (col_list (column st k i)) s))"

lemma batch_inv_trxns: "ss_trxns st = ss_trxns st' \<Longrightarrow> batch_inv m t st = batch_inv m t st'"
  by (simp add: batch_inv_def)

lemma reqs_grow_refl: "reqs_grow rs rs"
  by (simp add: reqs_grow_def)

lemma finish_fail:
  assumes p: "prepared env ncols m fresh st a key col_id type kFailInsert c1 uk s1" and b: "batch_inv (Suc m) trxn st"
  shows "\<exists>trxn' st'. finish_store a key col_id trxn kFailInsert c1 uk s1 = Inr (Some (trxn', st'))
    \<and> store_inv env ncols m (fresh - {a}) st' \<and> batch_inv m trxn' st' \<and> ss_seq st' = ss_seq st + 1
    \<and> ss_values st' = ss_values s1 \<and> answers_changed ncols a key col_id type st st'"
proof -
  note q = p[unfolded prepared_def]
  have inv: "store_inv env ncols (Suc m) fresh st" and cl: "unat col_id < ncols" using q by auto
  note ci = column_inv[OF inv cl, of key]
  have tr: "trxn_inv (ss_trxns st)" "group_no (next_trxn_id (ss_trxns st)) + 1 < 2 ^ 27" using inv by (auto simp: store_inv_def)
  let ?uk = "snd (DecreaseReferenceCount uk)"
  obtain ts where ts: "(if t_id trxn \<noteq> 0 then DecTrxnGroup (tgid_of (t_id trxn)) 1 (ss_trxns st) else Inr (ss_trxns st)) = Inr ts"
    "trxn_inv ts" "group_no (next_trxn_id ts) \<le> group_no (next_trxn_id (ss_trxns st)) + 1"
    "batch_inv m (trxn\<lparr>t_count := t_count trxn - 1\<rparr>) (s1\<lparr>ss_trxns := ts\<rparr>)"
    using batch_drop[OF tr b refl, of s1] by blast
  define st' where "st' = s1\<lparr>ss_trxns := ts, ss_keys := (ss_keys s1)(key \<mapsto> ?uk)\<rparr>"
  have k: "ss_keys st' = (ss_keys st)(key \<mapsto> ?uk)" using q by (simp add: st'_def)
  have u: "uk_cols ?uk = uk_cols uk" "IsEvictionPrepared ?uk = IsEvictionPrepared uk" "uk_ref_cnt ?uk = uk_ref_cnt uk - 1"
    by (simp_all add: DecreaseReferenceCount_def IsEvictionPrepared_def)
  have "ss_seq st \<le> ss_seq st + 1" using inv unat_less_exp[of ULONG_MAX]
    by (auto simp: store_inv_def word_le_nat_alt unat_word_ariths)
  then have "col_inv env (ss_seq st + 1) (column st key (unat col_id))" using ci(1) col_inv_mono by blast
  moreover have "req_ready (key, col_id) (column st key (unat col_id)) st'"
    using ci(3) q by (simp add: req_ready_def st'_def)
  ultimately have "store_inv env ncols m (fresh - {a}) st'"
    using q ci(2) u ts(2,3) dec_ref[of "uk_ref_cnt uk" m] reqs_grow_refl
    by (intro store_inv_update[OF inv _ cl k]) (auto simp: st'_def)
  moreover have "batch_inv m (trxn\<lparr>t_count := t_count trxn - 1\<rparr>) st'"
    using ts(4) batch_inv_trxns[of "s1\<lparr>ss_trxns := ts\<rparr>" st'] by (simp add: st'_def)
  moreover have "finish_store a key col_id trxn kFailInsert c1 uk s1 = Inr (Some (trxn\<lparr>t_count := t_count trxn - 1\<rparr>, st'))"
    using ts(1) q by (cases "t_id trxn = 0") (simp_all add: finish_store_def st'_def)
  moreover have "answer_at (col_list (column st key (unat col_id))) s = (if type = kDelType then Deleted else Value a)"
    if "ss_seq st + 1 \<le> s" for s
  proof -
    have "new_column env a type (ss_seq st + 1) kFailInsert (column st key (unat col_id)) c1" using q by simp
    then have "c1 = column st key (unat col_id)" "\<forall>s. answer_at (col_list c1) s = (if ss_seq st + 1 \<le> s
        then (if type = kDelType then Deleted else Value a) else answer_at (col_list (column st key (unat col_id))) s)"
      unfolding new_column_def by blast+
    then show ?thesis using that by (metis (full_types))
  qed
  then have "answers_changed ncols a key col_id type st st'"
    using q u(1) unfolding answers_changed_def column_update[OF k] by simp
  ultimately show ?thesis using q by (auto simp: st'_def)
qed

lemma scheduled_column:
  assumes "new_column env a type q stat c0 c1" "stat \<noteq> kFailInsert" "column_ok c0" "a \<noteq> 0" "a \<notin> cn_addr ` set (col_list c0)"
    and "benign f" "col_list c2 = map f (col_list c1)" "latest_col_node c2 = a" "fresh \<inter> cn_addr ` set (col_list c0) = {}"
  shows "col_inv env q c2" "(fresh - {a}) \<inter> cn_addr ` set (col_list c2) = {}"
    "answer_at (col_list c2) s = (if q \<le> s then (if type = kDelType then Deleted else Value a) else answer_at (col_list c0) s)"
proof -
  note bc = benign_col[OF assms(6,7)]
  have m: "map cn_addr (col_list c2) = a # map cn_addr (col_list c0)" using bc(3) assms(1,2) by (simp add: new_column_def)
  then have st: "cn_addr ` set (col_list c2) = insert a (cn_addr ` set (col_list c0))" by (metis list.set_map list.simps(15))
  obtain h t where ht: "col_list c2 = h # t" "cn_addr h = a" using m by (cases "col_list c2") auto
  have "distinct (map cn_addr (col_list c2))" using m assms(3,5) by (simp add: column_ok_def)
  moreover have "0 \<notin> cn_addr ` set (col_list c2)" using st assms(3,4) by (simp add: column_ok_def)
  moreover have "versions_ok (col_list c2)" using bc(4) assms(1) by (simp add: new_column_def)
  ultimately have "column_ok c2" using ht assms(8) unfolding column_ok_def by simp
  moreover have "\<forall>n \<in> set (col_list c2). node_ok env n \<and> begin_seq n \<le> q" using bc(5) assms(1) unfolding new_column_def by blast
  ultimately show "col_inv env q c2" by (simp add: col_inv_def)
  show "(fresh - {a}) \<inter> cn_addr ` set (col_list c2) = {}" using st assms(9) by auto
  show "answer_at (col_list c2) s = (if q \<le> s then (if type = kDelType then Deleted else Value a) else answer_at (col_list c0) s)"
    using bc(1) assms(1) by (simp add: new_column_def)
qed

lemma latest_in_new_column:
  assumes "new_column env a type q stat c0 c1" "stat \<noteq> kFailInsert" "column_ok c0" "unsubmitted c0"
  shows "\<exists>n \<in> set (col_list c1). cn_addr n = latest_col_node c1"
proof -
  obtain h t where h: "col_list c0 = h # t" using assms(4) by (auto simp: unsubmitted_def neq_Nil_conv)
  then have l: "latest_col_node c1 = cn_addr h" using assms(1,3) by (simp add: new_column_def column_ok_def)
  have "cn_addr h \<in> set (map cn_addr (col_list c1))" using assms(1,2) h by (simp add: new_column_def)
  then show ?thesis using l by auto
qed

lemma finish_ok:
  assumes p: "prepared env ncols m fresh st a key col_id type stat c1 uk s1" and b: "batch_inv (Suc m) trxn st"
    and ns: "stat \<noteq> kFailInsert"
  shows "\<exists>trxn' st'. finish_store a key col_id trxn stat c1 uk s1 = Inr (Some (trxn', st'))
    \<and> store_inv env ncols m (fresh - {a}) st' \<and> batch_inv m trxn' st' \<and> ss_seq st' = ss_seq st + 1
    \<and> ss_values st' = ss_values s1 \<and> answers_changed ncols a key col_id type st st'"
proof -
  note q = p[unfolded prepared_def]
  let ?c0 = "column st key (unat col_id)"
  have inv: "store_inv env ncols (Suc m) fresh st" and cl: "unat col_id < ncols"
    and nc: "new_column env a type (ss_seq st + 1) stat ?c0 c1" using q by auto
  note ci = column_inv[OF inv cl, of key]
  have tr: "trxn_inv (ss_trxns st)" "group_no (next_trxn_id (ss_trxns st)) + 1 < 2 ^ 27" using inv by (auto simp: store_inv_def)
  obtain t1 ts where tt: "(t1, ts) = (if t_count trxn > 1 \<and> t_id trxn = 0
      then (let (i, ts) = GetTrxnID (t_count trxn) (ss_trxns st) in (trxn\<lparr>t_id := i\<rparr>, ts)) else (trxn, ss_trxns st))"
    by (metis surj_pair)
  note bf = batch_first_id[OF tr b refl tt]
  define uk1 where "uk1 = snd (SetDirty (uk\<lparr>uk_cols := (uk_cols uk)[unat col_id := c1]\<rparr>))"
  have rr: "req_ready (key, col_id) ?c0 (s1\<lparr>ss_trxns := ts\<rparr>)" using ci(3) q by (simp add: req_ready_def)
  have c0: "column_ok ?c0" using ci(1) by (simp add: col_inv_def)
  have an: "a \<noteq> 0" "a \<notin> cn_addr ` set (col_list ?c0)" using q ci(2) by auto
  have lt: "unsubmitted ?c0 \<longrightarrow> (\<exists>n \<in> set (col_list c1). cn_addr n = latest_col_node c1)"
    using latest_in_new_column[OF nc ns c0] by blast
  have "stat = (if unsubmitted ?c0 then kHasBeenScheduled else kNeedToSchedule)" "last_tgid c1 = last_tgid ?c0" "unsubmitted c1"
    using nc ns by (auto simp: new_column_def)
  from schedule_ok[OF bf(3) rr this(2,3) lt, of a] this(1)
  obtain merged c2 s2 f where s2: "schedule t1 a stat (key, col_id) c1 (s1\<lparr>ss_trxns := ts\<rparr>) = Inr (merged, c2, s2)" "benign f"
    "col_list c2 = map f (col_list c1)" "latest_col_node c2 = a" "req_ready (key, col_id) c2 s2" "same_rest (s1\<lparr>ss_trxns := ts\<rparr>) s2"
    "\<forall>kc'. kc' \<noteq> (key, col_id) \<longrightarrow> ss_req_of s2 kc' = ss_req_of st kc'"
    using q unfolding scheduled_def by auto
  define uk2 where "uk2 = (if merged then snd (DecreaseReferenceCount uk1) else uk1)\<lparr>uk_cols := (uk_cols uk1)[unat col_id := c2]\<rparr>"
  define st' where "st' = s2\<lparr>ss_keys := (ss_keys st)(key \<mapsto> uk2)\<rparr>"
  note sc = scheduled_column[OF nc ns c0 an s2(2-4) ci(2)]
  have fin: "finish_store a key col_id trxn stat c1 uk s1 = Inr (Some (t1\<lparr>t_seq_number := t_seq_number t1 + 1\<rparr>, st'))"
  proof -
    have e: "ss_trxns s1 = ss_trxns st" "ss_keys s2 = (ss_keys st)(key \<mapsto> uk)" using q s2(6) by (auto simp: same_rest_def)
    have "finish_store a key col_id trxn stat c1 uk s1 = Inr (Some (t1\<lparr>t_seq_number := t_seq_number t1 + 1\<rparr>,
        set_column key (if merged then snd (DecreaseReferenceCount uk1) else uk1) col_id c2 s2))"
      unfolding finish_store_def e(1) unfolding tt[symmetric] by (simp add: ns s2(1) uk1_def Let_def)
    then show ?thesis using e(2) by (simp add: set_column_def st'_def uk2_def DecreaseReferenceCount_def)
  qed
  have k: "ss_keys st' = (ss_keys st)(key \<mapsto> uk2)" by (simp add: st'_def)
  have u: "uk_cols uk2 = (uk_cols uk)[unat col_id := c2]" "IsEvictionPrepared uk2 = IsEvictionPrepared uk"
    "unat (uk_ref_cnt uk2) + m < 2 ^ 16"
    using q dec_ref[of "uk_ref_cnt uk" m] by (auto simp: uk2_def uk1_def DecreaseReferenceCount_def)
  have "store_inv env ncols m (fresh - {a}) st'"
    using q u sc s2(5-7) bf(1,2) an
    by (intro store_inv_update[OF inv _ cl k]) (auto simp: st'_def same_rest_def req_ready_def)
  moreover have "batch_inv m (t1\<lparr>t_seq_number := t_seq_number t1 + 1\<rparr>) st'"
    using bf(4)[of s1] batch_inv_trxns[of "s1\<lparr>ss_trxns := ts\<rparr>" st'] s2(6) by (simp add: st'_def same_rest_def)
  moreover have "answers_changed ncols a key col_id type st st'"
    using q u(1) sc(3) unfolding answers_changed_def column_update[OF k] by (auto simp: nth_list_update)
  ultimately show ?thesis using fin q s2(6) by (auto simp: st'_def same_rest_def)
qed

text \<open>One request: it succeeds, keeps the invariants, and exactly the versions from its sequence number on change, in its column only.\<close>

lemma Store_ok:
  assumes "env_ok env ncols" "store_inv env ncols (Suc m) fresh st" "batch_inv (Suc m) trxn st"
    and "store_op_ok env ncols fresh (a, key, val, col_id, type)"
  shows "\<exists>trxn' st'. Store env a key val col_id type trxn st = Inr (Some (trxn', st'))
     \<and> store_inv env ncols m (fresh - {a}) st' \<and> batch_inv m trxn' st' \<and> ss_seq st' = ss_seq st + 1
     \<and> (\<forall>x. x \<noteq> value_addr env a \<longrightarrow> ss_values st' x = ss_values st x)
     \<and> (type = kPutType \<longrightarrow> (\<exists>u. ss_values st' (value_addr env a) = Some u \<and> ReadValue u = Inr val))
     \<and> answers_changed ncols a key col_id type st st'"
proof -
  obtain s1 uk stat c1 where s: "Store env a key val col_id type trxn st = finish_store a key col_id trxn stat c1 uk s1"
    "\<forall>x. x \<noteq> value_addr env a \<longrightarrow> ss_values s1 x = ss_values st x"
    "type = kPutType \<longrightarrow> (\<exists>u. ss_values s1 (value_addr env a) = Some u \<and> ReadValue u = Inr val)"
    "prepared env ncols m fresh st a key col_id type stat c1 uk s1"
    using Store_prepare[OF assms(1,2,4), of trxn] assms(1,2,4) unfolding prepared_def env_ok_def store_op_ok_def by auto
  have "\<exists>trxn' st'. finish_store a key col_id trxn stat c1 uk s1 = Inr (Some (trxn', st'))
    \<and> store_inv env ncols m (fresh - {a}) st' \<and> batch_inv m trxn' st' \<and> ss_seq st' = ss_seq st + 1
    \<and> ss_values st' = ss_values s1 \<and> answers_changed ncols a key col_id type st st'"
  proof (cases "stat = kFailInsert")
    case True
    then show ?thesis using finish_fail[of env ncols m fresh st a key col_id type c1 uk s1 trxn] s(4) assms(3) by simp
  next
    case False
    then show ?thesis using finish_ok[OF s(4) assms(3)] by simp
  qed
  then show ?thesis using s(1-3) by metis
qed

section \<open>Batches\<close>

text \<open>
  The specification of a batch: each request gets the next sequence number, and
  a reader at sequence number \<open>s\<close> sees the last request on its key and column
  whose number is not larger than \<open>s\<close>.
\<close>

fun batch_answer :: "store_op list \<Rightarrow> SequenceNumber \<Rightarrow> bytes \<Rightarrow> nat \<Rightarrow> SequenceNumber \<Rightarrow> answer \<Rightarrow> answer" where
  "batch_answer [] q k i s r = r"
| "batch_answer ((a, key, val, col_id, type) # ops) q k i s r =
     batch_answer ops (q + 1) k i s
       (if k = key \<and> i = unat col_id \<and> q + 1 \<le> s then (if type = kDelType then Deleted else Value a) else r)"

definition store_ops_ok :: "StoreEnv \<Rightarrow> nat \<Rightarrow> u64 set \<Rightarrow> store_op list \<Rightarrow> bool" where
  "store_ops_ok env ncols fresh ops = ((\<forall>op \<in> set ops. store_op_ok env ncols fresh op) \<and> distinct (map fst ops))"

lemma store_ops_ok_addr:
  assumes "store_ops_ok env ncols fresh ops" "a \<in> fst ` set ops"
  shows "a \<in> fresh" "value_addr env b = value_addr env a \<Longrightarrow> b = a"
proof -
  obtain key val col_id type where "(a, key, val, col_id, type) \<in> set ops" using assms(2) by auto
  then have "store_op_ok env ncols fresh (a, key, val, col_id, type)" using assms(1) unfolding store_ops_ok_def by blast
  then show "a \<in> fresh" "value_addr env b = value_addr env a \<Longrightarrow> b = a" by (auto simp: store_op_ok_def)
qed

lemma Store_all_ok:
  assumes "env_ok env ncols" "store_inv env ncols (length ops) fresh st" "batch_inv (length ops) trxn st"
    and "store_ops_ok env ncols fresh ops"
  shows "\<exists>trxn' st'. Store_all env ops trxn st = Inr (Some (trxn', st')) \<and> store_inv env ncols 0 (fresh - fst ` set ops) st'
    \<and> ss_seq st' = ss_seq st + word_of_nat (length ops)
    \<and> (\<forall>x. x \<notin> value_addr env ` fst ` set ops \<longrightarrow> ss_values st' x = ss_values st x)
    \<and> (\<forall>(a, key, val, col_id, type) \<in> set ops. type = kPutType \<longrightarrow>
         (\<exists>u. ss_values st' (value_addr env a) = Some u \<and> ReadValue u = Inr val))
    \<and> (\<forall>k i s. i < ncols \<longrightarrow> answer_at (col_list (column st' k i)) s
         = batch_answer ops (ss_seq st) k i s (answer_at (col_list (column st k i)) s))"
  using assms(2-)
proof (induction ops arbitrary: fresh st trxn)
  case Nil
  then show ?case by simp
next
  case (Cons op ops)
  obtain a key val col_id type where op: "op = (a, key, val, col_id, type)" by (metis prod_cases5)
  have o: "store_op_ok env ncols fresh (a, key, val, col_id, type)" "store_ops_ok env ncols (fresh - {a}) ops" "a \<notin> fst ` set ops"
    using Cons.prems(3) unfolding op by (auto simp: store_ops_ok_def store_op_ok_def image_iff split: prod.splits)
  obtain t1 s1 where s1: "Store env a key val col_id type trxn st = Inr (Some (t1, s1))"
    "store_inv env ncols (length ops) (fresh - {a}) s1" "batch_inv (length ops) t1 s1" "ss_seq s1 = ss_seq st + 1"
    "\<forall>x. x \<noteq> value_addr env a \<longrightarrow> ss_values s1 x = ss_values st x"
    "type = kPutType \<longrightarrow> (\<exists>u. ss_values s1 (value_addr env a) = Some u \<and> ReadValue u = Inr val)"
    "answers_changed ncols a key col_id type st s1"
    using Store_ok[OF assms(1) _ _ o(1), of "length ops" st trxn] Cons.prems(1,2) by auto
  obtain t2 s2 where s2: "Store_all env ops t1 s1 = Inr (Some (t2, s2))" "store_inv env ncols 0 (fresh - {a} - fst ` set ops) s2"
    "ss_seq s2 = ss_seq s1 + word_of_nat (length ops)" "\<forall>x. x \<notin> value_addr env ` fst ` set ops \<longrightarrow> ss_values s2 x = ss_values s1 x"
    "\<forall>(a, key, val, col_id, type) \<in> set ops. type = kPutType \<longrightarrow>
         (\<exists>u. ss_values s2 (value_addr env a) = Some u \<and> ReadValue u = Inr val)"
    "\<forall>k i s. i < ncols \<longrightarrow> answer_at (col_list (column s2 k i)) s
         = batch_answer ops (ss_seq s1) k i s (answer_at (col_list (column s1 k i)) s)"
    using Cons.IH[OF s1(2,3) o(2)] by (elim exE conjE) (rule that; assumption)
  have va: "value_addr env a \<notin> value_addr env ` fst ` set ops" 
  proof
    assume "value_addr env a \<in> value_addr env ` fst ` set ops"
    then obtain b where b: "value_addr env a = value_addr env b" "b \<in> fst ` set ops" by (rule imageE)
    have "\<forall>b. value_addr env b = value_addr env a \<longrightarrow> b = a" using o(1) by (simp add: store_op_ok_def)
    then have "b = a" using b(1) by (metis (no_types))
    then show False using b(2) o(3) by simp
  qed
  have "fresh - fst ` set (op # ops) = fresh - {a} - fst ` set ops" unfolding op by auto
  moreover have "\<forall>k i s. i < ncols \<longrightarrow> answer_at (col_list (column s2 k i)) s
         = batch_answer (op # ops) (ss_seq st) k i s (answer_at (col_list (column st k i)) s)"
    using s2(6) s1(4,7) unfolding op by (simp add: answers_changed_def)
  ultimately show ?case using s1 s2 va unfolding op by (auto simp: algebra_simps)
qed

section \<open>Reading\<close>

text \<open>What a reader at sequence number \<open>s\<close> gets for a key whose values are still in memory.\<close>

definition read_value :: "bytes \<Rightarrow> nat \<Rightarrow> SequenceNumber \<Rightarrow> StoreState \<Rightarrow> bytes option run" where
  "read_value k i s st =
     (case ss_keys st k of
        None \<Rightarrow> Inr None
      | Some uk \<Rightarrow>
          bind_run (GetColumnNode 0 s 0 (uk_cols uk ! i)) (\<lambda>(n, deleted).
            case n of
              None \<Rightarrow> Inr None
            | Some n \<Rightarrow>
                bind_run (of_opt Out_of_bounds (ss_values st (GetUserValue n))) (\<lambda>u.
                bind_run (ReadValue u) (\<lambda>v. Inr (Some v)))))"

fun batch_value :: "store_op list \<Rightarrow> SequenceNumber \<Rightarrow> bytes \<Rightarrow> nat \<Rightarrow> SequenceNumber \<Rightarrow> bytes option run \<Rightarrow> bytes option run" where
  "batch_value [] q k i s r = r"
| "batch_value ((a, key, val, col_id, type) # ops) q k i s r =
     batch_value ops (q + 1) k i s
       (if k = key \<and> i = unat col_id \<and> q + 1 \<le> s then Inr (if type = kDelType then None else Some val) else r)"

definition value_of :: "StoreEnv \<Rightarrow> StoreState \<Rightarrow> answer \<Rightarrow> bytes option run" where
  "value_of env st r =
     (case r of
        Value a \<Rightarrow> bind_run (of_opt Out_of_bounds (ss_values st (value_addr env a))) (\<lambda>u.
                     bind_run (ReadValue u) (\<lambda>v. Inr (Some v)))
      | _ \<Rightarrow> Inr None)"

lemma answer_find:
  "answer_at ns s = Value a \<Longrightarrow> \<exists>n \<in> set ns. cn_addr n = a"
  by (auto simp: answer_at_def answer_of_def find_Some_iff split: option.splits if_splits)

lemma read_value_answer:
  assumes "col_inv env b (column st k i)"
  shows "read_value k i s st = value_of env st (answer_at (col_list (column st k i)) s)"
proof (cases "ss_keys st k")
  case None
  then show ?thesis by (simp add: read_value_def value_of_def column_def ColumnData_init_def)
next
  case (Some uk)
  then have c: "column st k i = uk_cols uk ! i" by (simp add: column_def)
  have ok: "column_ok (uk_cols uk ! i)" using assms c by (simp add: col_inv_def)
  show ?thesis
  proof (cases "find (version_matches s) (col_list (uk_cols uk ! i))")
    case None
    then show ?thesis using Some c GetColumnNode_column[OF ok, of 0 s 0]
      by (simp add: read_value_def value_of_def answer_at_def)
  next
    case f: (Some n)
    then have "node_ok env n" using assms c by (auto simp: col_inv_def find_Some_iff)
    then show ?thesis using Some c f GetColumnNode_column[OF ok, of 0 s 0]
      by (cases "GetRequestType n") (simp_all add: read_value_def value_of_def answer_at_def answer_of_def node_ok_def version_gone_def)
  qed
qed

lemma value_of_batch:
  assumes "\<forall>(a, key, val, col_id, type) \<in> set ops. type = kPutType \<longrightarrow>
     (\<exists>u. ss_values st (value_addr env a) = Some u \<and> ReadValue u = Inr val)"
  shows "value_of env st (batch_answer ops q k i s r) = batch_value ops q k i s (value_of env st r)"
  using assms
proof (induction ops q k i s r rule: batch_answer.induct)
  case (2 a key val col_id type ops q k i s r)
  have "value_of env st (if type = kDelType then Deleted else Value a) = Inr (if type = kDelType then None else Some val)"
    using "2.prems" by (cases type) (auto simp: value_of_def)
  then show ?case using 2 by simp
qed simp

definition batch_trxn :: "store_op list \<Rightarrow> Transaction" where
  "batch_trxn ops = \<lparr>t_count = word_of_nat (length ops), t_seq_number = 0, t_id = 0\<rparr>"

lemma batch_inv_start:
  assumes "length ops < 2 ^ 16" "\<forall>g. outstanding (ss_trxns st) g + length ops < 2 ^ 32"
  shows "batch_inv (length ops) (batch_trxn ops) st"
proof -
  have "unat (word_of_nat (length ops) :: u32) = length ops"
    using assms(1) unfolding unsigned_of_nat by (simp add: take_bit_nat_eq_self)
  then show ?thesis using assms(2) by (simp add: batch_inv_def batch_trxn_def trxn_wf_def)
qed

definition StoreState_init :: StoreState where
  "StoreState_init = \<lparr>ss_keys = Map.empty, ss_values = Map.empty, ss_seq = 1, ss_trxns = TrxnState_init,
     ss_req_of = (\<lambda>_. None), ss_reqs = [], ss_pending = [], ss_active = []\<rparr>"

lemma store_inv_init: "m + 1 < 2 ^ 16 \<Longrightarrow> store_inv env ncols m fresh StoreState_init"
  using trxn_inv_init
  by (simp add: store_inv_def StoreState_init_def ULONG_MAX_def TrxnState_init_def group_no_def TGID_SHIFT_def unsigned_minus_1_eq_mask mask_eq_exp_minus_1)

lemma Store_all_reads:
  assumes "env_ok env ncols" "store_inv env ncols (length ops) fresh st"
    and "\<forall>g. outstanding (ss_trxns st) g + length ops < 2 ^ 32" "store_ops_ok env ncols fresh ops" "i < ncols"
  shows "\<exists>trxn' st'. Store_all env ops (batch_trxn ops) st = Inr (Some (trxn', st'))
    \<and> store_inv env ncols 0 (fresh - fst ` set ops) st'
    \<and> read_value k i s st' = batch_value ops (ss_seq st) k i s (read_value k i s st)"
proof -
  have "batch_inv (length ops) (batch_trxn ops) st"
    using assms(2,3) by (intro batch_inv_start) (auto simp: store_inv_def)
  from Store_all_ok[OF assms(1,2) this assms(4)] obtain trxn' st' where
    st': "Store_all env ops (batch_trxn ops) st = Inr (Some (trxn', st'))" "store_inv env ncols 0 (fresh - fst ` set ops) st'"
    "\<forall>x. x \<notin> value_addr env ` fst ` set ops \<longrightarrow> ss_values st' x = ss_values st x"
    "\<forall>(a, key, val, col_id, type) \<in> set ops. type = kPutType \<longrightarrow>
         (\<exists>u. ss_values st' (value_addr env a) = Some u \<and> ReadValue u = Inr val)"
    "answer_at (col_list (column st' k i)) s = batch_answer ops (ss_seq st) k i s (answer_at (col_list (column st k i)) s)"
    using assms(5) by blast
  have "value_of env st' (answer_at (col_list (column st k i)) s) = value_of env st (answer_at (col_list (column st k i)) s)"
  proof (cases "answer_at (col_list (column st k i)) s")
    case (Value a)
    then have "a \<notin> fresh" using answer_find[OF Value] column_inv(2)[OF assms(2,5), of k] by auto
    then have "a \<notin> fst ` set ops" using store_ops_ok_addr(1)[OF assms(4)] by blast
    then have "value_addr env a \<notin> value_addr env ` fst ` set ops" 
      using store_ops_ok_addr(2)[OF assms(4)] by blast
    then show ?thesis using st'(3) Value by (simp add: value_of_def)
  qed (simp_all add: value_of_def)
  then have "read_value k i s st' = batch_value ops (ss_seq st) k i s (read_value k i s st)"
    using read_value_answer[OF column_inv(1)[OF st'(2) assms(5)]] read_value_answer[OF column_inv(1)[OF assms(2,5)]]
      st'(5) value_of_batch[OF st'(4)] by simp
  then show ?thesis using st'(1,2) by blast
qed

section \<open>Properties\<close>


definition demo_env :: StoreEnv where
  "demo_env = \<lparr>TtlIsEnabled = (\<lambda>_. False), env_ttl = 0, AllocUserKey = (\<lambda>sz. UserKey_new 2 sz),
     AllocUserValue = (\<lambda>_. UserValue_new 64), value_addr = (\<lambda>a. if a < 0x1000 then a else 0)\<rparr>"

definition demo_ops :: "store_op list" where
  "demo_ops = [(1, [65], [10], 0, kPutType), (2, [66], [20], 1, kPutType), (3, [65], [], 0, kDelType)]"


end
