(* ===== verification/DbWrite.thy ===== *)
theory DbWrite
  imports WriteBatch WriteStore
begin

text \<open>
  \<open>DBImpl::Write\<close> of \<^verbatim>\<open>db/db_impl.cc\<close>: a batch is iterated with a \<open>WriteBatchInternal\<close>
  as handler, which stores every record. \<open>db_get\<close> stands for \<open>DBImpl::Get\<close> on the
  current state and \<open>merge_operator\<close> for the user's merge operator, none if the
  options have none; \<open>fresh i\<close> is the address of the i-th node allocated.
\<close>

record WriteBatchInternal =
  wbi_trxn :: Transaction
  wbi_next :: nat
  wbi_store :: StoreState

text \<open>The state of the handler: a fault, a wait for an eviction, or the next state.\<close>

type_synonym wbi_state = "WriteBatchInternal option run"

definition InitWBI :: "u32 \<Rightarrow> nat \<Rightarrow> StoreState \<Rightarrow> WriteBatchInternal" where
  "InitWBI cnt next_node st =
     \<lparr>wbi_trxn = \<lparr>t_count = cnt, t_seq_number = 0, t_id = 0\<rparr>, wbi_next = next_node, wbi_store = st\<rparr>"

definition WBI_store :: "StoreEnv \<Rightarrow> (nat \<Rightarrow> u64) \<Rightarrow> bytes \<Rightarrow> bytes \<Rightarrow> u16 \<Rightarrow> RequestType \<Rightarrow> wbi_state \<Rightarrow> wbi_state" where
  "WBI_store env fresh key val col_id type w =
     bind_run w (\<lambda>w. case w of
         None \<Rightarrow> Inr None
       | Some w \<Rightarrow>
           bind_run (Store env (fresh (wbi_next w)) key val col_id type (wbi_trxn w) (wbi_store w)) (\<lambda>r.
             case r of None \<Rightarrow> Inr None
             | Some (trxn, st) \<Rightarrow> Inr (Some \<lparr>wbi_trxn = trxn, wbi_next = wbi_next w + 1, wbi_store = st\<rparr>)))"

definition WBI_Put :: "StoreEnv \<Rightarrow> (nat \<Rightarrow> u64) \<Rightarrow> bytes \<Rightarrow> bytes \<Rightarrow> u16 \<Rightarrow> wbi_state \<Rightarrow> wbi_state" where
  "WBI_Put env fresh key val col_id = WBI_store env fresh key val col_id kPutType"

definition WBI_Delete :: "StoreEnv \<Rightarrow> (nat \<Rightarrow> u64) \<Rightarrow> bytes \<Rightarrow> u16 \<Rightarrow> wbi_state \<Rightarrow> wbi_state" where
  "WBI_Delete env fresh key col_id = WBI_store env fresh key [] col_id kDelType"

definition CallMergeOperator :: "(bytes \<Rightarrow> bytes option \<Rightarrow> bytes \<Rightarrow> bytes option) option \<Rightarrow> bytes \<Rightarrow> bytes option \<Rightarrow> bytes \<Rightarrow> bytes option" where
  "CallMergeOperator mo key existing val = (case mo of None \<Rightarrow> None | Some f \<Rightarrow> f key existing val)"

definition WBI_Merge :: "StoreEnv \<Rightarrow> (nat \<Rightarrow> u64) \<Rightarrow> (bytes \<Rightarrow> u16 \<Rightarrow> StoreState \<Rightarrow> Code \<times> bytes)
    \<Rightarrow> (bytes \<Rightarrow> bytes option \<Rightarrow> bytes \<Rightarrow> bytes option) option \<Rightarrow> bytes \<Rightarrow> bytes \<Rightarrow> u16 \<Rightarrow> wbi_state \<Rightarrow> Status \<times> wbi_state" where
  "WBI_Merge env fresh db_get mo key val col_id w =
     (case w of
        Inr (Some v) \<Rightarrow>
          (let (s, read) = db_get key col_id (wbi_store v)
           in if s \<noteq> kOk \<and> s \<noteq> kNotFound then
                (case Status_make kIOError (cstr ''Merge key lookup failed'') [] of
                   Inl e \<Rightarrow> (Status_OK, Inl e) | Inr st \<Rightarrow> (st, w))
              else (case CallMergeOperator mo key (if s = kOk then Some read else None) val of
                      None \<Rightarrow> (case Status_make kInvalidArgument (cstr ''Merge operator returned failure'') [] of
                                 Inl e \<Rightarrow> (Status_OK, Inl e) | Inr st \<Rightarrow> (st, w))
                    | Some merged \<Rightarrow> (Status_OK, WBI_store env fresh key merged col_id kPutType w)))
      | _ \<Rightarrow> (Status_OK, w))"

definition WBI_handler :: "StoreEnv \<Rightarrow> (nat \<Rightarrow> u64) \<Rightarrow> (bytes \<Rightarrow> u16 \<Rightarrow> StoreState \<Rightarrow> Code \<times> bytes)
    \<Rightarrow> (bytes \<Rightarrow> bytes option \<Rightarrow> bytes \<Rightarrow> bytes option) option \<Rightarrow> wbi_state Handler" where
  "WBI_handler env fresh db_get mo =
     \<lparr>h_Put = WBI_Put env fresh, h_Merge = WBI_Merge env fresh db_get mo, h_Delete = WBI_Delete env fresh,
      h_Continue = (\<lambda>w. (True, w))\<rparr>"

text \<open>The status of the iteration is discarded; \<open>Write\<close> returns the status it was initialised with.\<close>

definition DB_Write :: "StoreEnv \<Rightarrow> (nat \<Rightarrow> u64) \<Rightarrow> (bytes \<Rightarrow> u16 \<Rightarrow> StoreState \<Rightarrow> Code \<times> bytes)
    \<Rightarrow> (bytes \<Rightarrow> bytes option \<Rightarrow> bytes \<Rightarrow> bytes option) option \<Rightarrow> WriteBatch \<Rightarrow> StoreState \<Rightarrow> (Status \<times> StoreState) option run" where
  "DB_Write env fresh db_get mo updates st =
     bind_run (Count updates) (\<lambda>cnt.
     bind_run (Iterate (WBI_handler env fresh db_get mo) updates (Inr (Some (InitWBI cnt 0 st)))) (\<lambda>(s, w).
     bind_run w (\<lambda>w. case w of None \<Rightarrow> Inr None | Some w \<Rightarrow> Inr (Some (Status_OK, wbi_store w)))))"

section \<open>From records to requests\<close>

fun request_of :: "u64 \<Rightarrow> wb_op \<Rightarrow> store_op" where
  "request_of a (OpPut k v c) = (a, k, v, c, kPutType)"
| "request_of a (OpDelete k c) = (a, k, [], c, kDelType)"
| "request_of a (OpMerge k v c) = (a, k, v, c, kPutType)"

definition no_merge :: "wb_op \<Rightarrow> bool" where
  "no_merge op = (case op of OpMerge _ _ _ \<Rightarrow> False | _ \<Rightarrow> True)"

definition requests :: "(nat \<Rightarrow> u64) \<Rightarrow> nat \<Rightarrow> wb_op list \<Rightarrow> store_op list" where
  "requests fresh n ops = map (\<lambda>(i, op). request_of (fresh i) op) (enumerate n ops)"

lemma requests_simps [simp]:
  "requests fresh n [] = []" "requests fresh n (op # ops) = request_of (fresh n) op # requests fresh (Suc n) ops"
  by (simp_all add: requests_def)

lemma length_requests [simp]: "length (requests fresh n ops) = length ops"
  by (simp add: requests_def)

lemma handler_fold:
  assumes "Store_all env (requests fresh (wbi_next w) ops) (wbi_trxn w) (wbi_store w) = Inr (Some (t, st))"
    and "\<forall>op \<in> set ops. no_merge op"
  shows "fold (\<lambda>op s. snd (exec_op (WBI_handler env fresh db_get mo) op s)) ops (Inr (Some w))
    = Inr (Some \<lparr>wbi_trxn = t, wbi_next = wbi_next w + length ops, wbi_store = st\<rparr>)"
  using assms
proof (induction ops arbitrary: w)
  case (Cons op ops)
  obtain a key val col_id type where r: "request_of (fresh (wbi_next w)) op = (a, key, val, col_id, type)" by (metis prod_cases5)
  obtain t1 s1 where s1: "Store env a key val col_id type (wbi_trxn w) (wbi_store w) = Inr (Some (t1, s1))"
    "Store_all env (requests fresh (Suc (wbi_next w)) ops) t1 s1 = Inr (Some (t, st))"
    using Cons.prems(1) r by (auto simp: bind_run_Inr_iff split: option.splits)
  have "snd (exec_op (WBI_handler env fresh db_get mo) op (Inr (Some w)))
      = Inr (Some \<lparr>wbi_trxn = t1, wbi_next = Suc (wbi_next w), wbi_store = s1\<rparr>)"
    using Cons.prems(2) r s1(1)
    by (cases op) (auto simp: exec_op_def WBI_handler_def WBI_Put_def WBI_Delete_def WBI_store_def no_merge_def)
  then show ?case using Cons.IH[of "\<lparr>wbi_trxn = t1, wbi_next = Suc (wbi_next w), wbi_store = s1\<rparr>"] Cons.prems(2) s1(2) by simp
qed (cases w, simp)

lemma DB_Write_requests:
  assumes "Store_all env (requests fresh 0 ops) (batch_trxn (requests fresh 0 ops)) st = Inr (Some (t, st'))"
    and "\<forall>op \<in> set ops. no_merge op \<and> op_ok op" "length ops < 2 ^ 32" "apply_ops ops WriteBatch_init = Inr b"
  shows "DB_Write env fresh db_get mo b st = Inr (Some (Status_OK, st'))"
proof -
  let ?h = "WBI_handler env fresh db_get mo" and ?w = "InitWBI (word_of_nat (length ops)) 0 st"
  have b: "b = \<lparr>rep = encode_batch ops\<rparr>" using assms(4) by (simp add: apply_ops_init)
  have "Status_ok (fst (exec_op ?h op s))" if "op \<in> set ops" for op s
    using assms(2) that by (cases op) (auto simp: exec_op_def no_merge_def Status_ok_def Status_OK_def)
  then have "run_ops ?h ops (Inr (Some ?w)) = (length ops, Status_OK, fold (\<lambda>op s. snd (exec_op ?h op s)) ops (Inr (Some ?w)))"
    by (intro run_ops_uninterrupted) (auto simp: WBI_handler_def)
  moreover have "fold (\<lambda>op s. snd (exec_op ?h op s)) ops (Inr (Some ?w))
      = Inr (Some \<lparr>wbi_trxn = t, wbi_next = length ops, wbi_store = st'\<rparr>)"
    using handler_fold[of env fresh ?w ops t st' db_get mo] assms(1,2) by (simp add: InitWBI_def batch_trxn_def)
  moreover have "Count b = Inr (word_of_nat (length ops))" by (simp add: b encode_batch_def)
  ultimately show ?thesis using Iterate_encode[of ops ?h "Inr (Some ?w)"] assms(2,3) b
    by (simp add: DB_Write_def Status_ok_def Status_OK_def)
qed

section \<open>Properties\<close>





end
