(* ===== verification/Hashing.thy ===== *)
theory Hashing
  imports Coding Slices
begin

text \<open>
  The hash functions of the store: \<open>Hash\<close> of \<^verbatim>\<open>util/hash.cc\<close>, the
  MurmurHash3 variant \<open>InSDBUKHash\<close> and the hash-carrying \<open>KeySlice\<close> of
  \<^verbatim>\<open>include/insdb/slice.h\<close>. The finalizer \<open>fmix32\<close> is shown to be a
  permutation of the 32-bit words, and the pair \<open>UKHash\<close>/\<open>UKEqual\<close> to satisfy
  the contract of an unordered map.
\<close>

section \<open>util/hash.cc\<close>

function Hash_body :: "u32 \<Rightarrow> bytes \<Rightarrow> u32 \<times> bytes" where
  "Hash_body h data =
     (if 4 \<le> length data then
        (let w = le_word (take 4 data);
             h1 = (h + w) * 0xc6a4a793
         in Hash_body (h1 XOR drop_bit 16 h1) (drop 4 data))
      else (h, data))"
  by pat_completeness auto
termination
  by (relation "measure (\<lambda>(h, data). length data)") auto

declare Hash_body.simps [simp del]

definition Hash_tail :: "u32 \<Rightarrow> bytes \<Rightarrow> u32" where
  "Hash_tail h data =
     (let fin = (\<lambda>h. let h1 = h * 0xc6a4a793 in h1 XOR drop_bit 24 h1)
      in case data of
           [a, b, c] \<Rightarrow> fin (h + push_bit 16 (ucast c) + push_bit 8 (ucast b) + ucast a)
         | [a, b] \<Rightarrow> fin (h + push_bit 8 (ucast b) + ucast a)
         | [a] \<Rightarrow> fin (h + ucast a)
         | _ \<Rightarrow> h)"

definition Hash :: "bytes \<Rightarrow> u32 \<Rightarrow> u32" where
  "Hash data seed =
     (let h = seed XOR (word_of_nat (length data) * 0xc6a4a793);
          (h', rest) = Hash_body h data
      in Hash_tail h' rest)"

section \<open>MurmurHash3 of the user key\<close>

definition ROTL32 :: "u32 \<Rightarrow> nat \<Rightarrow> u32" where
  "ROTL32 x r = push_bit r x OR drop_bit (32 - r) x"

definition fmix32 :: "u32 \<Rightarrow> u32" where
  "fmix32 h =
     (let h = h XOR drop_bit 16 h;
          h = h * 0x85ebca6b;
          h = h XOR drop_bit 13 h;
          h = h * 0xc2b2ae35
      in h XOR drop_bit 16 h)"

definition INSDB_32_HASH_START :: u32 where
  "INSDB_32_HASH_START = 2166136261"

definition murmur_k1 :: "u32 \<Rightarrow> u32" where
  "murmur_k1 k1 = ROTL32 (k1 * 0xcc9e2d51) 15 * 0x1b873593"

primrec InSDBUKHash_body :: "nat \<Rightarrow> u32 \<Rightarrow> bytes \<Rightarrow> u32" where
  "InSDBUKHash_body 0 h1 data = h1"
| "InSDBUKHash_body (Suc n) h1 data =
     (let k1 = object_word kLittleEndian (take 4 data);
          h1 = ROTL32 (h1 XOR murmur_k1 k1) 13 * 5 + 0xe6546b64
      in InSDBUKHash_body n h1 (drop 4 data))"

definition InSDBUKHash_tail :: "u32 \<Rightarrow> u32 \<Rightarrow> bytes \<Rightarrow> u32" where
  "InSDBUKHash_tail rem h1 tail =
     (if rem = 3 then
        h1 XOR murmur_k1 (push_bit 16 (ucast (tail ! 2)) XOR push_bit 8 (ucast (tail ! 1)) XOR ucast (tail ! 0))
      else if rem = 2 then h1 XOR murmur_k1 (push_bit 8 (ucast (tail ! 1)) XOR ucast (tail ! 0))
      else if rem = 1 then h1 XOR murmur_k1 (ucast (tail ! 0))
      else h1)"

definition InSDBUKHash :: "bytes \<Rightarrow> u32 \<Rightarrow> u32" where
  "InSDBUKHash data len =
     (let nblocks = unat (drop_bit 2 len);
          h1 = InSDBUKHash_body nblocks INSDB_32_HASH_START data;
          h1 = InSDBUKHash_tail (len AND 3) h1 (drop (nblocks * 4) data)
      in fmix32 (h1 XOR len))"

section \<open>KeySlice\<close>

record KeySlice =
  ks_data :: bytes
  ks_hash :: u32
  ks_has_hash :: bool

definition KeySlice_default :: KeySlice where
  "KeySlice_default = \<lparr>ks_data = [], ks_hash = 0, ks_has_hash = False\<rparr>"

definition KeySlice_with_hash :: "bytes \<Rightarrow> u32 \<Rightarrow> KeySlice" where
  "KeySlice_with_hash d h = \<lparr>ks_data = d, ks_hash = h, ks_has_hash = True\<rparr>"

definition KeySlice_of :: "bytes \<Rightarrow> KeySlice" where
  "KeySlice_of d =
     \<lparr>ks_data = d, ks_hash = InSDBUKHash d (word_of_nat (length d)), ks_has_hash = True\<rparr>"

definition UKHash :: "KeySlice \<Rightarrow> u32" where
  "UKHash a =
     (if ks_has_hash a then ks_hash a
      else InSDBUKHash (ks_data a) (word_of_nat (length (ks_data a))))"

definition UKEqual :: "KeySlice \<Rightarrow> KeySlice \<Rightarrow> bool" where
  "UKEqual lhs rhs =
     (length (ks_data lhs) = length (ks_data rhs)
      \<and> memcmp (ks_data lhs) (ks_data rhs) (length (ks_data lhs)) = 0)"

section \<open>The finalizer is a permutation\<close>

lemma xorshift_inj:
  fixes x y :: "'a::len word"
  assumes "0 < n" "x XOR drop_bit n x = y XOR drop_bit n y"
  shows "x = y"
proof -
  have "bit x i = bit y i" for i
  proof (induction "LENGTH('a) - i" arbitrary: i rule: less_induct)
    case less
    show ?case
    proof (cases "i < LENGTH('a)")
      case True
      then have "bit x (n + i) = bit y (n + i)" using assms(1) by (intro less) simp
      moreover have "bit (x XOR drop_bit n x) i = bit (y XOR drop_bit n y) i" by (simp add: assms(2))
      ultimately show ?thesis by (auto simp: bit_xor_iff bit_drop_bit_eq)
    qed (auto dest: bit_imp_le_length)
  qed
  then show ?thesis by (intro bit_word_eqI) simp
qed

lemma mult_inverse_inj:
  fixes c d x y :: "'a::len word"
  assumes "c * d = 1" "x * c = y * c"
  shows "x = y"
  using assms by (metis mult.assoc mult.right_neutral)

lemma fmix32_inj: "inj fmix32"
proof (rule injI)
  fix x y assume e: "fmix32 x = fmix32 y"
  have i: "(0x85ebca6b :: u32) * 0xa5cb9243 = 1" "(0xc2b2ae35 :: u32) * 0x7ed1b41d = 1" by simp_all
  from e show "x = y" unfolding fmix32_def Let_def
    by (auto dest!: xorshift_inj[rotated] mult_inverse_inj[OF i(1)] mult_inverse_inj[OF i(2)])
qed

lemma ROTL32_inj:
  assumes "r < 32" "ROTL32 x r = ROTL32 y r"
  shows "x = y"
proof (rule bit_word_eqI)
  fix i assume i: "i < LENGTH(32)"
  have b: "bit (ROTL32 z r) ((i + r) mod 32) = bit z i" for z
  proof (cases "i + r < 32")
    case True
    then show ?thesis using i
      by (auto simp: ROTL32_def bit_or_iff bit_push_bit_iff bit_drop_bit_eq dest: bit_imp_le_length)
  next
    case False
    then have "(i + r) mod 32 = i + r - 32" using assms(1) i by (simp add: mod_if)
    then show ?thesis using False assms(1) i
      by (auto simp: ROTL32_def bit_or_iff bit_push_bit_iff bit_drop_bit_eq)
  qed
  show "bit x i = bit y i" using b[of x] b[of y] assms(2) by simp
qed

lemma murmur_k1_inj: "murmur_k1 x = murmur_k1 y \<Longrightarrow> x = y"
proof -
  have i: "(0xcc9e2d51 :: u32) * 0xdee13bb1 = 1" "(0x1b873593 :: u32) * 0x56ed309b = 1" by simp_all
  assume "murmur_k1 x = murmur_k1 y"
  then have "ROTL32 (x * 0xcc9e2d51) 15 = ROTL32 (y * 0xcc9e2d51) 15"
    unfolding murmur_k1_def by (rule mult_inverse_inj[OF i(2)])
  then have "x * 0xcc9e2d51 = y * 0xcc9e2d51" by (rule ROTL32_inj[rotated]) simp
  then show "x = y" by (rule mult_inverse_inj[OF i(1)])
qed

lemma xor_left_inj: "(a :: u32) XOR b = a XOR c \<Longrightarrow> b = c"
  by (metis xor.assoc xor_self_eq xor.left_neutral)

lemma xor_right_inj: "(b :: u32) XOR a = c XOR a \<Longrightarrow> b = c"
  by (metis xor.assoc xor_self_eq xor.right_neutral)

section \<open>Properties\<close>

text \<open>The invariant the constructors establish: a carried hash is the hash of the carried key.\<close>

definition keyslice_ok :: "KeySlice \<Rightarrow> bool" where
  "keyslice_ok k =
     (ks_has_hash k \<longrightarrow> ks_hash k = InSDBUKHash (ks_data k) (word_of_nat (length (ks_data k))))"

lemma keyslice_ok_constructors:
  "keyslice_ok KeySlice_default" "keyslice_ok (KeySlice_of d)"
  "keyslice_ok (KeySlice_with_hash d (UKHash (KeySlice_of d)))"
  by (simp_all add: keyslice_ok_def KeySlice_default_def KeySlice_of_def KeySlice_with_hash_def UKHash_def)

text \<open>What the hash map of user keys requires of its hash and equality functions.\<close>

locale hash_contract =
  fixes hash :: "'k \<Rightarrow> u32" and eq :: "'k \<Rightarrow> 'k \<Rightarrow> bool" and ok :: "'k \<Rightarrow> bool"
  assumes eq_refl: "eq a a" and eq_sym: "eq a b \<Longrightarrow> eq b a"
    and eq_trans: "eq a b \<Longrightarrow> eq b c \<Longrightarrow> eq a c"
    and eq_hash: "ok a \<Longrightarrow> ok b \<Longrightarrow> eq a b \<Longrightarrow> hash a = hash b"
begin

lemma different_buckets: "ok a \<Longrightarrow> ok b \<Longrightarrow> unat (hash a) mod n \<noteq> unat (hash b) mod n \<Longrightarrow> \<not> eq a b"
  using eq_hash by metis

end

lemma UKEqual_iff: "UKEqual a b \<longleftrightarrow> ks_data a = ks_data b"
  using Slice_eq_iff[of "ks_data a" "ks_data b"] unfolding UKEqual_def Slice_eq_def .

interpretation user_key_hash: hash_contract UKHash UKEqual keyslice_ok
  by unfold_locales (auto simp: UKEqual_iff UKHash_def keyslice_ok_def)



text \<open>The finalizer \<open>fmix32\<close> is a permutation of the 32-bit words, and
  \<open>InSDBUKHash\<close> never maps two different four-byte keys to the same hash.
\<close>

theorem murmur_no_collision_4:
  "bij fmix32 \<and> inj_on (\<lambda>k. InSDBUKHash k 4) {k. length k = 4}"
proof
  show "bij fmix32" using finite_UNIV_inj_surj[OF _ fmix32_inj] fmix32_inj by (simp add: bij_def)
  show "inj_on (\<lambda>k. InSDBUKHash k 4) {k. length k = 4}"
  proof (rule inj_onI)
    fix k l :: bytes assume kl: "k \<in> {k. length k = 4}" "l \<in> {k. length k = 4}"
      and e: "InSDBUKHash k 4 = InSDBUKHash l 4"
    have i: "(5 :: u32) * 0xcccccccd = 1" by simp
    let ?b = "\<lambda>z. InSDBUKHash_body 1 INSDB_32_HASH_START z"
    have "unat (drop_bit 2 (4 :: u32)) = 1" by (simp add: unat_shiftr)
    moreover have "(4 :: u32) AND 3 = 0" by simp
    ultimately have h: "InSDBUKHash z 4 = fmix32 (?b z XOR 4)" for z
      by (simp add: InSDBUKHash_def InSDBUKHash_tail_def Let_def)
    then have "?b k = ?b l" using e fmix32_inj by (auto dest!: injD xor_right_inj)
    then have "murmur_k1 (object_word kLittleEndian k) = murmur_k1 (object_word kLittleEndian l)"
      using kl by (auto dest!: mult_inverse_inj[OF i] ROTL32_inj[rotated] xor_left_inj simp: Let_def)
    then have "le_word k = (le_word l :: u32)"
      by (auto dest!: murmur_k1_inj simp: object_word_def kLittleEndian_def)
    then show "k = l" using kl le_bytes_le_word[of k, where 'a = 32] le_bytes_le_word[of l, where 'a = 32]
      by simp
  qed
qed

end
