(* ===== verification/Bloom.thy ===== *)
theory Bloom
  imports Hashing
begin

text \<open>
  \<^verbatim>\<open>util/bloom.cc\<close>: the Bloom filter policy. \<open>filter_policy\<close> is the contract of
  \<^verbatim>\<open>include/insdb/filter_policy.h\<close>: a filter never rejects a key it was created
  from.
\<close>

record BloomFilterPolicy =
  bf_bits_per_key :: nat
  bf_k :: nat

text \<open>
  \<open>static_cast<size_t>(bits_per_key * 0.69)\<close> for a non-negative argument: the
  double product and the rational one have the same integral part below the
  cap of 30, which is reached before the product is next integral (at 100).
\<close>

definition BloomFilterPolicy_init :: "nat \<Rightarrow> BloomFilterPolicy" where
  "BloomFilterPolicy_init bits_per_key =
     (let k = bits_per_key * 69 div 100;
          k = (if k < 1 then 1 else k);
          k = (if k > 30 then 30 else k)
      in \<lparr>bf_bits_per_key = bits_per_key, bf_k = k\<rparr>)"

definition BloomHash :: "bytes \<Rightarrow> u32" where
  "BloomHash key = Hash key 0xbc9f1d34"

definition bloom_delta :: "u32 \<Rightarrow> u32" where
  "bloom_delta h = drop_bit 17 h OR push_bit 15 h"

definition bloom_set :: "nat \<Rightarrow> bytes \<Rightarrow> bytes" where
  "bloom_set bitpos array =
     array[bitpos div 8 := array ! (bitpos div 8) OR push_bit (bitpos mod 8) 1]"

primrec bloom_add_loop :: "nat \<Rightarrow> nat \<Rightarrow> u32 \<Rightarrow> u32 \<Rightarrow> bytes \<Rightarrow> bytes" where
  "bloom_add_loop 0 bits h delta array = array"
| "bloom_add_loop (Suc j) bits h delta array =
     bloom_add_loop j bits (h + delta) delta (bloom_set (unat h mod bits) array)"

definition bloom_add :: "nat \<Rightarrow> nat \<Rightarrow> bytes \<Rightarrow> bytes \<Rightarrow> bytes" where
  "bloom_add k bits key array =
     (let h = BloomHash key in bloom_add_loop k bits h (bloom_delta h) array)"

definition CreateFilter :: "BloomFilterPolicy \<Rightarrow> bytes list \<Rightarrow> bytes \<Rightarrow> bytes" where
  "CreateFilter p keys dst =
     (let bits = length keys * bf_bits_per_key p;
          bits = (if bits < 64 then 64 else bits);
          nbytes = (bits + 7) div 8;
          bits = nbytes * 8;
          array = fold (bloom_add (bf_k p) bits) keys (replicate nbytes 0)
      in dst @ array @ [word_of_nat (bf_k p)])"

primrec bloom_match_loop :: "nat \<Rightarrow> nat \<Rightarrow> u32 \<Rightarrow> u32 \<Rightarrow> bytes \<Rightarrow> bool" where
  "bloom_match_loop 0 bits h delta array = True"
| "bloom_match_loop (Suc j) bits h delta array =
     (let bitpos = unat h mod bits
      in if array ! (bitpos div 8) AND push_bit (bitpos mod 8) 1 = 0 then False
         else bloom_match_loop j bits (h + delta) delta array)"

definition KeyMayMatch :: "bytes \<Rightarrow> bytes \<Rightarrow> bool" where
  "KeyMayMatch key bloom_filter =
     (let len = length bloom_filter
      in if len < 2 then False
         else (let bits = (len - 1) * 8;
                   k = unat (bloom_filter ! (len - 1))
               in if k > 30 then True
                  else (let h = BloomHash key
                        in bloom_match_loop k bits h (bloom_delta h) bloom_filter)))"

section \<open>Probes\<close>

definition has_bit :: "bytes \<Rightarrow> nat \<Rightarrow> bool" where
  "has_bit array i = bit (array ! (i div 8)) (i mod 8)"

lemma length_bloom_set [simp]: "length (bloom_set i array) = length array"
  by (simp add: bloom_set_def)

lemma has_bit_bloom_set:
  assumes "i < 8 * length array"
  shows "has_bit (bloom_set i array) j \<longleftrightarrow> j = i \<or> has_bit array j"
proof (cases "j div 8 = i div 8")
  case True
  then have "j = i \<longleftrightarrow> j mod 8 = i mod 8" by (metis div_mult_mod_eq)
  moreover have "j mod 8 < 8" "i div 8 < length array" using assms by auto
  ultimately show ?thesis using True
    by (auto simp: bloom_set_def has_bit_def bit_or_iff bit_push_bit_iff bit_exp_iff)
next
  case False
  then show ?thesis by (auto simp: bloom_set_def has_bit_def)
qed

lemma bloom_match_loop_iff:
  "bloom_match_loop k bits h delta array
     \<longleftrightarrow> (\<forall>i < k. has_bit array (unat (h + of_nat i * delta) mod bits))"
proof (induction k arbitrary: h)
  case (Suc k)
  have "(array ! (n div 8) AND push_bit (n mod 8) 1 = 0) = (\<not> has_bit array n)" for n
    by (simp add: has_bit_def bit_iff_and_push_bit_not_eq_0)
  then show ?case
    by (simp add: Let_def Suc.IH all_less_Suc_split add.assoc distrib_right)
qed simp

lemma bloom_add_loop_bits:
  assumes "0 < bits" "bits \<le> 8 * length array"
  shows "length (bloom_add_loop k bits h delta array) = length array
    \<and> (has_bit (bloom_add_loop k bits h delta array) j
         \<longleftrightarrow> (\<exists>i < k. j = unat (h + of_nat i * delta) mod bits) \<or> has_bit array j)"
  using assms(2)
proof (induction k arbitrary: h array)
  case (Suc k)
  have "unat h mod bits < 8 * length array" using assms(1) Suc.prems mod_less_divisor less_le_trans by blast
  with Suc show ?case
    by (auto simp: has_bit_bloom_set ex_less_Suc_split add.assoc distrib_right)
qed simp

lemma length_bloom_add [simp]:
  "0 < bits \<Longrightarrow> bits \<le> 8 * length array \<Longrightarrow> length (bloom_add k bits key array) = length array"
  by (simp add: bloom_add_def Let_def bloom_add_loop_bits)

lemma bloom_fold_bits:
  assumes "0 < bits" "bits \<le> 8 * length array"
  shows "length (fold (bloom_add k bits) keys array) = length array
    \<and> (has_bit array j \<longrightarrow> has_bit (fold (bloom_add k bits) keys array) j)
    \<and> (key \<in> set keys \<longrightarrow> (\<forall>i < k. has_bit (fold (bloom_add k bits) keys array)
            (unat (BloomHash key + of_nat i * bloom_delta (BloomHash key)) mod bits)))"
  using assms(2)
proof (induction keys arbitrary: array j key)
  case (Cons x keys)
  let ?a = "bloom_add k bits x array"
  have l: "length ?a = length array" using assms(1) Cons.prems by simp
  have b: "has_bit ?a i = ((\<exists>n < k. i = unat (BloomHash x + of_nat n * bloom_delta (BloomHash x)) mod bits)
      \<or> has_bit array i)" for i
    using bloom_add_loop_bits[OF assms(1) Cons.prems] by (simp add: bloom_add_def Let_def)
  have IH: "length (fold (bloom_add k bits) keys ?a) = length ?a"
    "has_bit ?a i \<Longrightarrow> has_bit (fold (bloom_add k bits) keys ?a) i"
    "key \<in> set keys \<Longrightarrow> i < k \<Longrightarrow> has_bit (fold (bloom_add k bits) keys ?a)
       (unat (BloomHash key + of_nat i * bloom_delta (BloomHash key)) mod bits)" for i key
    using Cons.IH[of ?a i key] Cons.prems l by auto
  show ?case using IH(1) IH(2)[OF b[THEN iffD2]] IH(3) l by auto
qed simp

lemma has_bit_append: "i < 8 * length xs \<Longrightarrow> has_bit (xs @ ys) i = has_bit xs i"
  by (auto simp: has_bit_def nth_append)

text \<open>The contract of a filter policy: filters have no false negatives.\<close>

locale filter_policy =
  fixes create :: "bytes list \<Rightarrow> bytes" and may_match :: "bytes \<Rightarrow> bytes \<Rightarrow> bool"
  assumes no_false_negative: "key \<in> set keys \<Longrightarrow> may_match key (create keys)"
begin

lemma rejected_absent: "\<not> may_match key (create keys) \<Longrightarrow> key \<notin> set keys"
  using no_false_negative by blast

end

lemma bloom_k_range: "1 \<le> bf_k (BloomFilterPolicy_init b) \<and> bf_k (BloomFilterPolicy_init b) \<le> 30"
  by (simp add: BloomFilterPolicy_init_def Let_def)

lemma CreateFilter_shape:
  obtains n array where "CreateFilter p keys dst = dst @ array @ [word_of_nat (bf_k p)]"
    "length array = n" "8 \<le> n" "array = fold (bloom_add (bf_k p) (n * 8)) keys (replicate n 0)"
proof -
  define bits0 where "bits0 = (if length keys * bf_bits_per_key p < 64 then 64 else length keys * bf_bits_per_key p)"
  define n where "n = (bits0 + 7) div 8"
  define a where "a = fold (bloom_add (bf_k p) (n * 8)) keys (replicate n 0)"
  have n: "8 \<le> n" by (simp add: n_def bits0_def less_eq_div_iff_mult_less_eq)
  have "CreateFilter p keys dst = dst @ a @ [word_of_nat (bf_k p)]"
    by (simp add: CreateFilter_def Let_def a_def n_def bits0_def)
  moreover have "length a = n"
    using bloom_fold_bits[of "n * 8" "replicate n 0"] n by (simp add: a_def)
  ultimately show thesis using that n a_def by blast
qed

lemma CreateFilter_match:
  assumes "key \<in> set keys"
  shows "KeyMayMatch key (CreateFilter (BloomFilterPolicy_init b) keys [])"
proof -
  let ?p = "BloomFilterPolicy_init b"
  define k where "k = bf_k ?p"
  have k: "k \<le> 30" using bloom_k_range[of b] by (simp add: k_def)
  obtain n a where f: "CreateFilter ?p keys [] = a @ [word_of_nat k]" and n: "length a = n" "8 \<le> n"
    and a: "a = fold (bloom_add k (n * 8)) keys (replicate n 0)"
    using CreateFilter_shape[of ?p keys "[]"] unfolding k_def append_Nil by metis
  have "\<forall>i < k. has_bit a (unat (BloomHash key + of_nat i * bloom_delta (BloomHash key)) mod (n * 8))"
    using bloom_fold_bits[of "n * 8" "replicate n 0" k keys _ key] assms n by (auto simp: a)
  moreover have "unat h mod (n * 8) < 8 * n" for h :: u32 using n by (simp add: mult.commute)
  ultimately have "bloom_match_loop k (n * 8) (BloomHash key) (bloom_delta (BloomHash key)) (a @ [word_of_nat k])"
    by (simp add: bloom_match_loop_iff has_bit_append n)
  then show ?thesis using n k
    by (simp add: f KeyMayMatch_def Let_def unat_byte_of_nat nth_append)
qed

interpretation bloom: filter_policy "\<lambda>keys. CreateFilter (BloomFilterPolicy_init b) keys []" KeyMayMatch
  by unfold_locales (rule CreateFilter_match)

section \<open>Properties\<close>

text \<open>
  C13: a Bloom filter has no false negatives: with any number of bits per key,
  appended to any string, the filter built from a list of keys matches every
  key of the list; and it occupies at least nine bytes, the last of which is
  a probe count between 1 and 30.
\<close>

theorem bloom_no_false_negative:
  assumes "key \<in> set keys"
  shows "KeyMayMatch key (drop (length dst) (CreateFilter (BloomFilterPolicy_init b) keys dst))
    \<and> (\<exists>array k. CreateFilter (BloomFilterPolicy_init b) keys dst = dst @ array @ [word_of_nat k]
         \<and> 8 \<le> length array \<and> 1 \<le> k \<and> k \<le> 30)"
proof -
  let ?p = "BloomFilterPolicy_init b"
  have "CreateFilter ?p keys dst = dst @ CreateFilter ?p keys []"
    by (simp add: CreateFilter_def Let_def)
  moreover have "\<exists>array k. CreateFilter ?p keys dst = dst @ array @ [word_of_nat k]
         \<and> 8 \<le> length array \<and> 1 \<le> k \<and> k \<le> 30"
    using CreateFilter_shape[of ?p keys dst] bloom_k_range[of b] by metis
  ultimately show ?thesis using bloom.no_false_negative[OF assms, of b] by auto
qed

theorem bloom_no_false_negative_witness:
  "KeyMayMatch [107, 49] (drop 1 (CreateFilter (BloomFilterPolicy_init 10) [[107, 48], [107, 49]] [0]))"
  using bloom_no_false_negative[of "[107, 49]" "[[107, 48], [107, 49]]" "[0]" 10] by simp

end
