(* ===== verification/Queues.thy ===== *)
theory Queues
  imports Prelude
begin

text \<open>
  The contract of a first-in first-out queue, shared by the intrusive lists of
  the store and the completion ring of the kernel driver, and what a client of
  such a queue gets for every interleaving of insertions and removals.
\<close>

datatype 'a qop = Enq 'a | Deq

text \<open>The specification: the elements handed out and the elements left.\<close>

fun queue_spec :: "'a qop list \<Rightarrow> 'a list \<Rightarrow> 'a option list \<times> 'a list" where
  "queue_spec [] xs = ([], xs)"
| "queue_spec (Enq x # ops) xs = queue_spec ops (xs @ [x])"
| "queue_spec (Deq # ops) [] = (let (out, r) = queue_spec ops [] in (None # out, r))"
| "queue_spec (Deq # ops) (x # xs) = (let (out, r) = queue_spec ops xs in (Some x # out, r))"

definition enqueued :: "'a qop list \<Rightarrow> 'a list" where
  "enqueued ops = concat (map (\<lambda>op. case op of Enq x \<Rightarrow> [x] | Deq \<Rightarrow> []) ops)"

lemma enqueued_simps [simp]:
  "enqueued [] = []" "enqueued (Enq x # ops) = x # enqueued ops" "enqueued (Deq # ops) = enqueued ops"
  by (simp_all add: enqueued_def)

text \<open>Nothing is lost, duplicated or reordered.\<close>

lemma queue_spec_order:
  "queue_spec ops xs = (out, rest) \<Longrightarrow> map the (filter (\<lambda>v. v \<noteq> None) out) @ rest = xs @ enqueued ops"
  by (induction ops xs arbitrary: out rule: queue_spec.induct) (auto split: prod.splits)

fun queue_run :: "('a \<Rightarrow> 's \<Rightarrow> 's run) \<Rightarrow> ('s \<Rightarrow> ('a option \<times> 's) run) \<Rightarrow> 'a qop list \<Rightarrow> 's
    \<Rightarrow> ('a option list \<times> 's) run" where
  "queue_run enq deq [] s = Inr ([], s)"
| "queue_run enq deq (Enq x # ops) s = bind_run (enq x s) (queue_run enq deq ops)"
| "queue_run enq deq (Deq # ops) s =
     bind_run (deq s) (\<lambda>(v, s'). bind_run (queue_run enq deq ops s') (\<lambda>(out, r). Inr (v # out, r)))"

fun admissible :: "('a list \<Rightarrow> 'a \<Rightarrow> bool) \<Rightarrow> 'a qop list \<Rightarrow> 'a list \<Rightarrow> bool" where
  "admissible can [] xs = True"
| "admissible can (Enq x # ops) xs = (can xs x \<and> admissible can ops (xs @ [x]))"
| "admissible can (Deq # ops) xs = admissible can ops (tl xs)"

text \<open>
  \<open>is_queue s xs\<close>: the state \<open>s\<close> holds the elements \<open>xs\<close>, oldest first. \<open>can xs x\<close>:
  the caller may insert \<open>x\<close> (there is room, or the node is not in the list yet).
\<close>

locale fifo_queue =
  fixes is_queue :: "'s \<Rightarrow> 'a list \<Rightarrow> bool"
    and can :: "'a list \<Rightarrow> 'a \<Rightarrow> bool"
    and enq :: "'a \<Rightarrow> 's \<Rightarrow> 's run"
    and deq :: "'s \<Rightarrow> ('a option \<times> 's) run"
  assumes enq_ok: "is_queue s xs \<Longrightarrow> can xs x \<Longrightarrow> \<exists>s'. enq x s = Inr s' \<and> is_queue s' (xs @ [x])"
    and deq_empty: "is_queue s [] \<Longrightarrow> deq s = Inr (None, s)"
    and deq_ok: "is_queue s (x # xs) \<Longrightarrow> \<exists>s'. deq s = Inr (Some x, s') \<and> is_queue s' xs"
begin

lemma run_refines_spec:
  "is_queue s xs \<Longrightarrow> admissible can ops xs \<Longrightarrow> queue_spec ops xs = (out, rest) \<Longrightarrow>
     \<exists>s'. queue_run enq deq ops s = Inr (out, s') \<and> is_queue s' rest"
proof (induction ops xs arbitrary: s out rule: queue_spec.induct)
  case (2 x ops xs)
  then obtain s1 where "enq x s = Inr s1" "is_queue s1 (xs @ [x])" using enq_ok[of s xs x] by auto
  with 2 show ?case by auto
next
  case (3 ops)
  obtain o' r where s: "queue_spec ops [] = (o', r)" by fastforce
  with 3 show ?case using deq_empty[OF 3(2)] 3(1)[OF 3(2)] by fastforce
next
  case (4 ops x xs)
  obtain s1 where d: "deq s = Inr (Some x, s1)" "is_queue s1 xs" using deq_ok[OF 4(2)] by auto
  obtain o' r where s: "queue_spec ops xs = (o', r)" by fastforce
  with 4 d show ?case by fastforce
qed auto

lemma run_order:
  assumes "is_queue s xs" "admissible can ops xs"
  shows "\<exists>out s' rest. queue_run enq deq ops s = Inr (out, s') \<and> is_queue s' rest
    \<and> map the (filter (\<lambda>v. v \<noteq> None) out) @ rest = xs @ enqueued ops"
proof -
  obtain out rest where q: "queue_spec ops xs = (out, rest)" by fastforce
  from run_refines_spec[OF assms q] queue_spec_order[OF q] show ?thesis by blast
qed

end

end
