(* ===== verification/LinkedList.thy ===== *)
theory LinkedList
  imports Queues
begin

text \<open>
  \<^verbatim>\<open>include/insdb/list.h\<close>: the intrusive doubly linked list. Nodes are addresses
  of a heap of \<open>next_\<close>/\<open>prev_\<close> pairs, address 0 is the null pointer and every
  access through it is a fault. The list object contributes its embedded
  sentinel node and the size counter.
\<close>

record heap =
  next_of :: "nat \<Rightarrow> nat"
  prev_of :: "nat \<Rightarrow> nat"

record SimpleLinkedList =
  lst_head :: nat
  lst_size :: u64

definition get_next :: "nat \<Rightarrow> heap \<Rightarrow> nat run" where
  "get_next p h = (if p = 0 then Inl Out_of_bounds else Inr (next_of h p))"

definition get_prev :: "nat \<Rightarrow> heap \<Rightarrow> nat run" where
  "get_prev p h = (if p = 0 then Inl Out_of_bounds else Inr (prev_of h p))"

definition set_next :: "nat \<Rightarrow> nat \<Rightarrow> heap \<Rightarrow> heap run" where
  "set_next p v h = (if p = 0 then Inl Out_of_bounds else Inr (h\<lparr>next_of := (next_of h)(p := v)\<rparr>))"

definition set_prev :: "nat \<Rightarrow> nat \<Rightarrow> heap \<Rightarrow> heap run" where
  "set_prev p v h = (if p = 0 then Inl Out_of_bounds else Inr (h\<lparr>prev_of := (prev_of h)(p := v)\<rparr>))"

type_synonym lstate = "SimpleLinkedList \<times> heap"

definition SimpleLinkedList_init :: "nat \<Rightarrow> heap \<Rightarrow> lstate run" where
  "SimpleLinkedList_init addr h =
     bind_run (set_prev addr addr h) (\<lambda>h.
     bind_run (set_next addr addr h) (\<lambda>h.
       Inr (\<lparr>lst_head = addr, lst_size = 0\<rparr>, h)))"

definition list_empty :: "lstate \<Rightarrow> bool" where
  "list_empty st = (next_of (snd st) (lst_head (fst st)) = lst_head (fst st))"

definition oldest :: "lstate \<Rightarrow> nat" where
  "oldest st = (let p = prev_of (snd st) (lst_head (fst st)) in if p = lst_head (fst st) then 0 else p)"

definition newest :: "lstate \<Rightarrow> nat" where
  "newest st = (let p = next_of (snd st) (lst_head (fst st)) in if p = lst_head (fst st) then 0 else p)"

definition list_next :: "nat \<Rightarrow> lstate \<Rightarrow> nat run" where
  "list_next cache st =
     bind_run (get_next cache (snd st)) (\<lambda>p. Inr (if p = lst_head (fst st) then 0 else p))"

definition list_prev :: "nat \<Rightarrow> lstate \<Rightarrow> nat run" where
  "list_prev cache st =
     bind_run (get_prev cache (snd st)) (\<lambda>p. Inr (if p = lst_head (fst st) then 0 else p))"

text \<open>The last two assignments of the three insertions, followed by the size update.\<close>

definition link_in :: "nat \<Rightarrow> u64 \<Rightarrow> SimpleLinkedList \<Rightarrow> heap \<Rightarrow> lstate run" where
  "link_in cache n l h =
     bind_run (get_prev cache h) (\<lambda>p.
     bind_run (set_next p cache h) (\<lambda>h.
     bind_run (get_next cache h) (\<lambda>q.
     bind_run (set_prev q cache h) (\<lambda>h.
       Inr (l\<lparr>lst_size := lst_size l + n\<rparr>, h)))))"

definition InsertFront :: "nat \<Rightarrow> u64 \<Rightarrow> lstate \<Rightarrow> lstate run" where
  "InsertFront cache n st =
     (let l = fst st
      in bind_run (set_prev cache (lst_head l) (snd st)) (\<lambda>h.
         bind_run (get_next (lst_head l) h) (\<lambda>q.
         bind_run (set_next cache q h) (\<lambda>h. link_in cache n l h))))"

definition InsertBack :: "nat \<Rightarrow> u64 \<Rightarrow> lstate \<Rightarrow> lstate run" where
  "InsertBack cache n st =
     (let l = fst st
      in bind_run (set_next cache (lst_head l) (snd st)) (\<lambda>h.
         bind_run (get_prev (lst_head l) h) (\<lambda>p.
         bind_run (set_prev cache p h) (\<lambda>h. link_in cache n l h))))"

definition InsertToNext :: "nat \<Rightarrow> nat \<Rightarrow> u64 \<Rightarrow> lstate \<Rightarrow> lstate run" where
  "InsertToNext cache base n st =
     bind_run (set_prev cache base (snd st)) (\<lambda>h.
     bind_run (get_next base h) (\<lambda>q.
     bind_run (set_next cache q h) (\<lambda>h. link_in cache n (fst st) h)))"

definition list_Delete :: "nat \<Rightarrow> nat \<Rightarrow> u64 \<Rightarrow> lstate \<Rightarrow> lstate run" where
  "list_Delete cache poison n st =
     (let l = fst st; h = snd st
      in bind_run (get_prev cache h) (\<lambda>p. bind_run (get_next cache h) (\<lambda>q.
         bind_run (set_next p q h) (\<lambda>h.
         bind_run (get_next cache h) (\<lambda>q. bind_run (get_prev cache h) (\<lambda>p.
         bind_run (set_prev q p h) (\<lambda>h.
         bind_run (set_prev cache poison h) (\<lambda>h.
         bind_run (set_next cache poison h) (\<lambda>h.
           Inr (l\<lparr>lst_size := lst_size l - n\<rparr>, h))))))))))"

text \<open>Returns the popped node, the null pointer when the list is empty.\<close>

definition Pop :: "nat \<Rightarrow> u64 \<Rightarrow> lstate \<Rightarrow> (nat \<times> lstate) run" where
  "Pop poison n st =
     (let l = fst st; h = snd st
      in if prev_of h (lst_head l) = lst_head l then Inr (0, st)
         else (let node = prev_of h (lst_head l)
               in bind_run (list_Delete node poison n st) (\<lambda>st. Inr (node, st))))"

definition Splice :: "SimpleLinkedList \<Rightarrow> lstate \<Rightarrow> lstate run" where
  "Splice new_list st =
     (let l = fst st; h = snd st;
          prev = lst_head l; nxt = newest st;
          first = newest (new_list, h); final = oldest (new_list, h)
      in bind_run (set_prev first prev h) (\<lambda>h.
         bind_run (set_next prev first h) (\<lambda>h.
         bind_run (set_next final nxt h) (\<lambda>h.
         bind_run (set_prev nxt final h) (\<lambda>h. Inr (l, h))))))"

section \<open>Abstraction to a list of nodes\<close>

text \<open>\<open>linked h a xs b\<close>: following \<open>next_\<close> from \<open>a\<close> visits \<open>xs\<close> and arrives at \<open>b\<close>, and \<open>prev_\<close> runs back.\<close>

fun linked :: "heap \<Rightarrow> nat \<Rightarrow> nat list \<Rightarrow> nat \<Rightarrow> bool" where
  "linked h a [] b = (next_of h a = b \<and> prev_of h b = a)"
| "linked h a (x # xs) b = (next_of h a = x \<and> prev_of h x = a \<and> linked h x xs b)"

text \<open>\<open>holds_list st xs\<close>: the list holds the nodes \<open>xs\<close>, newest (front) first.\<close>

definition holds_list :: "lstate \<Rightarrow> nat list \<Rightarrow> bool" where
  "holds_list st xs =
     (linked (snd st) (lst_head (fst st)) xs (lst_head (fst st))
      \<and> distinct (lst_head (fst st) # xs) \<and> 0 \<notin> set (lst_head (fst st) # xs))"

lemma linked_append: "linked h a (xs @ y # ys) b \<longleftrightarrow> linked h a xs y \<and> linked h y ys b"
  by (induction xs arbitrary: a) auto

lemma linked_cong:
  assumes "\<And>p. p \<in> set (a # xs) \<Longrightarrow> next_of h' p = next_of h p"
    and "\<And>p. p \<in> set (b # xs) \<Longrightarrow> prev_of h' p = prev_of h p"
  shows "linked h' a xs b = linked h a xs b"
  using assms by (induction xs arbitrary: a) auto

lemma linked_ends:
  "linked h a xs b \<Longrightarrow> next_of h a = (case xs of [] \<Rightarrow> b | x # _ \<Rightarrow> x)"
  "linked h a xs b \<Longrightarrow> prev_of h b = (if xs = [] then a else last xs)"
  by (induction xs arbitrary: a) (auto split: list.splits)

lemma linked_mid:
  assumes "linked h a (as @ x # bs) b"
  shows "prev_of h x \<in> set (a # as)" "next_of h x \<in> set (b # bs)"
  using assms linked_ends(2)[of h a as x] linked_ends(1)[of h x bs b]
  by (auto simp: linked_append split: list.splits if_splits)

lemma last_neq: "x \<notin> set xs \<Longrightarrow> xs \<noteq> [] \<Longrightarrow> last xs \<noteq> x"
  by auto

lemmas heap_ops = get_next_def get_prev_def set_next_def set_prev_def

lemma newest_holds: "holds_list st xs \<Longrightarrow> newest st = (case xs of [] \<Rightarrow> 0 | x # _ \<Rightarrow> x)"
  by (auto simp: holds_list_def newest_def Let_def dest: linked_ends(1) split: list.splits)

lemma oldest_holds: "holds_list st xs \<Longrightarrow> oldest st = (if xs = [] then 0 else last xs)"
  by (auto simp: holds_list_def oldest_def Let_def dest!: linked_ends(2))

lemma list_empty_holds: "holds_list st xs \<Longrightarrow> list_empty st \<longleftrightarrow> xs = []"
  by (auto simp: holds_list_def list_empty_def Let_def dest: linked_ends(1) split: list.splits)

text \<open>Linking a fresh node in between two neighbours, and unlinking a node.\<close>

lemma linked_insert:
  assumes "linked h a (as @ bs) b" "distinct (as @ bs)" "a \<notin> set (as @ bs)" "b \<notin> set (as @ bs)"
    "x \<notin> set (a # b # as @ bs)"
    and "p = (if as = [] then a else last as)" "q = (case bs of [] \<Rightarrow> b | y # _ \<Rightarrow> y)"
    and "h' = h\<lparr>next_of := (next_of h)(x := q, p := x), prev_of := (prev_of h)(x := p, q := x)\<rparr>"
  shows "linked h' a (as @ x # bs) b"
  using assms
proof (induction as arbitrary: a)
  case Nil
  show ?case
  proof (cases bs)
    case (Cons y ys)
    have "linked h' y ys b = linked h y ys b" using Nil Cons by (intro linked_cong) auto
    then show ?thesis using Nil Cons by auto
  qed (use Nil in auto)
next
  case (Cons z as)
  have "p = (if as = [] then z else last as)" using Cons.prems(6) by auto
  then have "linked h' z (as @ x # bs) b" using Cons.prems by (intro Cons.IH) auto
  moreover have "a \<noteq> p" "z \<noteq> q" using Cons.prems by (auto split: list.splits)
  ultimately show ?case using Cons.prems by auto
qed

lemma linked_remove:
  assumes "linked h a (as @ x # bs) b" "distinct (as @ x # bs)" "a \<notin> set (as @ x # bs)" "b \<notin> set (as @ x # bs)"
    and "p = prev_of h x" "q = next_of h x"
    and "h' = h\<lparr>next_of := (next_of h)(p := q, x := z), prev_of := (prev_of h)(q := p, x := z)\<rparr>"
  shows "linked h' a (as @ bs) b"
  using assms
proof (induction as arbitrary: a)
  case Nil
  then have pq: "p = a" "q = (case bs of [] \<Rightarrow> b | y # _ \<Rightarrow> y)" by (auto dest: linked_ends(1))
  show ?case
  proof (cases bs)
    case (Cons y ys)
    have "linked h' y ys b = linked h y ys b" using Nil Cons pq by (intro linked_cong) auto
    then show ?thesis using Nil Cons pq by auto
  qed (use Nil pq in auto)
next
  case (Cons w as)
  have "linked h' w (as @ bs) b" using Cons.prems by (intro Cons.IH) auto
  moreover have "p \<in> set (w # as)" "q \<in> set (b # bs)"
    using Cons.prems linked_mid[of h w as x bs b] by auto
  ultimately show ?case using Cons.prems by auto
qed

section \<open>The operations on the abstraction\<close>

lemma InsertToNext_holds:
  assumes "holds_list st (as @ bs)" "x \<notin> set (lst_head (fst st) # as @ bs)" "x \<noteq> 0"
    and "base = (if as = [] then lst_head (fst st) else last as)"
  shows "\<exists>st'. InsertToNext x base n st = Inr st' \<and> holds_list st' (as @ x # bs)
    \<and> lst_head (fst st') = lst_head (fst st) \<and> lst_size (fst st') = lst_size (fst st) + n"
proof -
  obtain l h where st: "st = (l, h)" by fastforce
  let ?a = "lst_head l"
  define q where "q = (case bs of [] \<Rightarrow> ?a | y # _ \<Rightarrow> y)"
  have w: "linked h ?a (as @ bs) ?a" "distinct (?a # as @ bs)" "0 \<notin> set (?a # as @ bs)"
    using assms(1) by (simp_all add: holds_list_def st)
  have q: "next_of h base = q" using w(1) assms(4) st
    by (cases as rule: rev_cases; cases bs) (auto simp: q_def linked_append)
  have b: "base \<noteq> 0" "base \<noteq> x" "q \<noteq> 0" "q \<noteq> x"
    using w assms st last_neq[of _ as] by (auto simp: q_def split: list.splits if_splits)
  define h' where "h' = h\<lparr>next_of := (next_of h)(x := q, base := x), prev_of := (prev_of h)(x := base, q := x)\<rparr>"
  have "InsertToNext x base n st = Inr (l\<lparr>lst_size := lst_size l + n\<rparr>, h')"
    using b q assms(3) by (simp add: InsertToNext_def link_in_def heap_ops st h'_def fun_upd_twist)
  moreover have "linked h' ?a (as @ x # bs) ?a"
    using w assms st by (intro linked_insert[OF w(1) _ _ _ _ _ _ h'_def]) (auto simp: q_def)
  ultimately show ?thesis using w assms st by (auto simp: holds_list_def)
qed

lemma InsertFront_is_ToNext: "InsertFront x n st = InsertToNext x (lst_head (fst st)) n st"
  by (simp add: InsertFront_def InsertToNext_def Let_def)

lemma InsertBack_is_ToNext:
  assumes "holds_list st xs" "x \<notin> set (lst_head (fst st) # xs)" "x \<noteq> 0"
  shows "InsertBack x n st = InsertToNext x (if xs = [] then lst_head (fst st) else last xs) n st"
proof -
  obtain l h where st: "st = (l, h)" by fastforce
  define p where "p = (if xs = [] then lst_head l else last xs)"
  have w: "linked h (lst_head l) xs (lst_head l)" "0 \<notin> set (lst_head l # xs)"
    using assms(1) by (simp_all add: holds_list_def st)
  have "prev_of h (lst_head l) = p" using linked_ends(2)[OF w(1)] by (simp add: p_def)
  moreover have "next_of h p = lst_head l"
    using w(1) by (cases xs rule: rev_cases) (auto simp: linked_append p_def)
  moreover have "p \<noteq> 0" "p \<noteq> x" "lst_head l \<noteq> x" "lst_head l \<noteq> 0"
    using w(2) assms st last_neq[of _ xs] by (auto simp: p_def)
  ultimately have "InsertBack x n st = InsertToNext x p n st" using assms(3) st
    by (simp add: InsertBack_def InsertToNext_def link_in_def heap_ops)
  then show ?thesis by (simp add: p_def st)
qed

lemma Delete_holds:
  assumes "holds_list st (as @ x # bs)"
  shows "\<exists>st'. list_Delete x poison n st = Inr st' \<and> holds_list st' (as @ bs)
    \<and> lst_head (fst st') = lst_head (fst st) \<and> lst_size (fst st') = lst_size (fst st) - n
    \<and> next_of (snd st') x = poison \<and> prev_of (snd st') x = poison"
proof -
  obtain l h where st: "st = (l, h)" by fastforce
  let ?a = "lst_head l"
  define p where "p = prev_of h x"
  define q where "q = next_of h x"
  have w: "linked h ?a (as @ x # bs) ?a" "distinct (?a # as @ x # bs)" "0 \<notin> set (?a # as @ x # bs)"
    using assms(1) by (simp_all add: holds_list_def st)
  then have b: "p \<in> set (?a # as)" "q \<in> set (?a # bs)"
    using linked_mid[OF w(1)] by (simp_all add: p_def q_def)
  then have nz: "p \<noteq> 0" "q \<noteq> 0" "x \<noteq> 0" "p \<noteq> x" "q \<noteq> x" using w by auto
  define h' where "h' = h\<lparr>next_of := (next_of h)(p := q, x := poison), prev_of := (prev_of h)(q := p, x := poison)\<rparr>"
  have "list_Delete x poison n st = Inr (l\<lparr>lst_size := lst_size l - n\<rparr>, h')"
    using nz by (simp add: list_Delete_def heap_ops st h'_def p_def q_def)
  moreover have "linked h' ?a (as @ bs) ?a"
    using w by (intro linked_remove[OF w(1) _ _ _ p_def q_def h'_def]) auto
  ultimately show ?thesis using w st by (auto simp: holds_list_def h'_def)
qed

lemma Pop_holds:
  assumes "holds_list st xs"
  shows "xs = [] \<Longrightarrow> Pop poison n st = Inr (0, st)"
    and "xs = as @ [x] \<Longrightarrow> \<exists>st'. Pop poison n st = Inr (x, st') \<and> holds_list st' as \<and> x \<noteq> 0
      \<and> lst_head (fst st') = lst_head (fst st) \<and> lst_size (fst st') = lst_size (fst st) - n"
proof -
  have e: "prev_of (snd st) (lst_head (fst st)) = (if xs = [] then lst_head (fst st) else last xs)"
    using assms linked_ends(2) by (simp add: holds_list_def)
  show "xs = [] \<Longrightarrow> Pop poison n st = Inr (0, st)" using e by (simp add: Pop_def)
  assume x: "xs = as @ [x]"
  then have "x \<noteq> lst_head (fst st)" "x \<noteq> 0" using assms by (auto simp: holds_list_def)
  then show "\<exists>st'. Pop poison n st = Inr (x, st') \<and> holds_list st' as \<and> x \<noteq> 0
      \<and> lst_head (fst st') = lst_head (fst st) \<and> lst_size (fst st') = lst_size (fst st) - n"
    using e x Delete_holds[of st as x "[]" poison n] assms by (auto simp: Pop_def)
qed

text \<open>
  Splicing two non-empty lists with different sentinels: the nodes of the other
  list come first. The size counter keeps the old value and the other list's
  sentinel still points at the moved nodes.
\<close>

lemma Splice_holds:
  assumes "holds_list st xs" "holds_list (m, snd st) ys" "xs \<noteq> []" "ys \<noteq> []"
    and "set (lst_head (fst st) # xs) \<inter> set (lst_head m # ys) = {}"
  shows "\<exists>st'. Splice m st = Inr st' \<and> holds_list st' (ys @ xs) \<and> fst st' = fst st"
proof -
  obtain l h where st: "st = (l, h)" by fastforce
  let ?a = "lst_head l" and ?m = "lst_head m"
  obtain y ys' where y: "ys = y # ys'" using assms(4) by (cases ys) auto
  obtain zs z where z: "ys = zs @ [z]" using assms(4) by (cases ys rule: rev_cases) auto
  obtain x xs' where x: "xs = x # xs'" using assms(3) by (cases xs) auto
  have w: "linked h ?a xs ?a" "distinct (?a # xs)" "0 \<notin> set (?a # xs)"
    "linked h ?m ys ?m" "distinct (?m # ys)" "0 \<notin> set (?m # ys)"
    using assms(1,2) by (simp_all add: holds_list_def st)
  define h' where "h' = h\<lparr>next_of := (next_of h)(?a := y, z := x), prev_of := (prev_of h)(y := ?a, x := z)\<rparr>"
  have n: "newest st = x" "newest (m, h) = y" "oldest (m, h) = z"
    using newest_holds[OF assms(1)] newest_holds[OF assms(2)] oldest_holds[OF assms(2)]
    unfolding st snd_conv by (simp add: x, simp add: y, simp add: z)
  have nz: "x \<noteq> 0" "y \<noteq> 0" "z \<noteq> 0" "?a \<noteq> 0"
    using w(3,6) x y z by (simp, simp, metis in_set_conv_decomp list.set_intros(2), simp)
  have "Splice m st = Inr (l, h')"
    using n nz st by (simp add: Splice_def heap_ops h'_def Let_def)
  moreover have "linked h' ?a (ys @ xs) ?a"
  proof -
    have d: "z \<notin> set xs" "y \<notin> set xs" "x \<notin> set ys" "?a \<notin> set ys" "z \<noteq> ?a" "y \<noteq> ?a"
    proof -
      have "x \<in> set xs" "y \<in> set ys" "z \<in> set ys" using x y z by (simp, simp, metis in_set_conv_decomp)
      then show "z \<notin> set xs" "y \<notin> set xs" "x \<notin> set ys" "?a \<notin> set ys" "z \<noteq> ?a" "y \<noteq> ?a"
        using assms(5) st by auto
    qed
    have 1: "linked h' x xs' ?a"
    proof -
      have "linked h' x xs' ?a = linked h x xs' ?a"
        using w x d by (intro linked_cong) (auto simp: h'_def)
      then show ?thesis using w(1) x by simp
    qed
    have "linked h' y ys' x"
    proof (cases "ys'" rule: rev_cases)
      case Nil
      then show ?thesis using y z d by (simp add: h'_def)
    next
      case (snoc us v)
      then have v: "v = z" using y z by (metis last_ConsR last_snoc snoc_eq_iff_butlast)
      have "linked h' y us z = linked h y us z"
        using w y d snoc v x by (intro linked_cong) (auto simp: h'_def)
      moreover have "linked h y us z" using w(4) y snoc v by (simp add: linked_append)
      ultimately show ?thesis using snoc v d by (simp add: linked_append h'_def)
    qed
    then show ?thesis using 1 y x d by (simp add: linked_append h'_def)
  qed
  ultimately show ?thesis using w assms(5) st by (auto simp: holds_list_def)
qed

lemma Splice_empty_faults:
  assumes "holds_list st xs" "holds_list (m, snd st) ys" "xs = [] \<or> ys = []"
  shows "Splice m st = Inl Out_of_bounds"
proof -
  have "newest st = 0 \<or> newest (m, snd st) = 0"
    using newest_holds[OF assms(1)] newest_holds[OF assms(2)] assms(3) by auto
  then show ?thesis by (auto simp: Splice_def heap_ops Let_def bind_run_def)
qed

section \<open>The list as a queue\<close>

text \<open>
  The way the request and memory pools use the list: new nodes at the front, the
  oldest node popped from the back. The nodes are those of a fixed list object
  at address \<open>a\<close>.
\<close>

definition queue_state :: "nat \<Rightarrow> lstate \<Rightarrow> nat list \<Rightarrow> bool" where
  "queue_state a st xs =
     (holds_list st (rev xs) \<and> lst_head (fst st) = a \<and> lst_size (fst st) = word_of_nat (length xs))"

definition pop_node :: "lstate \<Rightarrow> (nat option \<times> lstate) run" where
  "pop_node st = bind_run (Pop 0 1 st) (\<lambda>(p, st). Inr (if p = 0 then None else Some p, st))"

interpretation list_fifo: fifo_queue "queue_state a" "\<lambda>xs x. x \<noteq> 0 \<and> x \<noteq> a \<and> x \<notin> set xs"
    "\<lambda>x. InsertFront x 1" pop_node
proof
  fix st xs x assume q: "queue_state a st xs" and c: "x \<noteq> 0 \<and> x \<noteq> a \<and> x \<notin> set xs"
  have "holds_list st ([] @ rev xs)" "x \<notin> set (lst_head (fst st) # [] @ rev xs)" "x \<noteq> 0"
    "a = (if [] = [] then lst_head (fst st) else last [])"
    using q c by (auto simp: queue_state_def)
  from InsertToNext_holds[OF this, of 1] obtain st' where
    "InsertToNext x a 1 st = Inr st'" "holds_list st' (x # rev xs)"
    "lst_head (fst st') = a" "lst_size (fst st') = word_of_nat (length xs) + 1"
    using q by (auto simp: queue_state_def)
  then show "\<exists>s'. InsertFront x 1 st = Inr s' \<and> queue_state a s' (xs @ [x])"
    using q by (intro exI[of _ st']) (simp add: queue_state_def InsertFront_is_ToNext)
next
  fix st assume "queue_state a st []"
  then show "pop_node st = Inr (None, st)"
    using Pop_holds(1)[of st "[]"] by (simp add: queue_state_def pop_node_def)
next
  fix st x xs assume q: "queue_state a st (x # xs)"
  then have "holds_list st (rev (x # xs))" by (simp only: queue_state_def)
  from Pop_holds(2)[OF this, of "rev xs" x 0 1] obtain st' where
    "Pop 0 1 st = Inr (x, st')" "holds_list st' (rev xs)" "x \<noteq> 0"
    "lst_head (fst st') = a" "lst_size (fst st') = word_of_nat (length (x # xs)) - 1"
    using q by (auto simp: queue_state_def)
  then show "\<exists>s'. pop_node st = Inr (Some x, s') \<and> queue_state a s' xs"
    by (intro exI[of _ st']) (simp add: queue_state_def pop_node_def)
qed

lemma init_queue_state:
  "a \<noteq> 0 \<Longrightarrow> \<exists>st. SimpleLinkedList_init a h = Inr st \<and> queue_state a st []"
  by (simp add: SimpleLinkedList_init_def heap_ops queue_state_def holds_list_def)

section \<open>Properties\<close>

text \<open>
  C24: a freshly constructed list used with \<open>InsertFront\<close> and \<open>Pop\<close> is a queue: for
  every interleaving that never inserts a node already in the list, all
  operations succeed without following a null pointer, and the nodes popped,
  followed by the nodes still in the list, are the nodes inserted in order.
\<close>

theorem linked_list_fifo:
  assumes "a \<noteq> 0" "admissible (\<lambda>xs x. x \<noteq> 0 \<and> x \<noteq> a \<and> x \<notin> set xs) ops []"
  shows "\<exists>st out st' rest. SimpleLinkedList_init a h = Inr st
    \<and> queue_run (\<lambda>x. InsertFront x 1) pop_node ops st = Inr (out, st')
    \<and> queue_state a st' rest \<and> map the (filter (\<lambda>v. v \<noteq> None) out) @ rest = enqueued ops"
proof -
  obtain st where st: "SimpleLinkedList_init a h = Inr st" "queue_state a st []"
    using init_queue_state[OF assms(1)] by blast
  from list_fifo.run_order[OF st(2) assms(2)] st(1) show ?thesis by auto
qed

theorem linked_list_fifo_witness:
  "\<exists>st out st' rest. SimpleLinkedList_init 100 \<lparr>next_of = \<lambda>_. 0, prev_of = \<lambda>_. 0\<rparr> = Inr st
    \<and> queue_run (\<lambda>x. InsertFront x 1) pop_node [Enq 8, Enq 16, Deq, Enq 8] st = Inr (out, st')
    \<and> queue_state 100 st' rest \<and> map the (filter (\<lambda>v. v \<noteq> None) out) @ rest = [8, 16, 8]"
  using linked_list_fifo[of 100 "[Enq 8, Enq 16, Deq, Enq 8]" "\<lparr>next_of = \<lambda>_. 0, prev_of = \<lambda>_. 0\<rparr>"]
  by simp

text \<open>
  Inserting next to a member, inserting at the back and deleting a member act
  on the list of nodes as expected, update the size counter and leave the
  deleted node's links poisoned.
\<close>

theorem linked_list_edit:
  assumes "holds_list st (as @ b # bs)" "x \<notin> set (lst_head (fst st) # as @ b # bs)" "x \<noteq> 0"
  shows "(\<exists>st'. InsertToNext x b n st = Inr st' \<and> holds_list st' (as @ b # x # bs)
      \<and> lst_size (fst st') = lst_size (fst st) + n)
    \<and> (\<exists>st'. InsertBack x n st = Inr st' \<and> holds_list st' (as @ b # bs @ [x])
      \<and> lst_size (fst st') = lst_size (fst st) + n)
    \<and> (\<exists>st'. list_Delete b poison n st = Inr st' \<and> holds_list st' (as @ bs)
      \<and> lst_size (fst st') = lst_size (fst st) - n
      \<and> next_of (snd st') b = poison \<and> prev_of (snd st') b = poison)"
proof -
  have 1: "\<exists>st'. InsertToNext x b n st = Inr st' \<and> holds_list st' (as @ b # x # bs)
      \<and> lst_size (fst st') = lst_size (fst st) + n"
    using InsertToNext_holds[of st "as @ [b]" bs x b n] assms by auto
  have 2: "\<exists>st'. InsertBack x n st = Inr st' \<and> holds_list st' (as @ b # bs @ [x])
      \<and> lst_size (fst st') = lst_size (fst st) + n"
    using InsertToNext_holds[of st "as @ b # bs" "[]" x "last (b # bs)" n] assms
      InsertBack_is_ToNext[OF assms(1,2,3), of n] by auto
  from 1 2 Delete_holds[OF assms(1), of poison n] show ?thesis by blast
qed

theorem linked_list_edit_witness:
  "\<exists>st'. list_Delete 8 0 1 (\<lparr>lst_head = 100, lst_size = 1\<rparr>,
      \<lparr>next_of = (\<lambda>p. if p = 8 then 100 else 8), prev_of = (\<lambda>p. if p = 8 then 100 else 8)\<rparr>) = Inr st'
    \<and> holds_list st' [] \<and> lst_size (fst st') = 0"
proof -
  let ?st = "(\<lparr>lst_head = 100, lst_size = 1\<rparr>,
      \<lparr>next_of = (\<lambda>p. if p = 8 then 100 else 8), prev_of = (\<lambda>p. if p = (8::nat) then 100 else (8::nat))\<rparr>)"
  have "holds_list ?st ([] @ 8 # [])" "16 \<notin> set (lst_head (fst ?st) # [] @ 8 # [])" "(16::nat) \<noteq> 0"
    by (simp_all add: holds_list_def)
  from linked_list_edit[OF this, of 1 0] show ?thesis by auto
qed

text \<open>
  C25: \<open>Splice\<close> works only when both lists are non-empty, and then puts the other
  list's nodes in front but leaves the size counter unchanged; when either list
  is empty it follows the null pointer that \<open>newest\<close> returns.
\<close>

theorem splice_needs_nonempty:
  assumes "holds_list st xs" "holds_list (m, snd st) ys"
    and "set (lst_head (fst st) # xs) \<inter> set (lst_head m # ys) = {}"
  shows "if xs \<noteq> [] \<and> ys \<noteq> []
    then \<exists>st'. Splice m st = Inr st' \<and> holds_list st' (ys @ xs) \<and> lst_size (fst st') = lst_size (fst st)
    else Splice m st = Inl Out_of_bounds"
  using Splice_holds[OF assms(1,2) _ _ assms(3)] Splice_empty_faults[OF assms(1,2)] by auto

theorem splice_needs_nonempty_witness:
  "Splice \<lparr>lst_head = 200, lst_size = 0\<rparr> (\<lparr>lst_head = 100, lst_size = 0\<rparr>,
      \<lparr>next_of = (\<lambda>p. p), prev_of = (\<lambda>p. p)\<rparr>) = Inl Out_of_bounds"
  using splice_needs_nonempty[of "(\<lparr>lst_head = 100, lst_size = 0\<rparr>, \<lparr>next_of = (\<lambda>p. p), prev_of = (\<lambda>p. p)\<rparr>)"
      "[]" "\<lparr>lst_head = 200, lst_size = 0\<rparr>" "[]"]
  by (simp add: holds_list_def)

end
