(* ===== verification/KvFifo.thy ===== *)
theory KvFifo
  imports Queues
begin

text \<open>
  \<^verbatim>\<open>kv_fifo.h\<close> of the kernel driver: the ring buffer that carries completed
  requests from the NVMe completion path to the completion daemon. Operations
  are first taken as a whole (the queue seen by one thread), then split at the
  lock into the check and the locked update, to study concurrent callers.
\<close>

definition NVME_CQ_SHIFT :: nat where "NVME_CQ_SHIFT = 17"
definition NVME_CQ_DEPTH :: u32 where "NVME_CQ_DEPTH = push_bit NVME_CQ_SHIFT 1"
definition NVME_CQ_MASK :: u32 where "NVME_CQ_MASK = NVME_CQ_DEPTH - 1"

record kv_fifo =
  f_head :: u32
  f_tail :: u32
  f_mask :: u32
  f_ele :: "u64 list"
  f_nr_ele :: u32

definition kv_fifo_isFull :: "kv_fifo \<Rightarrow> bool" where
  "kv_fifo_isFull q = (f_head q = (f_tail q + 1) AND f_mask q)"

definition kv_fifo_isEmpty :: "kv_fifo \<Rightarrow> bool" where
  "kv_fifo_isEmpty q = (f_head q = f_tail q)"

definition init_kv_fifo :: kv_fifo where
  "init_kv_fifo =
     \<lparr>f_head = 0, f_tail = 0, f_mask = NVME_CQ_MASK,
      f_ele = replicate (unat NVME_CQ_DEPTH) 0, f_nr_ele = 0\<rparr>"

text \<open>\<open>BUG_ON\<close> of a non-empty queue.\<close>

definition destroy_kv_fifo :: "kv_fifo \<Rightarrow> unit run" where
  "destroy_kv_fifo q = (if \<not> kv_fifo_isEmpty q then Inl Aborted else Inr ())"

text \<open>What happens between \<open>spin_lock\<close> and \<open>spin_unlock\<close>, and the counter update after it.\<close>

definition enqueue_locked :: "u64 \<Rightarrow> kv_fifo \<Rightarrow> kv_fifo run" where
  "enqueue_locked addr q =
     (if unat (f_tail q) < length (f_ele q)
      then Inr (q\<lparr>f_ele := (f_ele q)[unat (f_tail q) := addr],
                  f_tail := (f_tail q + 1) AND f_mask q, f_nr_ele := f_nr_ele q + 1\<rparr>)
      else Inl Out_of_bounds)"

definition dequeue_locked :: "kv_fifo \<Rightarrow> (u64 \<times> kv_fifo) run" where
  "dequeue_locked q =
     (if unat (f_head q) < length (f_ele q)
      then Inr (f_ele q ! unat (f_head q),
                q\<lparr>f_head := (f_head q + 1) AND f_mask q, f_nr_ele := f_nr_ele q - 1\<rparr>)
      else Inl Out_of_bounds)"

definition kv_fifo_enqueue :: "u64 \<Rightarrow> kv_fifo \<Rightarrow> (bool \<times> kv_fifo) run" where
  "kv_fifo_enqueue addr q =
     (if kv_fifo_isFull q then Inr (False, q)
      else bind_run (enqueue_locked addr q) (\<lambda>q. Inr (True, q)))"

text \<open>Returns the null pointer on an empty queue.\<close>

definition kv_fifo_dequeue :: "kv_fifo \<Rightarrow> (u64 \<times> kv_fifo) run" where
  "kv_fifo_dequeue q = (if kv_fifo_isEmpty q then Inr (0, q) else dequeue_locked q)"

section \<open>Abstraction to a list\<close>

text \<open>A ring of \<open>2 ^ k\<close> slots holding \<open>xs\<close>, oldest first; one slot always stays free.\<close>

definition holds_ring :: "nat \<Rightarrow> kv_fifo \<Rightarrow> u64 list \<Rightarrow> bool" where
  "holds_ring k q xs =
     (k < 32 \<and> f_mask q = mask k \<and> length (f_ele q) = 2 ^ k \<and> unat (f_head q) < 2 ^ k
      \<and> length xs < 2 ^ k \<and> unat (f_tail q) = (unat (f_head q) + length xs) mod 2 ^ k
      \<and> (\<forall>i < length xs. f_ele q ! ((unat (f_head q) + i) mod 2 ^ k) = xs ! i)
      \<and> f_nr_ele q = word_of_nat (length xs))"

lemma unat_and_mask: "unat ((w :: u32) AND mask k) = unat w mod 2 ^ k"
  by (simp only: take_bit_eq_mask[symmetric] unsigned_take_bit_eq) (simp add: take_bit_eq_mod)

lemma unat_Suc_mask:
  assumes "k < 32" "unat w < 2 ^ k"
  shows "unat ((w + 1 :: u32) AND mask k) = (unat w + 1) mod 2 ^ k"
proof -
  have "(2 :: nat) ^ k < 2 ^ 32" using assms(1) by (intro power_strict_increasing) auto
  then have "unat w + 1 < 2 ^ 32" using assms(2) by linarith
  then have "unat (w + 1) = unat w + 1" by (simp add: unat_word_ariths)
  then show ?thesis by (simp only: unat_and_mask)
qed

lemma ring_inj:
  assumes "i < n" "j < n" "((a :: nat) + i) mod n = (a + j) mod n"
  shows "i = j"
proof -
  have "i = j" if "i \<le> j" "j < n" "(a + j) mod n = (a + i) mod n" for i j
  proof -
    have "n dvd (a + j) - (a + i)" using that by (subst mod_eq_dvd_iff_nat[symmetric]) auto
    then have "n dvd j - i" by simp
    then show ?thesis using that by (auto dest: dvd_imp_le)
  qed
  from this[of i j] this[of j i] assms show ?thesis by (cases "i \<le> j") auto
qed

lemma holds_ring_empty: "holds_ring k q xs \<Longrightarrow> kv_fifo_isEmpty q \<longleftrightarrow> xs = []"
proof -
  assume h: "holds_ring k q xs"
  have "kv_fifo_isEmpty q \<longleftrightarrow> unat (f_head q) = unat (f_tail q)"
    by (simp add: kv_fifo_isEmpty_def word_unat_eq_iff)
  also have "\<dots> \<longleftrightarrow> (unat (f_head q) + 0) mod 2 ^ k = (unat (f_head q) + length xs) mod 2 ^ k"
    using h by (simp add: holds_ring_def)
  also have "\<dots> \<longleftrightarrow> length xs = 0"
    using ring_inj[of 0 "2 ^ k" "length xs" "unat (f_head q)"] h by (auto simp: holds_ring_def)
  finally show ?thesis by simp
qed

lemma holds_ring_full: "holds_ring k q xs \<Longrightarrow> kv_fifo_isFull q \<longleftrightarrow> length xs + 1 = 2 ^ k"
proof -
  assume h: "holds_ring k q xs"
  then have t: "unat (f_tail q) < 2 ^ k" by (simp add: holds_ring_def)
  have "kv_fifo_isFull q \<longleftrightarrow> unat (f_head q) = unat ((f_tail q + 1) AND mask k)"
    using h unfolding kv_fifo_isFull_def word_unat_eq_iff[of "f_head q"] by (simp add: holds_ring_def)
  also have "\<dots> \<longleftrightarrow> unat (f_head q) = (unat (f_head q) + (length xs + 1)) mod 2 ^ k"
    using h t unat_Suc_mask[of k "f_tail q"] by (simp add: holds_ring_def mod_simps)
  also have "\<dots> \<longleftrightarrow> length xs + 1 = 2 ^ k"
  proof (cases "length xs + 1 = 2 ^ k")
    case True
    then show ?thesis using h by (simp add: holds_ring_def)
  next
    case False
    then have "length xs + 1 < 2 ^ k" using h by (simp add: holds_ring_def)
    then show ?thesis using False ring_inj[of 0 "2 ^ k" "length xs + 1" "unat (f_head q)"] h
      by (auto simp: holds_ring_def)
  qed
  finally show ?thesis .
qed

lemma enqueue_locked_holds:
  assumes "holds_ring k q xs" "length xs + 1 < 2 ^ k"
  shows "\<exists>q'. enqueue_locked x q = Inr q' \<and> holds_ring k q' (xs @ [x])"
proof -
  have h: "k < 32" "f_mask q = mask k" "length (f_ele q) = 2 ^ k" "unat (f_head q) < 2 ^ k"
    "unat (f_tail q) = (unat (f_head q) + length xs) mod 2 ^ k" "f_nr_ele q = word_of_nat (length xs)"
    "\<And>i. i < length xs \<Longrightarrow> f_ele q ! ((unat (f_head q) + i) mod 2 ^ k) = xs ! i"
    using assms(1) by (simp_all add: holds_ring_def)
  have t: "unat (f_tail q) < 2 ^ k" by (simp add: h(5))
  define q' where "q' = q\<lparr>f_ele := (f_ele q)[unat (f_tail q) := x],
                  f_tail := (f_tail q + 1) AND f_mask q, f_nr_ele := f_nr_ele q + 1\<rparr>"
  have "f_ele q' ! ((unat (f_head q) + i) mod 2 ^ k) = (xs @ [x]) ! i" if "i < length (xs @ [x])" for i
  proof (cases "i = length xs")
    case True
    then show ?thesis using h(3,5) t by (simp add: q'_def)
  next
    case False
    then have "i < length xs" using that by simp
    then have "(unat (f_head q) + i) mod 2 ^ k \<noteq> unat (f_tail q)"
      using h(5) assms(2) ring_inj[of i "2 ^ k" "length xs" "unat (f_head q)"] by auto
    then show ?thesis using h(7) \<open>i < length xs\<close> by (simp add: q'_def nth_append)
  qed
  moreover have "unat (f_tail q') = (unat (f_head q) + length (xs @ [x])) mod 2 ^ k"
    using unat_Suc_mask[OF h(1) t] h(2,5) by (simp add: q'_def mod_simps)
  ultimately have "holds_ring k q' (xs @ [x])"
    using h assms(2) by (simp add: holds_ring_def q'_def add.commute)
  then show ?thesis using t h(3) by (simp add: enqueue_locked_def q'_def)
qed

lemma dequeue_locked_holds:
  assumes "holds_ring k q (x # xs)"
  shows "\<exists>q'. dequeue_locked q = Inr (x, q') \<and> holds_ring k q' xs"
proof -
  have h: "k < 32" "f_mask q = mask k" "length (f_ele q) = 2 ^ k" "unat (f_head q) < 2 ^ k"
    "unat (f_tail q) = (unat (f_head q) + Suc (length xs)) mod 2 ^ k" "Suc (length xs) < 2 ^ k"
    "f_nr_ele q = word_of_nat (Suc (length xs))"
    and e: "\<And>i. i < Suc (length xs) \<Longrightarrow> f_ele q ! ((unat (f_head q) + i) mod 2 ^ k) = (x # xs) ! i"
    using assms(1) by (simp_all add: holds_ring_def)
  define q' where "q' = q\<lparr>f_head := (f_head q + 1) AND f_mask q, f_nr_ele := f_nr_ele q - 1\<rparr>"
  have n: "unat (f_head q') = (unat (f_head q) + 1) mod 2 ^ k"
    using unat_Suc_mask[OF h(1,4)] h(2) by (simp add: q'_def)
  have "f_ele q' ! ((unat (f_head q') + i) mod 2 ^ k) = xs ! i" if "i < length xs" for i
  proof -
    have "(unat (f_head q') + i) mod 2 ^ k = (unat (f_head q) + Suc i) mod 2 ^ k" by (simp add: n mod_simps)
    moreover have "f_ele q' = f_ele q" by (simp add: q'_def)
    ultimately show ?thesis using e[of "Suc i"] that by simp
  qed
  moreover have "unat (f_tail q') = (unat (f_head q') + length xs) mod 2 ^ k"
  proof -
    have "(unat (f_head q') + length xs) mod 2 ^ k = (unat (f_head q) + Suc (length xs)) mod 2 ^ k"
      by (simp add: n mod_simps)
    then show ?thesis using h(5) by (simp add: q'_def)
  qed
  ultimately have "holds_ring k q' xs"
    using h n by (auto simp: holds_ring_def q'_def)
  moreover have "dequeue_locked q = Inr (x, q')"
    using e[of 0] h(3,4) by (simp add: dequeue_locked_def q'_def)
  ultimately show ?thesis by blast
qed

lemma init_holds_ring: "holds_ring NVME_CQ_SHIFT init_kv_fifo []"
proof -
  have m: "NVME_CQ_MASK = mask NVME_CQ_SHIFT"
    by (simp add: NVME_CQ_MASK_def NVME_CQ_DEPTH_def NVME_CQ_SHIFT_def mask_eq_exp_minus_1)
  have "unat NVME_CQ_DEPTH = 2 ^ NVME_CQ_SHIFT" by (simp add: NVME_CQ_DEPTH_def NVME_CQ_SHIFT_def)
  then show ?thesis using m by (simp add: holds_ring_def init_kv_fifo_def) (simp add: NVME_CQ_SHIFT_def)
qed

section \<open>The ring as a queue\<close>

text \<open>Requests are non-null pointers, so that the null pointer means an empty queue.\<close>

definition ring_state :: "kv_fifo \<Rightarrow> u64 list \<Rightarrow> bool" where
  "ring_state q xs = (holds_ring NVME_CQ_SHIFT q xs \<and> 0 \<notin> set xs)"

definition ring_can :: "u64 list \<Rightarrow> u64 \<Rightarrow> bool" where
  "ring_can xs x = (x \<noteq> 0 \<and> length xs + 1 < 2 ^ NVME_CQ_SHIFT)"

definition ring_enq :: "u64 \<Rightarrow> kv_fifo \<Rightarrow> kv_fifo run" where
  "ring_enq x q = bind_run (kv_fifo_enqueue x q) (\<lambda>(done, q). if done then Inr q else Inl Aborted)"

definition ring_deq :: "kv_fifo \<Rightarrow> (u64 option \<times> kv_fifo) run" where
  "ring_deq q = bind_run (kv_fifo_dequeue q) (\<lambda>(x, q). Inr (if x = 0 then None else Some x, q))"

interpretation ring_fifo: fifo_queue ring_state ring_can ring_enq ring_deq
proof
  fix q xs x assume s: "ring_state q xs" and c: "ring_can xs x"
  then have h: "holds_ring NVME_CQ_SHIFT q xs" and l: "length xs + 1 < 2 ^ NVME_CQ_SHIFT"
    by (simp_all add: ring_state_def ring_can_def)
  from enqueue_locked_holds[OF h l, of x] obtain q' where
    "enqueue_locked x q = Inr q'" "holds_ring NVME_CQ_SHIFT q' (xs @ [x])" by blast
  then show "\<exists>q'. ring_enq x q = Inr q' \<and> ring_state q' (xs @ [x])"
    using holds_ring_full[OF h] l s c
    by (intro exI[of _ q']) (auto simp: ring_enq_def kv_fifo_enqueue_def ring_state_def ring_can_def)
next
  fix q assume "ring_state q []"
  then show "ring_deq q = Inr (None, q)"
    using holds_ring_empty[of NVME_CQ_SHIFT q "[]"] by (simp add: ring_state_def ring_deq_def kv_fifo_dequeue_def)
next
  fix q x xs assume s: "ring_state q (x # xs)"
  then have h: "holds_ring NVME_CQ_SHIFT q (x # xs)" by (simp add: ring_state_def)
  from dequeue_locked_holds[OF h] obtain q' where
    "dequeue_locked q = Inr (x, q')" "holds_ring NVME_CQ_SHIFT q' xs" by blast
  then show "\<exists>q'. ring_deq q = Inr (Some x, q') \<and> ring_state q' xs"
    using holds_ring_empty[OF h] s
    by (intro exI[of _ q']) (auto simp: ring_deq_def kv_fifo_dequeue_def ring_state_def)
qed

section \<open>One producer and one consumer\<close>

text \<open>
  Both operations test the queue before they take the lock. A state of the
  system is the ring, what each side has found out, and the history of the
  elements put in and taken out. The counter \<open>nr_ele\<close> is updated atomically after
  the lock is released and is not read by the operations.
\<close>

record spsc =
  ring :: kv_fifo
  producer :: "u64 option"
  consumer :: bool
  sent :: "u64 list"
  received :: "u64 list"

inductive spsc_step :: "spsc \<Rightarrow> spsc \<Rightarrow> bool" where
  check_full: "producer s = None \<Longrightarrow> \<not> kv_fifo_isFull (ring s) \<Longrightarrow>
     spsc_step s (s\<lparr>producer := Some x\<rparr>)"
| put: "producer s = Some x \<Longrightarrow> enqueue_locked x (ring s) = Inr r \<Longrightarrow>
     spsc_step s (s\<lparr>ring := r, producer := None, sent := sent s @ [x]\<rparr>)"
| check_empty: "\<not> consumer s \<Longrightarrow> \<not> kv_fifo_isEmpty (ring s) \<Longrightarrow>
     spsc_step s (s\<lparr>consumer := True\<rparr>)"
| take_out: "consumer s \<Longrightarrow> dequeue_locked (ring s) = Inr (x, r) \<Longrightarrow>
     spsc_step s (s\<lparr>ring := r, consumer := False, received := received s @ [x]\<rparr>)"

definition spsc_init :: spsc where
  "spsc_init = \<lparr>ring = init_kv_fifo, producer = None, consumer = False, sent = [], received = []\<rparr>"

inductive_cases spsc_stepE: "spsc_step s s'"

definition spsc_inv :: "spsc \<Rightarrow> bool" where
  "spsc_inv s = (\<exists>xs. holds_ring NVME_CQ_SHIFT (ring s) xs \<and> sent s = received s @ xs
     \<and> (producer s \<noteq> None \<longrightarrow> length xs + 1 < 2 ^ NVME_CQ_SHIFT) \<and> (consumer s \<longrightarrow> xs \<noteq> []))"

lemma spsc_inv_init: "spsc_inv spsc_init"
  using init_holds_ring by (auto simp: spsc_inv_def spsc_init_def)

lemma spsc_inv_step:
  assumes "spsc_step s s'" "spsc_inv s"
  shows "spsc_inv s'"
proof -
  obtain xs where h: "holds_ring NVME_CQ_SHIFT (ring s) xs" "sent s = received s @ xs"
    "producer s \<noteq> None \<longrightarrow> length xs + 1 < 2 ^ NVME_CQ_SHIFT" "consumer s \<longrightarrow> xs \<noteq> []"
    using assms(2) by (auto simp: spsc_inv_def)
  from assms(1) show ?thesis
  proof cases
    case (check_full x)
    have "length xs + 1 < 2 ^ NVME_CQ_SHIFT"
      using check_full holds_ring_full[OF h(1)] h(1) by (auto simp: holds_ring_def)
    then show ?thesis using check_full h by (auto simp: spsc_inv_def)
  next
    case (put x r)
    then show ?thesis using h enqueue_locked_holds[OF h(1), of x]
      by (auto simp: spsc_inv_def intro!: exI[of _ "xs @ [x]"])
  next
    case check_empty
    then show ?thesis using h holds_ring_empty[OF h(1)] by (auto simp: spsc_inv_def)
  next
    case (take_out x r)
    then obtain y ys where "xs = y # ys" using h(4) by (cases xs) auto
    then show ?thesis using take_out h dequeue_locked_holds[of NVME_CQ_SHIFT "ring s" y ys]
      by (auto simp: spsc_inv_def intro!: exI[of _ ys])
  qed
qed

lemma spsc_inv_reach: "spsc_step\<^sup>*\<^sup>* spsc_init s \<Longrightarrow> spsc_inv s"
  by (induction rule: rtranclp_induct) (auto simp: spsc_inv_init spsc_inv_step)

section \<open>Properties\<close>

text \<open>
  C26: used by one thread, the ring set up by \<open>init_kv_fifo\<close> is a queue of capacity
  131071: every interleaving of admissible insertions and removals succeeds,
  stays inside the array and hands out the requests in the order they were put
  in; an insertion into a full ring is refused and changes nothing.
\<close>

theorem kv_fifo_order:
  assumes "admissible ring_can ops []"
  shows "(\<exists>out q rest. queue_run ring_enq ring_deq ops init_kv_fifo = Inr (out, q) \<and> ring_state q rest
      \<and> map the (filter (\<lambda>v. v \<noteq> None) out) @ rest = enqueued ops)
    \<and> (\<forall>q xs x. ring_state q xs \<longrightarrow> length xs = 131071 \<longrightarrow> kv_fifo_enqueue x q = Inr (False, q))"
proof
  have "ring_state init_kv_fifo []" using init_holds_ring by (simp add: ring_state_def)
  from ring_fifo.run_order[OF this assms] show "\<exists>out q rest. queue_run ring_enq ring_deq ops init_kv_fifo = Inr (out, q)
      \<and> ring_state q rest \<and> map the (filter (\<lambda>v. v \<noteq> None) out) @ rest = enqueued ops" by simp
  show "\<forall>q xs x. ring_state q xs \<longrightarrow> length xs = 131071 \<longrightarrow> kv_fifo_enqueue x q = Inr (False, q)"
    using holds_ring_full by (auto simp: ring_state_def kv_fifo_enqueue_def NVME_CQ_SHIFT_def)
qed

theorem kv_fifo_order_witness:
  "\<exists>out q rest. queue_run ring_enq ring_deq [Enq 7, Enq 9, Deq] init_kv_fifo = Inr (out, q)
     \<and> ring_state q rest \<and> map the (filter (\<lambda>v. v \<noteq> None) out) @ rest = [7, 9]"
  using kv_fifo_order[of "[Enq 7, Enq 9, Deq]"] by (simp add: ring_can_def NVME_CQ_SHIFT_def)

text \<open>
  C10: with one producer and one consumer running concurrently, the tests made
  outside the lock are still valid inside it: in every reachable state the
  elements received, followed by those in the ring, are the elements sent, and
  neither locked section can leave the array.
\<close>

theorem kv_fifo_spsc_safe:
  assumes "spsc_step\<^sup>*\<^sup>* spsc_init s"
  shows "\<exists>xs. holds_ring NVME_CQ_SHIFT (ring s) xs \<and> sent s = received s @ xs
    \<and> (\<forall>x. producer s = Some x \<longrightarrow> (\<exists>r. enqueue_locked x (ring s) = Inr r))
    \<and> (consumer s \<longrightarrow> (\<exists>r. dequeue_locked (ring s) = Inr (hd xs, r) \<and> xs \<noteq> []))"
proof -
  obtain xs where h: "holds_ring NVME_CQ_SHIFT (ring s) xs" "sent s = received s @ xs"
    "producer s \<noteq> None \<longrightarrow> length xs + 1 < 2 ^ NVME_CQ_SHIFT" "consumer s \<longrightarrow> xs \<noteq> []"
    using spsc_inv_reach[OF assms] by (auto simp: spsc_inv_def)
  have "\<exists>r. enqueue_locked x (ring s) = Inr r" if "producer s = Some x" for x
    using enqueue_locked_holds[OF h(1), of x] h(3) that by auto
  moreover have "\<exists>r. dequeue_locked (ring s) = Inr (hd xs, r)" if "consumer s"
    using dequeue_locked_holds[of NVME_CQ_SHIFT "ring s" "hd xs" "tl xs"] h that by auto
  ultimately show ?thesis using h by blast
qed

theorem kv_fifo_spsc_safe_witness:
  "\<exists>s. spsc_step\<^sup>*\<^sup>* spsc_init s \<and> producer s = Some 5 \<and> (\<exists>r. enqueue_locked 5 (ring s) = Inr r)"
proof -
  let ?s = "spsc_init\<lparr>producer := Some 5\<rparr>"
  have "\<not> kv_fifo_isFull (ring spsc_init)"
    using holds_ring_full[OF init_holds_ring] by (simp add: spsc_init_def NVME_CQ_SHIFT_def)
  then have "spsc_step spsc_init ?s" by (intro check_full) (simp_all add: spsc_init_def)
  then have r: "spsc_step\<^sup>*\<^sup>* spsc_init ?s" by simp
  from kv_fifo_spsc_safe[OF r] r show ?thesis by (intro exI[of _ ?s]) auto
qed

text \<open>
  C27: with two producers this is not so: when one slot is left, both find the ring
  not full, and after both have inserted the ring looks empty, so that all its
  elements are lost to the consumer.
\<close>

theorem kv_fifo_two_producers:
  assumes "holds_ring k q xs" "length xs + 2 = 2 ^ k"
  shows "\<not> kv_fifo_isFull q \<and> (\<exists>q1 q2. enqueue_locked x q = Inr q1 \<and> enqueue_locked y q1 = Inr q2
    \<and> kv_fifo_isEmpty q2 \<and> kv_fifo_dequeue q2 = Inr (0, q2))"
proof -
  obtain q1 where q1: "enqueue_locked x q = Inr q1" "holds_ring k q1 (xs @ [x])"
    using enqueue_locked_holds[OF assms(1), of x] assms(2) by auto
  then have f: "kv_fifo_isFull q1" using holds_ring_full[OF q1(2)] assms(2) by simp
  have t: "unat (f_tail q1) < length (f_ele q1)" using q1(2) by (simp add: holds_ring_def)
  then obtain q2 where q2: "enqueue_locked y q1 = Inr q2" by (simp add: enqueue_locked_def)
  then have "f_head q2 = f_tail q2" using f t by (auto simp: enqueue_locked_def kv_fifo_isFull_def)
  then show ?thesis using q1(1) q2 holds_ring_full[OF assms(1)] assms(2)
    by (auto simp: kv_fifo_isEmpty_def kv_fifo_dequeue_def)
qed

theorem kv_fifo_two_producers_witness:
  "\<exists>q1 q2. enqueue_locked 8 \<lparr>f_head = 0, f_tail = 0, f_mask = 1, f_ele = [0, 0], f_nr_ele = 0\<rparr> = Inr q1
     \<and> enqueue_locked 16 q1 = Inr q2 \<and> kv_fifo_isEmpty q2"
proof -
  have "holds_ring 1 \<lparr>f_head = 0, f_tail = 0, f_mask = 1, f_ele = [0, 0], f_nr_ele = 0\<rparr> []"
    by (simp add: holds_ring_def)
  from kv_fifo_two_producers[OF this, of 8 16] show ?thesis by auto
qed

end
