(* ===== verification/KvHash.thy ===== *)
theory KvHash
  imports Prelude
begin

text \<open>
  \<^verbatim>\<open>kv_hash.c\<close> of the kernel driver: the request hash and the read-ahead hash, with
  their bucket locks, the locks and reference counts of the requests, and the
  retries of the callers. Memory, locks and counters are explicit: reading a
  freed request, taking a held lock or releasing a free one is a fault. A
  function with a \<open>goto restart\<close> is modelled by one pass through its body,
  which says whether it returns or has to be run again.
\<close>

section \<open>Requests, tables and locks\<close>

definition KV_HASH_BITS :: nat where "KV_HASH_BITS = 17"
definition KV_HASH_SIZE :: u32 where "KV_HASH_SIZE = push_bit KV_HASH_BITS 1"

datatype kv_hash_id = KV_RQ_HASH | KV_RA_HASH

text \<open>Bit numbers of the state word of a request.\<close>

definition KV_async_invalid_rq :: nat where "KV_async_invalid_rq = 0"
definition KV_async_blocking_rq :: nat where "KV_async_blocking_rq = 1"
definition KV_async_inFlight_rq :: nat where "KV_async_inFlight_rq = 2"
definition KV_async_flush_wakeup :: nat where "KV_async_flush_wakeup = 4"
definition KV_async_in_readahead :: nat where "KV_async_in_readahead = 6"
definition KV_async_completed :: nat where "KV_async_completed = 7"

lemmas rq_bits = KV_async_invalid_rq_def KV_async_blocking_rq_def KV_async_inFlight_rq_def
  KV_async_flush_wakeup_def KV_async_in_readahead_def KV_async_completed_def

definition nvme_cmd_kv_retrieve :: u8 where "nvme_cmd_kv_retrieve = 0x90"

definition is_kv_retrieve_cmd :: "u8 \<Rightarrow> bool" where
  "is_kv_retrieve_cmd opcode = (opcode = nvme_cmd_kv_retrieve)"

text \<open>
  \<open>rq_node\<close> is the embedded list node: the chain it is linked into, if any.
  \<open>rq_key\<close> is the memory at \<open>key_addr\<close> up to \<open>key_length\<close>.
\<close>

record kv_async_request =
  rq_opcode :: u8
  rq_state :: u64
  rq_key :: bytes
  rq_data_length :: u32
  rq_req :: "int option"
  rq_cqe_result :: u32
  rq_result :: u32
  rq_errors :: int
  rq_blocking_rq :: "nat option"
  rq_lock :: bool
  rq_hash_key :: u32
  rq_node :: "(kv_hash_id \<times> u32) option"
  rq_memq :: nat
  rq_refcount :: int
  rq_in_flight_rq :: nat

record kv_state =
  rqs :: "nat \<rightharpoonup> kv_async_request"
  hashtable :: "kv_hash_id \<Rightarrow> u32 \<Rightarrow> nat list"
  hash_lock :: "kv_hash_id \<Rightarrow> u32 \<Rightarrow> bool"
  nr_rq :: "kv_hash_id \<Rightarrow> int"
  ra_list :: "nat list"
  ra_lock :: bool

text \<open>\<open>kv_hash_init\<close> on both tables.\<close>

definition kv_hash_init :: kv_state where
  "kv_hash_init = \<lparr>rqs = Map.empty, hashtable = (\<lambda>_ _. []), hash_lock = (\<lambda>_ _. False),
     nr_rq = (\<lambda>_. 0), ra_list = [], ra_lock = False\<rparr>"

definition rq_of :: "nat \<Rightarrow> kv_state \<Rightarrow> kv_async_request run" where
  "rq_of a s = of_opt Use_after_free (rqs s a)"

definition put_rq :: "nat \<Rightarrow> kv_async_request \<Rightarrow> kv_state \<Rightarrow> kv_state" where
  "put_rq a r s = s\<lparr>rqs := (rqs s)(a \<mapsto> r)\<rparr>"

definition modify_rq :: "nat \<Rightarrow> (kv_async_request \<Rightarrow> kv_async_request) \<Rightarrow> kv_state \<Rightarrow> kv_state run" where
  "modify_rq a f s = bind_run (rq_of a s) (\<lambda>r. Inr (put_rq a (f r) s))"

text \<open>Spin locks, taken by one thread at a time.\<close>

definition spin_lock_hash :: "kv_hash_id \<Rightarrow> u32 \<Rightarrow> kv_state \<Rightarrow> kv_state run" where
  "spin_lock_hash h k s =
     (if KV_HASH_SIZE \<le> k then Inl Out_of_bounds
      else if hash_lock s h k then Inl Lock_held
      else Inr (s\<lparr>hash_lock := (hash_lock s)(h := (hash_lock s h)(k := True))\<rparr>))"

definition spin_unlock_hash :: "kv_hash_id \<Rightarrow> u32 \<Rightarrow> kv_state \<Rightarrow> kv_state run" where
  "spin_unlock_hash h k s =
     (if KV_HASH_SIZE \<le> k then Inl Out_of_bounds
      else if \<not> hash_lock s h k then Inl Unlock_free
      else Inr (s\<lparr>hash_lock := (hash_lock s)(h := (hash_lock s h)(k := False))\<rparr>))"

definition spin_lock_rq :: "nat \<Rightarrow> kv_state \<Rightarrow> kv_state run" where
  "spin_lock_rq a s =
     bind_run (rq_of a s) (\<lambda>r. if rq_lock r then Inl Lock_held else Inr (put_rq a (r\<lparr>rq_lock := True\<rparr>) s))"

definition spin_unlock_rq :: "nat \<Rightarrow> kv_state \<Rightarrow> kv_state run" where
  "spin_unlock_rq a s =
     bind_run (rq_of a s) (\<lambda>r. if \<not> rq_lock r then Inl Unlock_free else Inr (put_rq a (r\<lparr>rq_lock := False\<rparr>) s))"

definition spin_lock_ra :: "kv_state \<Rightarrow> kv_state run" where
  "spin_lock_ra s = (if ra_lock s then Inl Lock_held else Inr (s\<lparr>ra_lock := True\<rparr>))"

definition spin_unlock_ra :: "kv_state \<Rightarrow> kv_state run" where
  "spin_unlock_ra s = (if \<not> ra_lock s then Inl Unlock_free else Inr (s\<lparr>ra_lock := False\<rparr>))"

definition atomic_inc_refcount :: "nat \<Rightarrow> kv_state \<Rightarrow> kv_state run" where
  "atomic_inc_refcount a = modify_rq a (\<lambda>r. r\<lparr>rq_refcount := rq_refcount r + 1\<rparr>)"

definition atomic_dec_and_test :: "nat \<Rightarrow> kv_state \<Rightarrow> (bool \<times> kv_state) run" where
  "atomic_dec_and_test a s =
     bind_run (rq_of a s) (\<lambda>r. Inr (rq_refcount r - 1 = 0, put_rq a (r\<lparr>rq_refcount := rq_refcount r - 1\<rparr>) s))"

definition set_rq_bit :: "nat \<Rightarrow> nat \<Rightarrow> kv_state \<Rightarrow> kv_state run" where
  "set_rq_bit n a = modify_rq a (\<lambda>r. r\<lparr>rq_state := set_bit n (rq_state r)\<rparr>)"

definition clear_rq_bit :: "nat \<Rightarrow> nat \<Rightarrow> kv_state \<Rightarrow> kv_state run" where
  "clear_rq_bit n a = modify_rq a (\<lambda>r. r\<lparr>rq_state := unset_bit n (rq_state r)\<rparr>)"

definition add_nr_rq :: "int \<Rightarrow> kv_hash_id \<Rightarrow> kv_state \<Rightarrow> kv_state" where
  "add_nr_rq d h s = s\<lparr>nr_rq := (nr_rq s)(h := nr_rq s h + d)\<rparr>"

text \<open>Chains: linking a node at the head, unlinking it from whatever chain it is in.\<close>

definition hlist_add_head :: "nat \<Rightarrow> kv_hash_id \<Rightarrow> u32 \<Rightarrow> kv_state \<Rightarrow> kv_state run" where
  "hlist_add_head a h k s =
     bind_run (modify_rq a (\<lambda>r. r\<lparr>rq_node := Some (h, k)\<rparr>) s) (\<lambda>s.
       Inr (s\<lparr>hashtable := (hashtable s)(h := (hashtable s h)(k := a # hashtable s h k))\<rparr>))"

definition hlist_del_init :: "nat \<Rightarrow> kv_state \<Rightarrow> kv_state run" where
  "hlist_del_init a s =
     bind_run (rq_of a s) (\<lambda>r.
       case rq_node r of
         None \<Rightarrow> Inr s
       | Some (h, k) \<Rightarrow>
           Inr (put_rq a (r\<lparr>rq_node := None\<rparr>)
                  (s\<lparr>hashtable := (hashtable s)(h := (hashtable s h)(k := remove1 a (hashtable s h k)))\<rparr>)))"

definition hlist_unhashed :: "nat \<Rightarrow> kv_state \<Rightarrow> bool run" where
  "hlist_unhashed a s = bind_run (rq_of a s) (\<lambda>r. Inr (rq_node r = None))"

text \<open>The lock is released and the memory of the request goes back to its cache.\<close>

definition free_kv_async_rq :: "nat \<Rightarrow> kv_state \<Rightarrow> kv_state run" where
  "free_kv_async_rq a s =
     bind_run (spin_unlock_rq a s) (\<lambda>s. Inr (s\<lparr>rqs := (rqs s)(a := None)\<rparr>))"

section \<open>The operations\<close>

fun longcmp :: "bytes \<Rightarrow> bytes \<Rightarrow> nat \<Rightarrow> bool" where
  "longcmp l1 l2 0 = False"
| "longcmp l1 l2 (Suc n) =
     ((le_word (take 8 l1) :: u64) \<noteq> le_word (take 8 l2) \<or> longcmp (drop 8 l1) (drop 8 l2) n)"

fun search_chain :: "bytes \<Rightarrow> kv_state \<Rightarrow> nat list \<Rightarrow> nat option run" where
  "search_chain key s [] = Inr None"
| "search_chain key s (a # as) =
     bind_run (rq_of a s) (\<lambda>r.
       let word_cnt = length key div 8; remain = length key mod 8
       in if length (rq_key r) \<noteq> length key then search_chain key s as
          else if word_cnt \<noteq> 0 \<and> longcmp (rq_key r) key word_cnt then search_chain key s as
          else if remain \<noteq> 0 \<and> take remain (drop (8 * word_cnt) (rq_key r)) \<noteq> take remain (drop (8 * word_cnt) key)
               then search_chain key s as
          else Inr (Some a))"

text \<open>A request that is found gains a reference.\<close>

definition kv_hash_search :: "kv_hash_id \<Rightarrow> u32 \<Rightarrow> bytes \<Rightarrow> kv_state \<Rightarrow> (nat option \<times> kv_state) run" where
  "kv_hash_search h k key s =
     bind_run (search_chain key s (hashtable s h k)) (\<lambda>f.
       case f of
         None \<Rightarrow> Inr (None, s)
       | Some a \<Rightarrow> bind_run (atomic_inc_refcount a s) (\<lambda>s. Inr (Some a, s)))"

datatype 'a pass = Done 'a | Restart

text \<open>The bucket is looked up in the request after its reference was dropped, as the macro does.\<close>

definition UNLOCK_AND_RESTART :: "nat \<Rightarrow> kv_hash_id \<Rightarrow> kv_state \<Rightarrow> kv_state run" where
  "UNLOCK_AND_RESTART rq h s =
     bind_run (atomic_dec_and_test rq s) (\<lambda>(z, s).
     bind_run (if z then free_kv_async_rq rq s else spin_unlock_rq rq s) (\<lambda>s.
     bind_run (rq_of rq s) (\<lambda>r. spin_unlock_hash h (rq_hash_key r) s)))"

definition kv_hash_insert :: "kv_hash_id \<Rightarrow> nat \<Rightarrow> kv_state \<Rightarrow> (nat option pass \<times> kv_state) run" where
  "kv_hash_insert h rq s =
     bind_run (rq_of rq s) (\<lambda>r. let k = rq_hash_key r in
     bind_run (spin_lock_hash h k s) (\<lambda>s.
     bind_run (kv_hash_search h k (rq_key r) s) (\<lambda>(f, s).
       case f of
         None \<Rightarrow>
           bind_run (hlist_add_head rq h k s) (\<lambda>s.
           bind_run (spin_unlock_hash h k (add_nr_rq 1 h s)) (\<lambda>s. Inr (Done None, s)))
       | Some b \<Rightarrow>
           bind_run (spin_lock_rq b s) (\<lambda>s.
           bind_run (rq_of b s) (\<lambda>br.
             if bit (rq_state br) KV_async_completed \<or> bit (rq_state br) KV_async_invalid_rq
                \<or> bit (rq_state br) KV_async_blocking_rq
             then bind_run (UNLOCK_AND_RESTART b h s) (\<lambda>s. Inr (Restart, s))
             else if bit (rq_state br) KV_async_inFlight_rq then
               bind_run (hlist_del_init b s) (\<lambda>s.
               bind_run (hlist_add_head rq h k s) (\<lambda>s.
               bind_run (spin_unlock_hash h k s) (\<lambda>s.
               bind_run (set_rq_bit KV_async_blocking_rq b s) (\<lambda>s.
               bind_run (modify_rq rq (\<lambda>r. r\<lparr>rq_blocking_rq := Some b\<rparr>) s) (\<lambda>s.
                 Inr (Done None, s))))))
             else bind_run (spin_unlock_hash h k s) (\<lambda>s. Inr (Done (Some b), s)))))))"

definition kv_hash_insert_readahead :: "kv_hash_id \<Rightarrow> nat \<Rightarrow> kv_state \<Rightarrow> (nat option \<times> kv_state) run" where
  "kv_hash_insert_readahead h rq s =
     bind_run (rq_of rq s) (\<lambda>r. let k = rq_hash_key r in
     bind_run (spin_lock_hash h k s) (\<lambda>s.
     bind_run (kv_hash_search h k (rq_key r) s) (\<lambda>(f, s).
     bind_run (if f = None then
                 bind_run (spin_lock_ra s) (\<lambda>s.
                 bind_run (spin_unlock_ra (s\<lparr>ra_list := rq # ra_list s\<rparr>)) (\<lambda>s.
                 bind_run (hlist_add_head rq h k s) (\<lambda>s. Inr (add_nr_rq 1 h s))))
               else Inr s) (\<lambda>s.
     bind_run (spin_unlock_hash h k s) (\<lambda>s. Inr (f, s))))))"

definition kv_hash_find :: "kv_hash_id \<Rightarrow> bytes \<Rightarrow> u32 \<Rightarrow> bool \<Rightarrow> kv_state \<Rightarrow> (nat option pass \<times> kv_state) run" where
  "kv_hash_find h key hash_key lock s =
     bind_run (spin_lock_hash h hash_key s) (\<lambda>s.
     bind_run (kv_hash_search h hash_key key s) (\<lambda>(f, s).
     bind_run (spin_unlock_hash h hash_key s) (\<lambda>s.
       case f of
         None \<Rightarrow> Inr (Done None, s)
       | Some a \<Rightarrow>
           bind_run (if lock then spin_lock_rq a s else Inr s) (\<lambda>s.
           bind_run (atomic_dec_and_test a s) (\<lambda>(z, s).
             if z then bind_run (free_kv_async_rq a s) (\<lambda>s. Inr (Restart, s))
             else bind_run (if lock then spin_unlock_rq a s else Inr s) (\<lambda>s. Inr (Done (Some a), s)))))))"

definition kv_hash_find_refcnt :: "kv_hash_id \<Rightarrow> bytes \<Rightarrow> u32 \<Rightarrow> kv_state \<Rightarrow> (nat option \<times> kv_state) run" where
  "kv_hash_find_refcnt h key hash_key s =
     bind_run (spin_lock_hash h hash_key s) (\<lambda>s.
     bind_run (kv_hash_search h hash_key key s) (\<lambda>(f, s).
     bind_run (spin_unlock_hash h hash_key s) (\<lambda>s. Inr (f, s))))"

definition kv_decrease_req_refcnt :: "nat \<Rightarrow> bool \<Rightarrow> kv_state \<Rightarrow> (bool \<times> kv_state) run" where
  "kv_decrease_req_refcnt rq lock s =
     bind_run (if lock then spin_lock_rq rq s else Inr s) (\<lambda>s.
     bind_run (atomic_dec_and_test rq s) (\<lambda>(z, s).
       if z then bind_run (free_kv_async_rq rq s) (\<lambda>s. Inr (True, s))
       else bind_run (if lock then spin_unlock_rq rq s else Inr s) (\<lambda>s. Inr (False, s))))"

text \<open>
  The lookup of a synchronous request may have to wait: for the request it found
  to leave the device, or for the request that blocks it. It waits without
  holding a lock or a reference.
\<close>

datatype sync_pass = Return "nat option" | Again | Wait_inFlight nat | Wait_blocking nat

text \<open>Dropping the reference and the lock of a request that is in use elsewhere.\<close>

definition drop_rq :: "nat \<Rightarrow> kv_state \<Rightarrow> kv_state run" where
  "drop_rq a s =
     bind_run (atomic_dec_and_test a s) (\<lambda>(z, s).
       if z then free_kv_async_rq a s else spin_unlock_rq a s)"

definition kv_hash_find_and_lock :: "kv_hash_id \<Rightarrow> bytes \<Rightarrow> u32 \<Rightarrow> kv_state \<Rightarrow> (sync_pass \<times> kv_state) run" where
  "kv_hash_find_and_lock h key hash_key s =
     bind_run (spin_lock_hash h hash_key s) (\<lambda>s.
     bind_run (kv_hash_search h hash_key key s) (\<lambda>(f, s).
       case f of
         None \<Rightarrow> bind_run (spin_unlock_hash h hash_key s) (\<lambda>s. Inr (Return None, s))
       | Some a \<Rightarrow>
           bind_run (spin_lock_rq a s) (\<lambda>s.
           bind_run (rq_of a s) (\<lambda>r.
             if bit (rq_state r) KV_async_completed \<or> bit (rq_state r) KV_async_invalid_rq
                \<or> bit (rq_state r) KV_async_blocking_rq
             then bind_run (UNLOCK_AND_RESTART a h s) (\<lambda>s. Inr (Again, s))
             else if bit (rq_state r) KV_async_inFlight_rq then
               bind_run (spin_unlock_hash h hash_key s) (\<lambda>s.
               bind_run (drop_rq a s) (\<lambda>s. Inr (Wait_inFlight a, s)))
             else if rq_blocking_rq r \<noteq> None then
               bind_run (spin_unlock_hash h hash_key s) (\<lambda>s.
               bind_run (drop_rq a s) (\<lambda>s. Inr (Wait_blocking a, s)))
             else
               bind_run (set_rq_bit KV_async_invalid_rq a s) (\<lambda>s.
               bind_run (hlist_del_init a s) (\<lambda>s.
               bind_run (spin_unlock_hash h hash_key s) (\<lambda>s.
                 Inr (Return (Some a), add_nr_rq (-1) h s))))))))"

text \<open>
  What the waiting thread reads when it looks at the state word again: the
  result says whether it may go on.
\<close>

definition wait_over :: "sync_pass \<Rightarrow> kv_state \<Rightarrow> bool run" where
  "wait_over p s = (case p of
       Wait_inFlight a \<Rightarrow> bind_run (rq_of a s) (\<lambda>r. Inr (\<not> bit (rq_state r) KV_async_inFlight_rq))
     | Wait_blocking a \<Rightarrow>
         bind_run (rq_of a s) (\<lambda>r.
         bind_run (of_opt Out_of_bounds (rq_blocking_rq r)) (\<lambda>b.
         bind_run (rq_of b s) (\<lambda>br. Inr (\<not> bit (rq_state br) KV_async_inFlight_rq))))
     | _ \<Rightarrow> Inr True)"

definition kv_hash_find_read_and_invalidate :: "kv_hash_id \<Rightarrow> bytes \<Rightarrow> u32 \<Rightarrow> kv_state \<Rightarrow> (sync_pass \<times> kv_state) run" where
  "kv_hash_find_read_and_invalidate h key hash_key s =
     bind_run (spin_lock_hash h hash_key s) (\<lambda>s.
     bind_run (kv_hash_search h hash_key key s) (\<lambda>(f, s).
       case f of
         None \<Rightarrow> bind_run (spin_unlock_hash h hash_key s) (\<lambda>s. Inr (Return None, s))
       | Some a \<Rightarrow>
           bind_run (spin_lock_rq a s) (\<lambda>s.
           bind_run (rq_of a s) (\<lambda>r.
             if bit (rq_state r) KV_async_completed \<or> bit (rq_state r) KV_async_invalid_rq
                \<or> bit (rq_state r) KV_async_blocking_rq
             then bind_run (UNLOCK_AND_RESTART a h s) (\<lambda>s. Inr (Again, s))
             else if bit (rq_state r) KV_async_inFlight_rq then
               bind_run (spin_unlock_hash h hash_key s) (\<lambda>s.
               bind_run (drop_rq a s) (\<lambda>s. Inr (Wait_inFlight a, s)))
             else if rq_blocking_rq r \<noteq> None then
               bind_run (spin_unlock_hash h hash_key s) (\<lambda>s.
               bind_run (drop_rq a s) (\<lambda>s. Inr (Wait_blocking a, s)))
             else
               bind_run (if is_kv_retrieve_cmd (rq_opcode r) then
                           bind_run (set_rq_bit KV_async_invalid_rq a s) (\<lambda>s.
                           bind_run (hlist_del_init a s) (\<lambda>s.
                           bind_run (spin_unlock_hash h hash_key s) (\<lambda>s. Inr (add_nr_rq (-1) h s))))
                         else Inr s) (\<lambda>s.
               bind_run (atomic_dec_and_test a s) (\<lambda>(z, s).
               bind_run (if z then bind_run (spin_unlock_hash h hash_key s) (free_kv_async_rq a)
                         else bind_run (spin_unlock_rq a s) (spin_unlock_hash h hash_key)) (\<lambda>s.
                 Inr (Return (Some a), s))))))))"

text \<open>The messages logged when no pending request is found have no effect on the state.\<close>

definition kv_hash_find_and_lock_pending_rq :: "kv_hash_id \<Rightarrow> bytes \<Rightarrow> u32 \<Rightarrow> kv_state \<Rightarrow> (nat option \<times> kv_state) run" where
  "kv_hash_find_and_lock_pending_rq h key hash_key s =
     bind_run (spin_lock_hash h hash_key s) (\<lambda>s.
     bind_run (kv_hash_search h hash_key key s) (\<lambda>(f, s).
     bind_run (spin_unlock_hash h hash_key s) (\<lambda>s.
     bind_run (case f of None \<Rightarrow> Inr s | Some a \<Rightarrow> spin_lock_rq a s) (\<lambda>s. Inr (f, s)))))"

definition kv_hash_find_and_del_readahead :: "kv_hash_id \<Rightarrow> bytes \<Rightarrow> u32 \<Rightarrow> kv_state \<Rightarrow> (nat option \<times> kv_state) run" where
  "kv_hash_find_and_del_readahead h key hash_key s =
     bind_run (spin_lock_hash h hash_key s) (\<lambda>s.
     bind_run (kv_hash_search h hash_key key s) (\<lambda>(f, s).
     bind_run (case f of
         None \<Rightarrow> Inr s
       | Some a \<Rightarrow>
           bind_run (spin_lock_ra s) (\<lambda>s.
           bind_run (spin_unlock_ra (s\<lparr>ra_list := remove1 a (ra_list s)\<rparr>)) (\<lambda>s.
           bind_run (hlist_del_init a s) (\<lambda>s.
             modify_rq a (\<lambda>r. r\<lparr>rq_refcount := rq_refcount r - 1\<rparr>) (add_nr_rq (-1) h s))))) (\<lambda>s.
     bind_run (spin_unlock_hash h hash_key s) (\<lambda>s. Inr (f, s)))))"

definition kv_hash_delete_readahead :: "kv_hash_id \<Rightarrow> nat \<Rightarrow> kv_state \<Rightarrow> (int \<times> kv_state) run" where
  "kv_hash_delete_readahead h rq s =
     bind_run (rq_of rq s) (\<lambda>r.
     bind_run (spin_lock_hash h (rq_hash_key r) s) (\<lambda>s.
     bind_run (hlist_unhashed rq s) (\<lambda>u.
     bind_run (if u then Inr (1, s)
               else bind_run (spin_lock_ra s) (\<lambda>s.
                    bind_run (spin_unlock_ra (s\<lparr>ra_list := remove1 rq (ra_list s)\<rparr>)) (\<lambda>s.
                    bind_run (hlist_del_init rq s) (\<lambda>s. Inr (0, add_nr_rq (-1) h s))))) (\<lambda>(ret, s).
     bind_run (spin_unlock_hash h (rq_hash_key r) s) (\<lambda>s. Inr (ret, s))))))"

definition kv_hash_delete :: "kv_hash_id \<Rightarrow> nat \<Rightarrow> kv_state \<Rightarrow> (int \<times> kv_state) run" where
  "kv_hash_delete h rq s =
     bind_run (rq_of rq s) (\<lambda>r.
     bind_run (spin_lock_hash h (rq_hash_key r) s) (\<lambda>s.
     bind_run (hlist_unhashed rq s) (\<lambda>u.
     bind_run (if u then Inr (1, s)
               else bind_run (hlist_del_init rq s) (\<lambda>s. Inr (0, add_nr_rq (-1) h s))) (\<lambda>(ret, s).
     bind_run (spin_unlock_hash h (rq_hash_key r) s) (\<lambda>s. Inr (ret, s))))))"

section \<open>Looking up a key\<close>

lemma le_bytes_take_8: "8 \<le> length xs \<Longrightarrow> le_bytes 8 (le_word (take 8 xs) :: u64) = take 8 xs"
  using le_bytes_le_word[of "take 8 xs", where 'a = 64] by (simp add: min_absorb2)

lemma le_word_8_inject:
  assumes "length xs = length ys" "8 \<le> length xs"
  shows "(le_word (take 8 xs) :: u64) = le_word (take 8 ys) \<longleftrightarrow> take 8 xs = take 8 ys"
  using le_bytes_take_8[of xs] le_bytes_take_8[of ys] assms by metis

lemma take_add_eq:
  "take (m + n) xs = take (m + n) ys \<longleftrightarrow> take m xs = take m ys \<and> take n (drop m xs) = take n (drop m ys)"
  if "length xs = length ys"
  using that by (auto simp: take_add)

lemma longcmp_iff:
  "length l1 = length l2 \<Longrightarrow> 8 * n \<le> length l1 \<Longrightarrow> longcmp l1 l2 n \<longleftrightarrow> take (8 * n) l1 \<noteq> take (8 * n) l2"
proof (induction l1 l2 n rule: longcmp.induct)
  case (2 l1 l2 n)
  then show ?case using le_word_8_inject[of l1 l2] take_add_eq[of l1 l2 8 "8 * n"] by simp
qed simp

lemma key_compare:
  assumes "length xs = length ys" "length ys = 8 * w + r"
  shows "w \<noteq> 0 \<and> longcmp xs ys w \<or> r \<noteq> 0 \<and> take r (drop (8 * w) xs) \<noteq> take r (drop (8 * w) ys) \<longleftrightarrow> xs \<noteq> ys"
proof -
  have "8 * w \<le> length xs" using assms by simp
  note c = longcmp_iff[OF assms(1) this]
  have "take (8 * w + r) xs = xs" "take (8 * w + r) ys = ys" using assms by simp_all
  then have "xs = ys \<longleftrightarrow> take (8 * w) xs = take (8 * w) ys \<and> take r (drop (8 * w) xs) = take r (drop (8 * w) ys)"
    using take_add_eq[OF assms(1), of "8 * w" r] by simp
  then show ?thesis using c by (cases "w = 0"; cases "r = 0") auto
qed

text \<open>The first request of a bucket with the given key.\<close>

definition kv_find :: "kv_hash_id \<Rightarrow> u32 \<Rightarrow> bytes \<Rightarrow> kv_state \<Rightarrow> nat option" where
  "kv_find h k key s = find (\<lambda>a. map_option rq_key (rqs s a) = Some key) (hashtable s h k)"

lemma search_chain_find:
  assumes "\<And>a. a \<in> set as \<Longrightarrow> rqs s a \<noteq> None"
  shows "search_chain key s as = Inr (find (\<lambda>a. map_option rq_key (rqs s a) = Some key) as)"
  using assms
proof (induction as)
  case (Cons a as)
  then obtain r where r: "rqs s a = Some r" by fastforce
  show ?case
  proof (cases "length (rq_key r) = length key")
    case True
    then show ?thesis using Cons r key_compare[OF True, of "length key div 8" "length key mod 8"]
      by (auto simp: rq_of_def Let_def)
  next
    case False
    then show ?thesis using Cons r by (auto simp: rq_of_def Let_def)
  qed
qed simp

text \<open>No other thread holds the lock of the request found under a key.\<close>

definition found_unlocked :: "kv_hash_id \<Rightarrow> u32 \<Rightarrow> bytes \<Rightarrow> kv_state \<Rightarrow> bool" where
  "found_unlocked h k key s =
     (case kv_find h k key s of None \<Rightarrow> True | Some a \<Rightarrow> (case rqs s a of None \<Rightarrow> True | Some r \<Rightarrow> \<not> rq_lock r))"

lemma found_unlockedD: "found_unlocked h k key s \<Longrightarrow> kv_find h k key s = Some a \<Longrightarrow> rqs s a = Some r \<Longrightarrow> \<not> rq_lock r"
  by (simp add: found_unlocked_def)

section \<open>The invariant\<close>

definition linked :: "kv_hash_id \<Rightarrow> kv_state \<Rightarrow> nat set" where
  "linked h s = {a. \<exists>r k. rqs s a = Some r \<and> rq_node r = Some (h, k)}"

text \<open>
  Chains hold exactly the live requests whose node says so, no key twice; a
  linked request sits in the bucket of its hash key; every live request is
  referenced; the counter counts the linked requests.
\<close>

definition kv_inv :: "kv_state \<Rightarrow> bool" where
  "kv_inv s \<longleftrightarrow>
     finite (dom (rqs s))
     \<and> (\<forall>h k. distinct (hashtable s h k))
     \<and> (\<forall>h k a. a \<in> set (hashtable s h k) \<longleftrightarrow> (\<exists>r. rqs s a = Some r \<and> rq_node r = Some (h, k)))
     \<and> (\<forall>a r h k. rqs s a = Some r \<longrightarrow> rq_node r = Some (h, k) \<longrightarrow> rq_hash_key r = k \<and> k < KV_HASH_SIZE)
     \<and> (\<forall>a r. rqs s a = Some r \<longrightarrow> 1 \<le> rq_refcount r)
     \<and> (\<forall>a b ra rb h k. rqs s a = Some ra \<longrightarrow> rqs s b = Some rb \<longrightarrow> rq_node ra = Some (h, k) \<longrightarrow>
          rq_node rb = Some (h, k) \<longrightarrow> rq_key ra = rq_key rb \<longrightarrow> a = b)
     \<and> (\<forall>h. nr_rq s h = int (card (linked h s)))"

lemma kv_invD:
  assumes "kv_inv s"
  shows "finite (dom (rqs s))" "distinct (hashtable s h k)"
    "a \<in> set (hashtable s h k) \<longleftrightarrow> (\<exists>r. rqs s a = Some r \<and> rq_node r = Some (h, k))"
    "rqs s a = Some r \<Longrightarrow> rq_node r = Some (h, k) \<Longrightarrow> rq_hash_key r = k \<and> k < KV_HASH_SIZE"
    "rqs s a = Some r \<Longrightarrow> 1 \<le> rq_refcount r"
    "rqs s a = Some ra \<Longrightarrow> rqs s b = Some rb \<Longrightarrow> rq_node ra = Some (h, k) \<Longrightarrow> rq_node rb = Some (h, k) \<Longrightarrow>
       rq_key ra = rq_key rb \<Longrightarrow> a = b"
    "nr_rq s h = int (card (linked h s))"
  using assms unfolding kv_inv_def by blast+

lemma kv_find_Some:
  assumes "kv_inv s"
  shows "kv_find h k key s = Some a \<longleftrightarrow> (\<exists>r. rqs s a = Some r \<and> rq_node r = Some (h, k) \<and> rq_key r = key)"
proof
  assume "kv_find h k key s = Some a"
  then have "a \<in> set (hashtable s h k) \<and> map_option rq_key (rqs s a) = Some key"
    unfolding kv_find_def find_Some_iff by auto
  then show "\<exists>r. rqs s a = Some r \<and> rq_node r = Some (h, k) \<and> rq_key r = key"
    using kv_invD(3)[OF assms] by fastforce
next
  assume "\<exists>r. rqs s a = Some r \<and> rq_node r = Some (h, k) \<and> rq_key r = key"
  then have a: "a \<in> set (hashtable s h k)" "map_option rq_key (rqs s a) = Some key"
    using kv_invD(3)[OF assms] by fastforce+
  then obtain b where b: "kv_find h k key s = Some b" unfolding kv_find_def
    by (cases "find (\<lambda>a. map_option rq_key (rqs s a) = Some key) (hashtable s h k)") (auto simp: find_None_iff)
  then have "b \<in> set (hashtable s h k)" "map_option rq_key (rqs s b) = Some key"
    unfolding kv_find_def find_Some_iff by auto
  then have "b = a" using kv_invD(3)[OF assms] kv_invD(6)[OF assms] a by fastforce
  then show "kv_find h k key s = Some a" using b by simp
qed

lemma kv_find_None:
  assumes "kv_inv s"
  shows "kv_find h k key s = None \<longleftrightarrow> (\<forall>a r. rqs s a = Some r \<longrightarrow> rq_node r = Some (h, k) \<longrightarrow> rq_key r \<noteq> key)"
  using kv_find_Some[OF assms, of h k key] by (cases "kv_find h k key s") fastforce+

lemma search_eq:
  assumes "kv_inv s"
  shows "kv_hash_search h k key s =
    (case kv_find h k key s of
       None \<Rightarrow> Inr (None, s)
     | Some a \<Rightarrow> bind_run (atomic_inc_refcount a s) (\<lambda>s. Inr (Some a, s)))"
proof -
  have "search_chain key s (hashtable s h k) = Inr (kv_find h k key s)" unfolding kv_find_def
    using kv_invD(3)[OF assms] by (intro search_chain_find) auto
  then show ?thesis by (simp add: kv_hash_search_def)
qed

lemma search_locked_eq:
  assumes "kv_inv s"
  shows "kv_hash_search h k key (s\<lparr>hash_lock := l\<rparr>) =
    (case kv_find h k key s of
       None \<Rightarrow> Inr (None, s\<lparr>hash_lock := l\<rparr>)
     | Some a \<Rightarrow> bind_run (atomic_inc_refcount a (s\<lparr>hash_lock := l\<rparr>)) (\<lambda>s. Inr (Some a, s)))"
proof -
  have "kv_inv (s\<lparr>hash_lock := l\<rparr>)" using assms by (simp add: kv_inv_def linked_def)
  moreover have "kv_find h k key (s\<lparr>hash_lock := l\<rparr>) = kv_find h k key s" by (simp add: kv_find_def)
  ultimately show ?thesis using search_eq by simp
qed

section \<open>One pass of each operation\<close>

lemmas kv_prims = rq_of_def put_rq_def modify_rq_def spin_lock_hash_def spin_unlock_hash_def
  spin_lock_rq_def spin_unlock_rq_def spin_lock_ra_def spin_unlock_ra_def atomic_inc_refcount_def
  atomic_dec_and_test_def set_rq_bit_def clear_rq_bit_def add_nr_rq_def hlist_add_head_def
  hlist_del_init_def hlist_unhashed_def free_kv_async_rq_def drop_rq_def UNLOCK_AND_RESTART_def

text \<open>Taking and releasing a free lock changes nothing.\<close>

lemma relock [simp]: "\<not> l h k \<Longrightarrow> l(h := (l h)(k := False)) = l"
  by (auto simp: fun_eq_iff)

lemma rq_same [simp]: "\<not> rq_lock r \<Longrightarrow> r\<lparr>rq_lock := False, rq_refcount := rq_refcount r\<rparr> = r"
  by (rule kv_async_request.equality) simp_all

definition busy_rq :: "kv_async_request \<Rightarrow> bool" where
  "busy_rq r = (bit (rq_state r) KV_async_completed \<or> bit (rq_state r) KV_async_invalid_rq
     \<or> bit (rq_state r) KV_async_blocking_rq)"

text \<open>The state after the request was linked at the head of its bucket.\<close>

definition link_rq :: "nat \<Rightarrow> kv_hash_id \<Rightarrow> u32 \<Rightarrow> kv_async_request \<Rightarrow> kv_state \<Rightarrow> kv_state" where
  "link_rq a h k r s = s\<lparr>rqs := (rqs s)(a \<mapsto> r\<lparr>rq_node := Some (h, k)\<rparr>),
     hashtable := (hashtable s)(h := (hashtable s h)(k := a # hashtable s h k))\<rparr>"

text \<open>The state after a request was taken out of its chain.\<close>

definition unlink_rq :: "nat \<Rightarrow> kv_hash_id \<Rightarrow> u32 \<Rightarrow> kv_async_request \<Rightarrow> kv_state \<Rightarrow> kv_state" where
  "unlink_rq a h k r s = s\<lparr>rqs := (rqs s)(a \<mapsto> r\<lparr>rq_node := None\<rparr>),
     hashtable := (hashtable s)(h := (hashtable s h)(k := remove1 a (hashtable s h k)))\<rparr>"

lemma insert_new:
  assumes "kv_inv s" "rqs s a = Some r" "rq_hash_key r = k" "k < KV_HASH_SIZE" "\<not> hash_lock s h k"
    "kv_find h k (rq_key r) s = None"
  shows "kv_hash_insert h a s = Inr (Done None, add_nr_rq 1 h (link_rq a h k r s))"
  using assms
  by (simp add: kv_hash_insert_def Let_def search_locked_eq kv_prims link_rq_def not_le)

lemma insert_busy:
  assumes "kv_inv s" "rqs s a = Some r" "rq_hash_key r = k" "k < KV_HASH_SIZE" "\<not> hash_lock s h k"
    "kv_find h k (rq_key r) s = Some b" "rqs s b = Some br" "\<not> rq_lock br" "busy_rq br"
  shows "kv_hash_insert h a s = Inr (Restart, s)"
proof -
  have "1 \<le> rq_refcount br" "rq_hash_key br = k"
    using kv_invD(5)[OF assms(1,7)] kv_find_Some[OF assms(1), of h k "rq_key r" b] assms(6,7) kv_invD(4)[OF assms(1,7)]
    by auto
  then show ?thesis using assms
    by (simp add: kv_hash_insert_def Let_def search_locked_eq kv_prims not_le busy_rq_def)
       (intro kv_state.equality; auto simp: fun_eq_iff)
qed

lemma insert_buffered:
  assumes "kv_inv s" "rqs s a = Some r" "rq_hash_key r = k" "k < KV_HASH_SIZE" "\<not> hash_lock s h k"
    "kv_find h k (rq_key r) s = Some b" "rqs s b = Some br" "\<not> rq_lock br" "\<not> busy_rq br"
    "\<not> bit (rq_state br) KV_async_inFlight_rq"
  shows "kv_hash_insert h a s = Inr (Done (Some b), put_rq b (br\<lparr>rq_refcount := rq_refcount br + 1, rq_lock := True\<rparr>) s)"
  using assms
  by (simp add: kv_hash_insert_def Let_def search_locked_eq kv_prims not_le busy_rq_def)

lemma insert_inFlight:
  assumes "kv_inv s" "rqs s a = Some r" "rq_node r = None" "rq_hash_key r = k" "k < KV_HASH_SIZE" "\<not> hash_lock s h k"
    "kv_find h k (rq_key r) s = Some b" "rqs s b = Some br" "\<not> rq_lock br" "\<not> busy_rq br"
    "bit (rq_state br) KV_async_inFlight_rq"
  shows "kv_hash_insert h a s = Inr (Done None,
    link_rq a h k (r\<lparr>rq_blocking_rq := Some b\<rparr>)
      (unlink_rq b h k (br\<lparr>rq_lock := True, rq_refcount := rq_refcount br + 1,
        rq_state := set_bit KV_async_blocking_rq (rq_state br)\<rparr>) s))"
proof -
  have n: "rq_node br = Some (h, k)" using kv_find_Some[OF assms(1), of h k "rq_key r" b] assms by auto
  then have "a \<noteq> b" using assms by auto
  then show ?thesis using assms n
    by (simp add: kv_hash_insert_def Let_def search_locked_eq kv_prims not_le busy_rq_def link_rq_def unlink_rq_def)
       (intro kv_state.equality; auto simp: fun_eq_iff)
qed

section \<open>Steps that keep the invariant\<close>

lemma kv_find_cong:
  assumes "kv_inv s" "kv_inv s'"
    "\<And>a. (\<exists>r. rqs s' a = Some r \<and> rq_node r = Some (h, k) \<and> rq_key r = key)
       \<longleftrightarrow> (\<exists>r. rqs s a = Some r \<and> rq_node r = Some (h, k) \<and> rq_key r = key)"
  shows "kv_find h k key s' = kv_find h k key s"
proof -
  have "kv_find h k key s' = Some a \<longleftrightarrow> kv_find h k key s = Some a" for a
    using assms(3) by (simp only: kv_find_Some[OF assms(1)] kv_find_Some[OF assms(2)])
  then show ?thesis by (metis option.exhaust)
qed

text \<open>Changing a request without touching its key, its chain or its last reference.\<close>

lemma inv_put:
  assumes "kv_inv s" "rqs s b = Some br" "rq_node br' = rq_node br" "rq_key br' = rq_key br"
    "rq_hash_key br' = rq_hash_key br" "1 \<le> rq_refcount br'"
  shows "kv_inv (put_rq b br' s)" "kv_find h k key (put_rq b br' s) = kv_find h k key s"
proof -
  note I = kv_invD[OF assms(1)]
  have "linked h' (put_rq b br' s) = linked h' s" for h'
    using assms(2,3) by (auto simp: linked_def put_rq_def)
  then show i: "kv_inv (put_rq b br' s)"
    using I assms unfolding kv_inv_def put_rq_def by (simp add: split: if_splits) (metis assms(2-6))
  show "kv_find h k key (put_rq b br' s) = kv_find h k key s"
    using assms by (intro kv_find_cong i) (auto simp: put_rq_def)
qed

lemma linked_link:
  assumes "kv_inv s" "rqs s a = Some r0" "rq_node r0 = None"
  shows "linked h' (link_rq a h k r s) = (if h' = h then insert a (linked h s) else linked h' s)" "a \<notin> linked h' s"
  using assms by (auto simp: linked_def link_rq_def)

lemma finite_linked: "kv_inv s \<Longrightarrow> finite (linked h s)"
  by (rule finite_subset[OF _ kv_invD(1)]) (auto simp: linked_def)

lemma inv_link:
  assumes "kv_inv s" "rqs s a = Some r0" "rq_node r0 = None" "rq_hash_key r = k" "k < KV_HASH_SIZE"
    "1 \<le> rq_refcount r" "kv_find h k (rq_key r) s = None"
  shows "kv_inv (add_nr_rq 1 h (link_rq a h k r s))"
proof -
  note I = kv_invD[OF assms(1)]
  have na: "a \<notin> set (hashtable s h' k')" for h' k' using I(3) assms(2,3) by auto
  have card: "int (card (linked h' (link_rq a h k r s))) = (if h' = h then nr_rq s h + 1 else nr_rq s h')" for h'
    using linked_link[OF assms(1-3)] finite_linked[OF assms(1)] I(7) by simp
  have keys: "rq_key rb \<noteq> rq_key r" if "rqs s b = Some rb" "rq_node rb = Some (h, k)" for b rb
    using kv_find_None[OF assms(1), of h k "rq_key r"] assms(7) that by blast
  show ?thesis unfolding kv_inv_def
  proof (intro conjI allI impI; (elim conjE)?)
    show "finite (dom (rqs (add_nr_rq 1 h (link_rq a h k r s))))" using I(1) by (simp add: add_nr_rq_def link_rq_def)
    show "distinct (hashtable (add_nr_rq 1 h (link_rq a h k r s)) h' k')" for h' k'
      using I(2) na by (simp add: add_nr_rq_def link_rq_def)
    show "b \<in> set (hashtable (add_nr_rq 1 h (link_rq a h k r s)) h' k') \<longleftrightarrow>
        (\<exists>r'. rqs (add_nr_rq 1 h (link_rq a h k r s)) b = Some r' \<and> rq_node r' = Some (h', k'))" for b h' k'
      using I(3)[of b] na assms(2,3) by (auto simp: add_nr_rq_def link_rq_def)
    show "nr_rq (add_nr_rq 1 h (link_rq a h k r s)) h' = int (card (linked h' (add_nr_rq 1 h (link_rq a h k r s))))" for h'
      using card[of h'] by (simp add: add_nr_rq_def linked_def) (simp add: link_rq_def)
  next
    fix b r' h' k' assume "rqs (add_nr_rq 1 h (link_rq a h k r s)) b = Some r'" "rq_node r' = Some (h', k')"
    then show "rq_hash_key r' = k'" "k' < KV_HASH_SIZE"
      using I(4) assms(4,5) by (auto simp: add_nr_rq_def link_rq_def split: if_splits)
  next
    fix b r' assume "rqs (add_nr_rq 1 h (link_rq a h k r s)) b = Some r'"
    then show "1 \<le> rq_refcount r'" using I(5) assms(6) by (auto simp: add_nr_rq_def link_rq_def split: if_splits)
  next
    fix b c rb rc h' k'
    assume "rqs (add_nr_rq 1 h (link_rq a h k r s)) b = Some rb" "rqs (add_nr_rq 1 h (link_rq a h k r s)) c = Some rc"
      "rq_node rb = Some (h', k')" "rq_node rc = Some (h', k')" "rq_key rb = rq_key rc"
    then show "b = c" using I(6)[of b rb c rc] keys[of b rb] keys[of c rc] by (auto simp: add_nr_rq_def link_rq_def split: if_splits)
  qed
qed

lemma inv_unlink:
  assumes "kv_inv s" "rqs s b = Some b0" "rq_node b0 = Some (h, k)" "rq_key br = rq_key b0" "1 \<le> rq_refcount br"
  shows "kv_inv (add_nr_rq (-1) h (unlink_rq b h k br s))"
proof -
  let ?s = "add_nr_rq (-1) h (unlink_rq b h k br s)"
  note I = kv_invD[OF assms(1)]
  have l: "linked h' ?s = linked h' s - (if h' = h then {b} else {})" for h'
    using assms(2,3) by (auto simp: linked_def add_nr_rq_def unlink_rq_def)
  have bl: "b \<in> linked h s" using assms(2,3) by (auto simp: linked_def)
  then have pos: "0 < card (linked h s)" using finite_linked[OF assms(1)] by (simp add: card_gt_0_iff) blast
  have card: "int (card (linked h' ?s)) = (if h' = h then nr_rq s h - 1 else nr_rq s h')" for h'
    using l[of h'] bl pos I(7) finite_linked[OF assms(1)] by (auto simp: card_Diff_singleton)
  show ?thesis unfolding kv_inv_def
  proof (intro conjI allI impI; (elim conjE)?)
    show "finite (dom (rqs ?s))" using I(1) by (simp add: add_nr_rq_def unlink_rq_def)
    show "distinct (hashtable ?s h' k')" for h' k' using I(2) by (simp add: add_nr_rq_def unlink_rq_def)
    show "x \<in> set (hashtable ?s h' k') \<longleftrightarrow> (\<exists>r'. rqs ?s x = Some r' \<and> rq_node r' = Some (h', k'))" for x h' k'
      using I(3)[of x] I(2)[of h k] assms(2,3) by (auto simp: add_nr_rq_def unlink_rq_def)
    show "nr_rq ?s h' = int (card (linked h' ?s))" for h'
      unfolding card by (simp add: add_nr_rq_def unlink_rq_def)
  next
    fix x r' h' k' assume "rqs ?s x = Some r'" "rq_node r' = Some (h', k')"
    then show "rq_hash_key r' = k'" "k' < KV_HASH_SIZE"
      using I(4) by (auto simp: add_nr_rq_def unlink_rq_def split: if_splits)
  next
    fix x r' assume "rqs ?s x = Some r'"
    then show "1 \<le> rq_refcount r'" using I(5) assms(5) by (auto simp: add_nr_rq_def unlink_rq_def split: if_splits)
  next
    fix x c rb rc h' k'
    assume "rqs ?s x = Some rb" "rqs ?s c = Some rc"
      "rq_node rb = Some (h', k')" "rq_node rc = Some (h', k')" "rq_key rb = rq_key rc"
    then show "x = c" using I(6)[of x rb c rc] by (auto simp: add_nr_rq_def unlink_rq_def split: if_splits)
  qed
qed

lemma kv_find_nr [simp]: "kv_find h k key (add_nr_rq d h' s) = kv_find h k key s"
  by (simp add: kv_find_def add_nr_rq_def)

lemma kv_find_link:
  assumes "kv_inv s" "rqs s a = Some r0" "rq_node r0 = None" "rq_hash_key r = k" "k < KV_HASH_SIZE"
    "1 \<le> rq_refcount r" "kv_find h k (rq_key r) s = None"
  shows "kv_find h' k' key (link_rq a h k r s)
    = (if (h', k', key) = (h, k, rq_key r) then Some a else kv_find h' k' key s)"
proof -
  note i = inv_link[OF assms]
  show ?thesis
  proof (cases "(h', k', key) = (h, k, rq_key r)")
    case True
    then have "kv_find h' k' key (add_nr_rq 1 h (link_rq a h k r s)) = Some a"
      using kv_find_Some[OF i] by (auto simp: add_nr_rq_def link_rq_def)
    then show ?thesis using True by simp
  next
    case False
    then have "kv_find h' k' key (add_nr_rq 1 h (link_rq a h k r s)) = kv_find h' k' key s"
      using assms(2,3) by (intro kv_find_cong assms(1) i) (auto simp: add_nr_rq_def link_rq_def)
    then show ?thesis using False by auto
  qed
qed

lemma kv_find_unlink:
  assumes "kv_inv s" "rqs s b = Some b0" "rq_node b0 = Some (h, k)" "rq_key br = rq_key b0" "1 \<le> rq_refcount br"
  shows "kv_find h' k' key (unlink_rq b h k br s)
    = (if (h', k', key) = (h, k, rq_key br) then None else kv_find h' k' key s)"
proof -
  note i = inv_unlink[OF assms]
  show ?thesis
  proof (cases "(h', k', key) = (h, k, rq_key br)")
    case True
    have "rq_key r' \<noteq> rq_key br"
      if "rqs (add_nr_rq (-1) h (unlink_rq b h k br s)) x = Some r'" "rq_node r' = Some (h, k)" for x r'
    proof -
      have x: "rqs s x = Some r'" "x \<noteq> b"
        using that by (auto simp: add_nr_rq_def unlink_rq_def split: if_splits)
      then show ?thesis using kv_invD(6)[OF assms(1) x(1) assms(2) that(2) assms(3)] assms(4) by auto
    qed
    then have "kv_find h k (rq_key br) (add_nr_rq (-1) h (unlink_rq b h k br s)) = None"
      unfolding kv_find_None[OF i] by blast
    then show ?thesis using True by simp
  next
    case False
    then have "kv_find h' k' key (add_nr_rq (-1) h (unlink_rq b h k br s)) = kv_find h' k' key s"
      using assms(2-4) by (intro kv_find_cong assms(1) i) (auto simp: add_nr_rq_def unlink_rq_def)
    then show ?thesis using False by auto
  qed
qed

text \<open>A new request takes the place of one that is on the device.\<close>

lemma inv_replace:
  assumes "kv_inv s" "rqs s b = Some b0" "rq_node b0 = Some (h, k)" "rq_key br = rq_key b0" "1 \<le> rq_refcount br"
    "rqs s a = Some a0" "rq_node a0 = None" "rq_hash_key r = k" "1 \<le> rq_refcount r" "rq_key r = rq_key b0"
  shows "kv_inv (link_rq a h k r (unlink_rq b h k br s))"
    "kv_find h' k' key (link_rq a h k r (unlink_rq b h k br s))
     = (if (h', k', key) = (h, k, rq_key r) then Some a else kv_find h' k' key s)"
proof -
  let ?u = "add_nr_rq (-1) h (unlink_rq b h k br s)"
  have ab: "a \<noteq> b" using assms by auto
  have k: "k < KV_HASH_SIZE" using kv_invD(4)[OF assms(1-3)] by simp
  note u = inv_unlink[OF assms(1-5)] and f = kv_find_unlink[OF assms(1-5)]
  have a: "rqs ?u a = Some a0" using ab assms(6) by (simp add: add_nr_rq_def unlink_rq_def)
  have n: "kv_find h k (rq_key r) ?u = None" using f[of h k "rq_key r"] assms(4,10) by simp
  have e: "add_nr_rq 1 h (link_rq a h k r ?u) = link_rq a h k r (unlink_rq b h k br s)"
    by (intro kv_state.equality) (auto simp: add_nr_rq_def link_rq_def unlink_rq_def fun_eq_iff)
  show "kv_inv (link_rq a h k r (unlink_rq b h k br s))"
    using inv_link[OF u a assms(7,8) k assms(9) n] e by simp
  have "kv_find h' k' key (add_nr_rq 1 h (link_rq a h k r ?u)) = (if (h', k', key) = (h, k, rq_key r) then Some a else kv_find h' k' key s)"
    using kv_find_link[OF u a assms(7,8) k assms(9) n, of h' k' key] f[of h' k' key] assms(4,10) by auto
  then show "kv_find h' k' key (link_rq a h k r (unlink_rq b h k br s))
     = (if (h', k', key) = (h, k, rq_key r) then Some a else kv_find h' k' key s)" using e by simp
qed

section \<open>The other operations\<close>

lemma delete_eq:
  assumes "rqs s a = Some r" "rq_hash_key r = k" "k < KV_HASH_SIZE" "\<not> hash_lock s h k"
    "rq_node r = None \<or> rq_node r = Some (h, k)"
  shows "kv_hash_delete h a s =
    (if rq_node r = None then Inr (1, s) else Inr (0, add_nr_rq (-1) h (unlink_rq a h k r s)))"
  using assms(5)
proof
  assume "rq_node r = None"
  then show ?thesis using assms(1-4) by (simp add: kv_hash_delete_def kv_prims not_le)
next
  assume "rq_node r = Some (h, k)"
  then show ?thesis using assms(1-4) by (simp add: kv_hash_delete_def kv_prims not_le unlink_rq_def)
qed

lemma delete_readahead_eq:
  assumes "rqs s a = Some r" "rq_hash_key r = k" "k < KV_HASH_SIZE" "\<not> hash_lock s h k" "\<not> ra_lock s"
    "rq_node r = None \<or> rq_node r = Some (h, k)"
  shows "kv_hash_delete_readahead h a s =
    (if rq_node r = None then Inr (1, s)
     else Inr (0, (add_nr_rq (-1) h (unlink_rq a h k r s))\<lparr>ra_list := remove1 a (ra_list s)\<rparr>))"
  using assms(6)
proof
  assume "rq_node r = None"
  then show ?thesis using assms(1-4) by (simp add: kv_hash_delete_readahead_def kv_prims not_le)
next
  assume "rq_node r = Some (h, k)"
  then show ?thesis using assms(1-5) by (simp add: kv_hash_delete_readahead_def kv_prims not_le unlink_rq_def)
qed

lemma find_refcnt_eq:
  assumes "kv_inv s" "k < KV_HASH_SIZE" "\<not> hash_lock s h k"
  shows "kv_hash_find_refcnt h key k s =
    (case kv_find h k key s of
       None \<Rightarrow> Inr (None, s)
     | Some a \<Rightarrow> (let r = the (rqs s a) in Inr (Some a, put_rq a (r\<lparr>rq_refcount := rq_refcount r + 1\<rparr>) s)))"
proof (cases "kv_find h k key s")
  case None
  then show ?thesis using assms by (simp add: kv_hash_find_refcnt_def kv_prims search_locked_eq not_le)
next
  case (Some a)
  then obtain r where "rqs s a = Some r" using kv_find_Some[OF assms(1)] by blast
  then show ?thesis using assms Some by (simp add: kv_hash_find_refcnt_def kv_prims search_locked_eq not_le)
qed

text \<open>A plain lookup leaves the state as it was.\<close>

lemma find_eq:
  assumes "kv_inv s" "k < KV_HASH_SIZE" "\<not> hash_lock s h k"
    "lock \<longrightarrow> found_unlocked h k key s"
  shows "kv_hash_find h key k lock s = Inr (Done (kv_find h k key s), s)"
proof (cases "kv_find h k key s")
  case None
  then show ?thesis using assms by (simp add: kv_hash_find_def kv_prims search_locked_eq not_le)
next
  case (Some a)
  then obtain r where r: "rqs s a = Some r" using kv_find_Some[OF assms(1)] by blast
  have "1 \<le> rq_refcount r" using kv_invD(5)[OF assms(1) r] .
  then show ?thesis using assms(1-3) assms(4) found_unlockedD[OF _ Some r] Some r
    by (cases lock) (auto simp: kv_hash_find_def kv_prims search_locked_eq not_le fun_eq_iff intro!: kv_state.equality)
qed

lemma pending_eq:
  assumes "kv_inv s" "k < KV_HASH_SIZE" "\<not> hash_lock s h k"
    "found_unlocked h k key s"
  shows "kv_hash_find_and_lock_pending_rq h key k s =
    (case kv_find h k key s of
       None \<Rightarrow> Inr (None, s)
     | Some a \<Rightarrow> (let r = the (rqs s a)
                 in Inr (Some a, put_rq a (r\<lparr>rq_refcount := rq_refcount r + 1, rq_lock := True\<rparr>) s)))"
proof (cases "kv_find h k key s")
  case None
  then show ?thesis using assms by (simp add: kv_hash_find_and_lock_pending_rq_def kv_prims search_locked_eq not_le)
next
  case (Some a)
  then obtain r where r: "rqs s a = Some r" using kv_find_Some[OF assms(1)] by blast
  then show ?thesis using assms(1-3) found_unlockedD[OF assms(4) Some r] Some
    by (simp add: kv_hash_find_and_lock_pending_rq_def kv_prims search_locked_eq not_le)
qed

lemma insert_readahead_eq:
  assumes "kv_inv s" "rqs s a = Some r" "rq_hash_key r = k" "k < KV_HASH_SIZE" "\<not> hash_lock s h k" "\<not> ra_lock s"
  shows "kv_hash_insert_readahead h a s =
    (case kv_find h k (rq_key r) s of
       None \<Rightarrow> Inr (None, (add_nr_rq 1 h (link_rq a h k r s))\<lparr>ra_list := a # ra_list s\<rparr>)
     | Some b \<Rightarrow> (let br = the (rqs s b) in Inr (Some b, put_rq b (br\<lparr>rq_refcount := rq_refcount br + 1\<rparr>) s)))"
proof (cases "kv_find h k (rq_key r) s")
  case None
  then show ?thesis using assms
    by (simp add: kv_hash_insert_readahead_def Let_def kv_prims search_locked_eq not_le link_rq_def)
next
  case (Some b)
  then obtain br where "rqs s b = Some br" using kv_find_Some[OF assms(1)] by blast
  then show ?thesis using assms Some
    by (simp add: kv_hash_insert_readahead_def Let_def kv_prims search_locked_eq not_le)
qed

lemma find_and_del_readahead_eq:
  assumes "kv_inv s" "k < KV_HASH_SIZE" "\<not> hash_lock s h k" "\<not> ra_lock s"
  shows "kv_hash_find_and_del_readahead h key k s =
    (case kv_find h k key s of
       None \<Rightarrow> Inr (None, s)
     | Some a \<Rightarrow> Inr (Some a, (add_nr_rq (-1) h (unlink_rq a h k (the (rqs s a)) s))\<lparr>ra_list := remove1 a (ra_list s)\<rparr>))"
proof (cases "kv_find h k key s")
  case None
  then show ?thesis using assms by (simp add: kv_hash_find_and_del_readahead_def kv_prims search_locked_eq not_le)
next
  case (Some a)
  then obtain r where "rqs s a = Some r" "rq_node r = Some (h, k)" using kv_find_Some[OF assms(1)] by blast
  then show ?thesis using assms Some
    by (simp add: kv_hash_find_and_del_readahead_def kv_prims search_locked_eq not_le unlink_rq_def)
qed

text \<open>The record a synchronous command gets hold of.\<close>

definition invalidated :: "kv_async_request \<Rightarrow> kv_async_request" where
  "invalidated r = r\<lparr>rq_refcount := rq_refcount r + 1, rq_lock := True,
     rq_state := set_bit KV_async_invalid_rq (rq_state r)\<rparr>"

lemma restart_eq:
  assumes "kv_inv s" "kv_find h k key s = Some a" "rqs s a = Some r" "\<not> rq_lock r"
    "hash_lock s h k = False"
  shows "UNLOCK_AND_RESTART a h (put_rq a (r\<lparr>rq_refcount := rq_refcount r + 1, rq_lock := True\<rparr>)
      (s\<lparr>hash_lock := (hash_lock s)(h := (hash_lock s h)(k := True))\<rparr>)) = Inr s"
proof -
  have "1 \<le> rq_refcount r" "rq_hash_key r = k" "k < KV_HASH_SIZE"
    using kv_invD(5)[OF assms(1,3)] kv_find_Some[OF assms(1)] assms(2,3) kv_invD(4)[OF assms(1,3)] by auto
  then show ?thesis using assms
    by (simp add: kv_prims not_le) (intro kv_state.equality; auto simp: fun_eq_iff)
qed

lemma drop_eq:
  assumes "1 \<le> rq_refcount r" "\<not> rq_lock r" "rqs s a = Some r"
  shows "drop_rq a (put_rq a (r\<lparr>rq_refcount := rq_refcount r + 1, rq_lock := True\<rparr>) s) = Inr s"
  using assms by (simp add: kv_prims) (intro kv_state.equality; auto simp: fun_eq_iff)

lemma find_and_lock_eq:
  assumes "kv_inv s" "k < KV_HASH_SIZE" "\<not> hash_lock s h k"
    "found_unlocked h k key s"
  shows "kv_hash_find_and_lock h key k s =
    (case kv_find h k key s of
       None \<Rightarrow> Inr (Return None, s)
     | Some a \<Rightarrow>
         (let r = the (rqs s a)
          in if busy_rq r then Inr (Again, s)
             else if bit (rq_state r) KV_async_inFlight_rq then Inr (Wait_inFlight a, s)
             else if rq_blocking_rq r \<noteq> None then Inr (Wait_blocking a, s)
             else Inr (Return (Some a), add_nr_rq (-1) h (unlink_rq a h k (invalidated r) s))))"
proof (cases "kv_find h k key s")
  case None
  then show ?thesis using assms by (simp add: kv_hash_find_and_lock_def kv_prims search_locked_eq not_le)
next
  case (Some a)
  then obtain r where r: "rqs s a = Some r" "rq_node r = Some (h, k)" using kv_find_Some[OF assms(1)] by blast
  let ?l = "s\<lparr>hash_lock := (hash_lock s)(h := (hash_lock s h)(k := True))\<rparr>"
  have l: "\<not> rq_lock r" using found_unlockedD[OF assms(4) Some r(1)] .
  have c: "1 \<le> rq_refcount r" using kv_invD(5)[OF assms(1) r(1)] .
  have nk: "\<not> KV_HASH_SIZE \<le> k" using assms(2) by simp
  have start: "bind_run (spin_lock_hash h k s) (\<lambda>s. bind_run (kv_hash_search h k key s) (\<lambda>(f, s). G f s))
      = G (Some a) (put_rq a (r\<lparr>rq_refcount := rq_refcount r + 1\<rparr>) ?l)" for G :: "nat option \<Rightarrow> kv_state \<Rightarrow> (sync_pass \<times> kv_state) run"
    using assms(1,3) Some r
    by (simp add: nk search_locked_eq spin_lock_hash_def atomic_inc_refcount_def modify_rq_def rq_of_def)
  have un: "spin_unlock_hash h k (put_rq a x ?l) = Inr (put_rq a x s)" for x
    using assms(2,3) by (simp add: spin_unlock_hash_def put_rq_def not_le) 
  show ?thesis
    unfolding kv_hash_find_and_lock_def start option.case
    using restart_eq[OF assms(1) Some r(1) l] drop_eq[OF c l r(1)] assms(2,3) Some r l un
    by (auto simp: spin_lock_rq_def rq_of_def put_rq_def busy_rq_def Let_def set_rq_bit_def modify_rq_def
        hlist_del_init_def spin_unlock_hash_def not_le add_nr_rq_def unlink_rq_def invalidated_def
        intro!: kv_state.equality)
qed

lemma read_and_invalidate_eq:
  assumes "kv_inv s" "k < KV_HASH_SIZE" "\<not> hash_lock s h k" "kv_find h k key s = Some a" "rqs s a = Some r"
    "\<not> rq_lock r" "\<not> busy_rq r" "\<not> bit (rq_state r) KV_async_inFlight_rq" "rq_blocking_rq r = None"
  shows "kv_hash_find_read_and_invalidate h key k s =
    (if is_kv_retrieve_cmd (rq_opcode r) then Inl Unlock_free else Inr (Return (Some a), s))"
proof -
  have c: "1 \<le> rq_refcount r" using kv_invD(5)[OF assms(1,5)] .
  have n: "rq_node r = Some (h, k)" using kv_find_Some[OF assms(1)] assms(4,5) by auto
  have nk: "\<not> KV_HASH_SIZE \<le> k" using assms(2) by simp
  show ?thesis
  proof (cases "is_kv_retrieve_cmd (rq_opcode r)")
    case True
    then show ?thesis using assms c n
      by (simp add: nk kv_hash_find_read_and_invalidate_def kv_prims search_locked_eq busy_rq_def)
  next
    case False
    then show ?thesis using assms c n
      by (simp add: nk kv_hash_find_read_and_invalidate_def kv_prims search_locked_eq busy_rq_def)
         (intro kv_state.equality; auto simp: fun_eq_iff)
  qed
qed

section \<open>Properties\<close>

text \<open>A small table for examples: one request, buffered under its key or not yet linked.\<close>

definition demo_rq :: "u8 \<Rightarrow> u64 \<Rightarrow> (kv_hash_id \<times> u32) option \<Rightarrow> kv_async_request" where
  "demo_rq opcode state node = \<lparr>rq_opcode = opcode, rq_state = state, rq_key = [1, 2, 3], rq_data_length = 0,
     rq_req = None, rq_cqe_result = 0, rq_result = 0, rq_errors = 0, rq_blocking_rq = None, rq_lock = False,
     rq_hash_key = 5, rq_node = node, rq_memq = 0, rq_refcount = 1, rq_in_flight_rq = 0\<rparr>"

definition demo_state :: "u8 \<Rightarrow> u64 \<Rightarrow> kv_state" where
  "demo_state opcode state = kv_hash_init\<lparr>rqs := [1 \<mapsto> demo_rq opcode state (Some (KV_RQ_HASH, 5))],
     hashtable := (\<lambda>_ _. [])(KV_RQ_HASH := (\<lambda>_. [])(5 := [1])), nr_rq := (\<lambda>_. 0)(KV_RQ_HASH := 1)\<rparr>"

lemma small_bucket: "(5 :: u32) < KV_HASH_SIZE"
  by (simp add: KV_HASH_SIZE_def KV_HASH_BITS_def)

lemma demo_inv: "kv_inv (demo_state opcode state)"
proof -
  have "linked h (demo_state opcode state) = (if h = KV_RQ_HASH then {1} else {})" for h
    by (auto simp: linked_def demo_state_def demo_rq_def)
  then show ?thesis unfolding kv_inv_def using small_bucket
    by (auto simp: demo_state_def demo_rq_def kv_hash_init_def split: if_splits)
qed

lemma demo_find: "kv_find KV_RQ_HASH 5 [1, 2, 3] (demo_state opcode state) = Some 1"
  by (simp add: kv_find_def demo_state_def demo_rq_def)


definition demo_pair :: "u64 \<Rightarrow> kv_state" where
  "demo_pair state = put_rq 2 (demo_rq 0x81 0 None) (demo_state 0x81 state)"

lemma demo_pair_inv: "kv_inv (demo_pair state)"
proof -
  have "linked h (demo_pair state) = (if h = KV_RQ_HASH then {1} else {})" for h
    by (auto simp: linked_def demo_pair_def demo_state_def demo_rq_def put_rq_def)
  then show ?thesis unfolding kv_inv_def using small_bucket
    by (auto simp: demo_pair_def demo_state_def demo_rq_def kv_hash_init_def put_rq_def split: if_splits)
qed

lemma demo_pair_find: "kv_find KV_RQ_HASH 5 [1, 2, 3] (demo_pair state) = Some 1"
  by (simp add: kv_find_def demo_pair_def demo_state_def demo_rq_def put_rq_def)




text \<open>
  C36: invalidating a buffered read releases the lock of its bucket twice. For
  a buffered write, which is left alone, the pass changes nothing.
\<close>

theorem read_invalidate_unlocks_twice:
  assumes "kv_inv s" "k < KV_HASH_SIZE" "\<not> hash_lock s h k" "kv_find h k key s = Some a" "rqs s a = Some r"
    "\<not> rq_lock r" "\<not> busy_rq r" "\<not> bit (rq_state r) KV_async_inFlight_rq" "rq_blocking_rq r = None"
  shows "kv_hash_find_read_and_invalidate h key k s =
    (if is_kv_retrieve_cmd (rq_opcode r) then Inl Unlock_free else Inr (Return (Some a), s))"
  by (rule read_and_invalidate_eq[OF assms])

theorem read_invalidate_unlocks_twice_witness:
  "kv_hash_find_read_and_invalidate KV_RQ_HASH [1, 2, 3] 5 (demo_state 0x90 0) = Inl Unlock_free"
proof -
  have "kv_hash_find_read_and_invalidate KV_RQ_HASH [1, 2, 3] 5 (demo_state 0x90 0) =
    (if is_kv_retrieve_cmd (rq_opcode (demo_rq 0x90 0 (Some (KV_RQ_HASH, 5)))) then Inl Unlock_free
     else Inr (Return (Some 1), demo_state 0x90 0))"
    by (rule read_invalidate_unlocks_twice[OF demo_inv small_bucket _ demo_find])
       (simp_all add: demo_state_def demo_rq_def kv_hash_init_def busy_rq_def)
  then show ?thesis by (simp add: demo_rq_def is_kv_retrieve_cmd_def nvme_cmd_kv_retrieve_def)
qed

end
