(* ===== verification/KvIosched.thy ===== *)
theory KvIosched
  imports KvHash
begin

text \<open>
  The request scheduler of the kernel driver on top of the request and
  read-ahead tables: issuing an asynchronous command (\<open>nvme_kv_iosched_cmd\<close> of
  \<^verbatim>\<open>kv_core.c\<close>), the lookups of a synchronous command (\<open>nvme_kv_cmd\<close>), sending a
  buffered request to the device (\<open>__nvme_submit_iosched_kv_cmd\<close>), and the
  completion daemon (\<open>kv_completion_workfn\<close> of \<^verbatim>\<open>kv_iosched.c\<close>). The memory queues
  are lists of requests, newest first. Copying from user space, the
  allocators, the hash function and the block layer are parameters. Each
  handler is one step; log messages, statistics and wake-ups carry no state.
\<close>

section \<open>State\<close>

definition KVCMD_INLINE_KEY_MAX :: nat where "KVCMD_INLINE_KEY_MAX = 16"
definition KV_MAX_INFLIGHT_REQUEST :: int where "KV_MAX_INFLIGHT_REQUEST = 512"
definition KV_PENDING_QUEU_LOW_WATERMARK :: int where
  "KV_PENDING_QUEU_LOW_WATERMARK = KV_MAX_INFLIGHT_REQUEST * 8"
definition KV_PENDING_QUEU_HIGH_WATERMARK :: int where
  "KV_PENDING_QUEU_HIGH_WATERMARK = KV_PENDING_QUEU_LOW_WATERMARK + KV_MAX_INFLIGHT_REQUEST div 2"

definition KV_async_waiting_submission :: nat where "KV_async_waiting_submission = 5"

definition KV_iosched_congested :: nat where "KV_iosched_congested = 1"
definition KV_iosched_queue_full :: nat where "KV_iosched_queue_full = 2"

definition KVS_SUCCESS :: int where "KVS_SUCCESS = 0"
definition KVS_ERR_INVALID_OPCODE :: int where "KVS_ERR_INVALID_OPCODE = -24"
definition KVS_ERR_INVALID_FLAGS :: int where "KVS_ERR_INVALID_FLAGS = -25"
definition KVS_ERR_EXIST_PENDING_KEY :: int where "KVS_ERR_EXIST_PENDING_KEY = -26"
definition KVS_ERR_EXIST_IN_RA_HASH :: int where "KVS_ERR_EXIST_IN_RA_HASH = -27"

definition EFAULT :: int where "EFAULT = 14"
definition EINVAL :: int where "EINVAL = 22"

definition is_kv_io_cmd :: "u8 \<Rightarrow> bool" where
  "is_kv_io_cmd opcode = (opcode = 0x81 \<or> is_kv_retrieve_cmd opcode \<or> opcode = 0xA1 \<or> opcode = 0x83)"

record nvme_passthru_kv_cmd =
  c_opcode :: u8
  c_flags :: u8
  c_key :: bytes
  c_data_length :: u32

record kv_iosched =
  ks :: kv_state
  memq_rq :: "nat \<Rightarrow> nat list"
  memq_nr_rq :: "nat \<Rightarrow> int"
  memq_nr_pending :: "nat \<Rightarrow> int"
  iosched_state :: u64
  in_flight_rq :: "nat \<Rightarrow> int"
  nr_async_complete :: nat

text \<open>
  What the rest of the kernel answers during a command: the copy of the
  command and of a long key, the hash of a key, a free request, the outcome of
  copying the data, and the active memory queue for reads and for writes.
\<close>

record cmd_env =
  copy_ok :: bool
  key_copy :: "(int \<times> int) option"
  get_hash_key :: "bytes \<Rightarrow> u32"
  rq_alloc :: "nat option"
  init_status :: int
  active_memq :: "bool \<Rightarrow> nat"

text \<open>A command returns a status and writes a result for the user, or keeps looking its key up.\<close>

datatype cmd_outcome = Cmd int "int option" | Spins

section \<open>Asynchronous commands\<close>

definition init_kv_async_request :: "nvme_passthru_kv_cmd \<Rightarrow> u32 \<Rightarrow> kv_async_request" where
  "init_kv_async_request cmd hash_key =
     \<lparr>rq_opcode = c_opcode cmd, rq_state = 0, rq_key = c_key cmd, rq_data_length = c_data_length cmd,
      rq_req = None, rq_cqe_result = 0, rq_result = 0, rq_errors = 0, rq_blocking_rq = None, rq_lock = False,
      rq_hash_key = hash_key, rq_node = None, rq_memq = 0, rq_refcount = 1, rq_in_flight_rq = 0\<rparr>"

text \<open>The command joins the request buffered under the same key; its own request is given back.\<close>

definition merge_rq :: "nvme_passthru_kv_cmd \<Rightarrow> nat \<Rightarrow> nat \<Rightarrow> kv_state \<Rightarrow> kv_state run" where
  "merge_rq cmd b a k =
     (if is_kv_retrieve_cmd (c_opcode cmd) then
        bind_run (drop_rq b k) (drop_rq a)
      else
        bind_run (rq_of a k) (\<lambda>r.
        bind_run (modify_rq b (\<lambda>br. br\<lparr>rq_data_length := rq_data_length r, rq_opcode := rq_opcode r\<rparr>) k) (\<lambda>k.
        bind_run (drop_rq b k) (\<lambda>k.
        bind_run (modify_rq a (\<lambda>r. r\<lparr>rq_data_length := 0\<rparr>) k) (drop_rq a)))))"

text \<open>The data read ahead under the key of a write is dropped.\<close>

definition cancel_readahead :: "bytes \<Rightarrow> u32 \<Rightarrow> kv_state \<Rightarrow> kv_state run" where
  "cancel_readahead key hash_key k =
     bind_run (kv_hash_find_and_del_readahead KV_RA_HASH key hash_key k) (\<lambda>(f, k).
       case f of
         None \<Rightarrow> Inr k
       | Some ra \<Rightarrow> bind_run (spin_lock_rq ra k) (drop_rq ra))"

text \<open>The new request goes to the active memory queue of its kind.\<close>

definition enqueue_rq :: "nvme_passthru_kv_cmd \<Rightarrow> nat \<Rightarrow> nat \<Rightarrow> kv_iosched \<Rightarrow> kv_iosched run" where
  "enqueue_rq cmd m a s =
     bind_run (modify_rq a (\<lambda>r. r\<lparr>rq_memq := m\<rparr>) (ks s)) (\<lambda>k.
     bind_run (rq_of a k) (\<lambda>r.
     bind_run (case rq_blocking_rq r of None \<Rightarrow> Inr k | Some b \<Rightarrow> drop_rq b k) (\<lambda>k.
     bind_run (spin_unlock_rq a k) (\<lambda>k.
     bind_run (if is_kv_retrieve_cmd (c_opcode cmd) then Inr k
               else cancel_readahead (rq_key r) (rq_hash_key r) k) (\<lambda>k.
       Inr (s\<lparr>ks := k,
              memq_rq := (memq_rq s)(m := a # memq_rq s m),
              memq_nr_rq := (memq_nr_rq s)(m := memq_nr_rq s m + 1),
              memq_nr_pending := (if rq_blocking_rq r = None then memq_nr_pending s
                 else (memq_nr_pending s)(m := memq_nr_pending s m + 1)),
              iosched_state := (if nr_rq k KV_RQ_HASH > KV_PENDING_QUEU_HIGH_WATERMARK
                 then set_bit KV_iosched_queue_full (iosched_state s) else iosched_state s)\<rparr>))))))"

text \<open>The allocator's result is cleared before it is tested.\<close>

definition kv_async_request_alloc :: "cmd_env \<Rightarrow> nat run" where
  "kv_async_request_alloc env = of_opt Out_of_bounds (rq_alloc env)"

definition nvme_kv_iosched_cmd :: "cmd_env \<Rightarrow> nvme_passthru_kv_cmd \<Rightarrow> kv_iosched \<Rightarrow> (cmd_outcome \<times> kv_iosched) run" where
  "nvme_kv_iosched_cmd env cmd s =
     (if \<not> copy_ok env then Inr (Cmd (- EFAULT) None, s)
      else if c_flags cmd \<noteq> 0 then Inr (Cmd (- EINVAL) (Some KVS_ERR_INVALID_FLAGS), s)
      else if \<not> is_kv_io_cmd (c_opcode cmd) then Inr (Cmd (- EINVAL) (Some KVS_ERR_INVALID_OPCODE), s)
      else if length (c_key cmd) > KVCMD_INLINE_KEY_MAX \<and> key_copy env \<noteq> None then
        Inr (Cmd (fst (the (key_copy env))) (Some (snd (the (key_copy env)))), s)
      else
        (let key = c_key cmd; hash_key = get_hash_key env key in
         bind_run (if is_kv_retrieve_cmd (c_opcode cmd) then kv_hash_find KV_RA_HASH key hash_key True (ks s)
                   else Inr (Done None, ks s)) (\<lambda>(f, k).
           case f of
             Restart \<Rightarrow> Inr (Spins, s\<lparr>ks := k\<rparr>)
           | Done (Some _) \<Rightarrow> Inr (Cmd 0 (Some KVS_ERR_EXIST_IN_RA_HASH), s\<lparr>ks := k\<rparr>)
           | Done None \<Rightarrow>
               bind_run (kv_async_request_alloc env) (\<lambda>a.
                 if init_status env \<noteq> 0 then Inr (Cmd (init_status env) None, s\<lparr>ks := k\<rparr>)
                 else
                   bind_run (spin_lock_rq a (put_rq a (init_kv_async_request cmd hash_key) k)) (\<lambda>k.
                   bind_run (kv_hash_insert KV_RQ_HASH a k) (\<lambda>(p, k).
                     case p of
                       Restart \<Rightarrow> Inr (Spins, s\<lparr>ks := k\<rparr>)
                     | Done (Some b) \<Rightarrow>
                         bind_run (merge_rq cmd b a k) (\<lambda>k.
                           Inr (Cmd KVS_SUCCESS (Some KVS_ERR_EXIST_PENDING_KEY), s\<lparr>ks := k\<rparr>))
                     | Done None \<Rightarrow>
                         bind_run (enqueue_rq cmd (active_memq env (is_kv_retrieve_cmd (c_opcode cmd))) a (s\<lparr>ks := k\<rparr>)) (\<lambda>s.
                           Inr (Cmd KVS_SUCCESS (Some KVS_SUCCESS), s))))))))"

section \<open>Submission\<close>

text \<open>
  One request of a memory queue. \<open>req_ok\<close> and \<open>map_status\<close> are the answers of the
  block layer; a request invalidated in the meantime is freed instead.
\<close>

definition count_in_flight :: "nat \<Rightarrow> kv_iosched \<Rightarrow> kv_iosched" where
  "count_in_flight cpu s =
     s\<lparr>in_flight_rq := (in_flight_rq s)(cpu := in_flight_rq s cpu + 1),
       iosched_state := (if KV_MAX_INFLIGHT_REQUEST < in_flight_rq s cpu + 1
         then set_bit KV_iosched_congested (iosched_state s) else iosched_state s)\<rparr>"

definition submit_rq :: "bool \<Rightarrow> int \<Rightarrow> nat \<Rightarrow> nat \<Rightarrow> nat \<Rightarrow> kv_iosched \<Rightarrow> (int \<times> kv_iosched) run" where
  "submit_rq req_ok map_status cpu m a s =
     bind_run (rq_of a (ks s)) (\<lambda>r.
       if rq_blocking_rq r \<noteq> None then
         bind_run (spin_unlock_rq a (ks s)) (\<lambda>k.
         bind_run (modify_rq a (\<lambda>r. r\<lparr>rq_blocking_rq := None\<rparr>) k) (\<lambda>k. Inr (- EINVAL, s\<lparr>ks := k\<rparr>)))
       else if \<not> req_ok then
         bind_run (spin_unlock_rq a (ks s)) (\<lambda>k. Inr (- EINVAL, s\<lparr>ks := k\<rparr>))
       else
         bind_run (spin_lock_rq a (ks s)) (\<lambda>k.
         bind_run (clear_rq_bit KV_async_waiting_submission a k) (\<lambda>k.
         let s = s\<lparr>memq_rq := (memq_rq s)(m := remove1 a (memq_rq s m))\<rparr> in
           if bit (rq_state r) KV_async_invalid_rq then
             bind_run (clear_rq_bit KV_async_flush_wakeup a k) (\<lambda>k.
             bind_run (drop_rq a k) (\<lambda>k.
               Inr (0, s\<lparr>ks := k, memq_nr_rq := (memq_nr_rq s)(m := memq_nr_rq s m - 1)\<rparr>)))
           else
             bind_run (set_rq_bit KV_async_inFlight_rq a k) (\<lambda>k.
             bind_run (spin_unlock_rq a k) (\<lambda>k.
               if map_status \<noteq> 0 then
                 bind_run (modify_rq a (\<lambda>r. r\<lparr>rq_req := None\<rparr>) k) (\<lambda>k.
                   Inr (map_status, s\<lparr>ks := k, memq_rq := (memq_rq s)(m := a # memq_rq s m)\<rparr>))
               else
                 bind_run (modify_rq a (\<lambda>r. r\<lparr>rq_req := Some 0, rq_in_flight_rq := cpu\<rparr>) k) (\<lambda>k.
                   Inr (0, (count_in_flight cpu s)\<lparr>ks := k,
                     memq_nr_rq := (memq_nr_rq s)(m := memq_nr_rq s m - 1)\<rparr>)))))))"

section \<open>Completion\<close>

text \<open>The result of a read goes to the read-ahead table, unless the key is there already.\<close>

definition save_readahead :: "nat \<Rightarrow> kv_state \<Rightarrow> kv_state run" where
  "save_readahead a k =
     bind_run (kv_hash_insert_readahead KV_RA_HASH a k) (\<lambda>(f, k).
       case f of
         None \<Rightarrow> set_rq_bit KV_async_in_readahead a k
       | Some ra \<Rightarrow>
           bind_run (atomic_dec_and_test ra k) (\<lambda>(z, k).
             if z then bind_run (spin_lock_rq ra k) (free_kv_async_rq ra) else Inr k))"

text \<open>The request that waited for this one may be submitted now.\<close>

definition release_pending :: "nat \<Rightarrow> kv_iosched \<Rightarrow> kv_iosched run" where
  "release_pending a s =
     bind_run (clear_rq_bit KV_async_blocking_rq a (ks s)) (\<lambda>k.
     bind_run (rq_of a k) (\<lambda>r.
     bind_run (kv_hash_find_and_lock_pending_rq KV_RQ_HASH (rq_key r) (rq_hash_key r) k) (\<lambda>(f, k).
       case f of
         None \<Rightarrow> Inr (s\<lparr>ks := k\<rparr>)
       | Some p \<Rightarrow>
           bind_run (rq_of p k) (\<lambda>pr.
           bind_run (if rq_blocking_rq pr = None then Inr (s\<lparr>ks := k\<rparr>)
                     else bind_run (modify_rq p (\<lambda>pr. pr\<lparr>rq_blocking_rq := None\<rparr>) k) (\<lambda>k.
                       Inr (s\<lparr>ks := k, memq_nr_pending :=
                         (memq_nr_pending s)(rq_memq pr := memq_nr_pending s (rq_memq pr) - 1)\<rparr>))) (\<lambda>s.
           bind_run (drop_rq p (ks s)) (\<lambda>k. Inr (s\<lparr>ks := k\<rparr>)))))))"

text \<open>One request less on the device, and room again for submitters and for new commands.\<close>

definition uncount_in_flight :: "kv_async_request \<Rightarrow> kv_iosched \<Rightarrow> kv_iosched" where
  "uncount_in_flight r s =
     s\<lparr>in_flight_rq := (in_flight_rq s)(rq_in_flight_rq r := in_flight_rq s (rq_in_flight_rq r) - 1),
       iosched_state := unset_bit KV_iosched_congested (iosched_state s)\<rparr>"

definition open_queue :: "kv_state \<Rightarrow> kv_iosched \<Rightarrow> kv_iosched" where
  "open_queue k s =
     (if nr_rq k KV_RQ_HASH < KV_PENDING_QUEU_LOW_WATERMARK
      then s\<lparr>iosched_state := unset_bit KV_iosched_queue_full (iosched_state s)\<rparr> else s)"

definition complete_rq :: "nat \<Rightarrow> kv_iosched \<Rightarrow> kv_iosched run" where
  "complete_rq a s =
     bind_run (rq_of a (ks s)) (\<lambda>r.
     bind_run (kv_hash_delete KV_RQ_HASH a (ks s)) (\<lambda>(ret, k).
     let s = open_queue k (uncount_in_flight r s) in
     bind_run (spin_lock_rq a k) (\<lambda>k.
     bind_run (set_rq_bit KV_async_completed a k) (\<lambda>k.
     bind_run (of_opt Out_of_bounds (rq_req r)) (\<lambda>errors.
     bind_run (modify_rq a (\<lambda>r. r\<lparr>rq_errors := errors,
         rq_result := (if is_kv_retrieve_cmd (rq_opcode r) then rq_cqe_result r else rq_data_length r)\<rparr>) k) (\<lambda>k.
     bind_run (if is_kv_retrieve_cmd (rq_opcode r) then save_readahead a k else Inr k) (\<lambda>k.
     bind_run (clear_rq_bit KV_async_inFlight_rq a k) (\<lambda>k.
     bind_run (clear_rq_bit KV_async_flush_wakeup a k) (\<lambda>k.
     bind_run (rq_of a k) (\<lambda>r.
     bind_run (if bit (rq_state r) KV_async_blocking_rq then release_pending a (s\<lparr>ks := k\<rparr>) else Inr (s\<lparr>ks := k\<rparr>)) (\<lambda>s.
     bind_run (modify_rq a (\<lambda>r. r\<lparr>rq_req := None\<rparr>) (ks s)) (\<lambda>k.
     bind_run (if bit (rq_state r) KV_async_in_readahead then spin_unlock_rq a k else drop_rq a k) (\<lambda>k.
       Inr (s\<lparr>ks := k, nr_async_complete := nr_async_complete s + 1\<rparr>))))))))))))))"

text \<open>The daemon takes the completed requests from the FIFO one after the other.\<close>

fun kv_completion_workfn :: "nat list \<Rightarrow> kv_iosched \<Rightarrow> kv_iosched run" where
  "kv_completion_workfn [] s = Inr s"
| "kv_completion_workfn (a # as) s = bind_run (complete_rq a s) (kv_completion_workfn as)"

section \<open>Synchronous commands\<close>

text \<open>Answers with the result and the status of the data read ahead, if it is there and wanted.\<close>

definition kv_do_readahead :: "bytes \<Rightarrow> u32 \<Rightarrow> u8 \<Rightarrow> kv_state \<Rightarrow> ((u32 \<times> int) option \<times> kv_state) run" where
  "kv_do_readahead key hash_key opcode k =
     bind_run (kv_hash_find_and_del_readahead KV_RA_HASH key hash_key k) (\<lambda>(f, k).
       case f of
         None \<Rightarrow> Inr (None, k)
       | Some ra \<Rightarrow>
           bind_run (spin_lock_rq ra k) (\<lambda>k.
           bind_run (rq_of ra k) (\<lambda>r.
           bind_run (drop_rq ra k) (\<lambda>k.
             Inr (if is_kv_retrieve_cmd opcode then Some (rq_result r, rq_errors r) else None, k)))))"

text \<open>
  The lookups of a synchronous command up to the point where it is sent to the
  device: it is answered from the read-ahead table, or it takes over the data
  of a buffered write (a buffered delete answers a read with \<open>NotExistKey\<close>), or
  it runs out of memory, or it goes to the device, or it has to wait or to look
  again.
\<close>

datatype sync_outcome = Ra_hit u32 int | Merged_put | Merged_del | No_memory | To_device | Sync_waits sync_pass | Sync_spins

definition nvme_kv_cmd_lookup :: "bool \<Rightarrow> bytes \<Rightarrow> u32 \<Rightarrow> u8 \<Rightarrow> kv_state \<Rightarrow> (sync_outcome \<times> kv_state) run" where
  "nvme_kv_cmd_lookup sync_alloc key hash_key opcode k =
     bind_run (kv_do_readahead key hash_key opcode k) (\<lambda>(hit, k).
       case hit of
         Some (res, errors) \<Rightarrow> Inr (Ra_hit res errors, k)
       | None \<Rightarrow>
           bind_run (kv_hash_find_and_lock KV_RQ_HASH key hash_key k) (\<lambda>(p, k).
             case p of
               Return None \<Rightarrow> Inr (To_device, k)
             | Return (Some b) \<Rightarrow>
                 bind_run (rq_of b k) (\<lambda>br.
                 let merges = is_kv_retrieve_cmd opcode \<and> rq_opcode br \<in> {0x81, 0xA1} in
                 bind_run (drop_rq b k) (\<lambda>k.
                   Inr (if merges \<and> \<not> sync_alloc then No_memory
                        else if merges then (if rq_opcode br = 0x81 then Merged_put else Merged_del)
                        else To_device, k)))
             | Again \<Rightarrow> Inr (Sync_spins, k)
             | _ \<Rightarrow> Inr (Sync_waits p, k)))"

end
