(* ===== verification/KvSched.thy ===== *)
theory KvSched
  imports KvIosched
begin

text \<open>
  The scheduler as a state machine: the handlers of \<^verbatim>\<open>KvIosched\<close> as steps, the
  invariant they keep (where each live request is, who waits for whom, and that
  every live request has exactly one reference between two steps), and what
  follows for every reachable state: no handler touches freed memory, misuses a
  lock or keeps retrying.
\<close>

section \<open>The invariant\<close>

definition in_flight :: "kv_async_request \<Rightarrow> bool" where
  "in_flight r = bit (rq_state r) KV_async_inFlight_rq"

definition is_blocking :: "kv_async_request \<Rightarrow> bool" where
  "is_blocking r = bit (rq_state r) KV_async_blocking_rq"

definition is_invalid :: "kv_async_request \<Rightarrow> bool" where
  "is_invalid r = bit (rq_state r) KV_async_invalid_rq"

definition is_completed :: "kv_async_request \<Rightarrow> bool" where
  "is_completed r = bit (rq_state r) KV_async_completed"

definition in_readahead :: "kv_async_request \<Rightarrow> bool" where
  "in_readahead r = bit (rq_state r) KV_async_in_readahead"

lemmas state_bits = in_flight_def is_blocking_def is_invalid_def is_completed_def in_readahead_def

lemma busy_bits: "busy_rq r \<longleftrightarrow> is_completed r \<or> is_invalid r \<or> is_blocking r"
  by (simp add: busy_rq_def state_bits)

type_synonym heap = "nat \<rightharpoonup> kv_async_request"

text \<open>One live request: its lock and reference, and how its state word, its chain and its waiters fit together.\<close>

definition rq_wf :: "heap \<Rightarrow> nat \<Rightarrow> kv_async_request \<Rightarrow> bool" where
  "rq_wf R a r \<longleftrightarrow>
     \<not> rq_lock r \<and> rq_refcount r = 1 \<and> rq_hash_key r < KV_HASH_SIZE
     \<and> (\<forall>k. rq_node r = Some (KV_RQ_HASH, k) \<longrightarrow> \<not> busy_rq r)
     \<and> (is_completed r \<longleftrightarrow> (\<exists>k. rq_node r = Some (KV_RA_HASH, k)))
     \<and> (is_completed r \<longleftrightarrow> in_readahead r)
     \<and> (is_completed r \<longrightarrow> \<not> in_flight r \<and> \<not> is_blocking r \<and> rq_blocking_rq r = None)
     \<and> (in_flight r \<longrightarrow> rq_req r \<noteq> None \<and> \<not> is_invalid r \<and> rq_blocking_rq r = None)
     \<and> (is_blocking r \<longrightarrow> in_flight r \<and> (\<exists>p pr. R p = Some pr \<and> rq_blocking_rq pr = Some a))
     \<and> (\<forall>b. rq_blocking_rq r = Some b \<longrightarrow> rq_node r = Some (KV_RQ_HASH, rq_hash_key r)
          \<and> (\<exists>br. R b = Some br \<and> is_blocking br \<and> rq_key br = rq_key r \<and> rq_hash_key br = rq_hash_key r))"

definition pending :: "heap \<Rightarrow> nat \<Rightarrow> nat set" where
  "pending R m = {a. \<exists>r. R a = Some r \<and> rq_memq r = m \<and> rq_blocking_rq r \<noteq> None}"

text \<open>All live requests, the memory queues that hold the buffered ones, and the counts of pending ones.\<close>

definition rq_inv :: "heap \<Rightarrow> (nat \<Rightarrow> nat list) \<Rightarrow> (nat \<Rightarrow> int) \<Rightarrow> bool" where
  "rq_inv R Q P \<longleftrightarrow>
     (\<forall>a r. R a = Some r \<longrightarrow> rq_wf R a r)
     \<and> (\<forall>m. distinct (Q m))
     \<and> (\<forall>m a. a \<in> set (Q m) \<longleftrightarrow> (\<exists>r. R a = Some r \<and> rq_memq r = m \<and> \<not> in_flight r \<and> \<not> is_completed r))
     \<and> (\<forall>m. P m = int (card (pending R m)))"

definition sched_inv :: "kv_iosched \<Rightarrow> bool" where
  "sched_inv s \<longleftrightarrow> kv_inv (ks s) \<and> (\<forall>h k. \<not> hash_lock (ks s) h k) \<and> \<not> ra_lock (ks s)
     \<and> rq_inv (rqs (ks s)) (memq_rq s) (memq_nr_pending s)"

lemma rq_invD:
  assumes "rq_inv R Q P"
  shows "R a = Some r \<Longrightarrow> rq_wf R a r" "distinct (Q m)"
    "a \<in> set (Q m) \<longleftrightarrow> (\<exists>r. R a = Some r \<and> rq_memq r = m \<and> \<not> in_flight r \<and> \<not> is_completed r)"
    "P m = int (card (pending R m))"
  using assms unfolding rq_inv_def by blast+

lemma rq_wfD:
  assumes "rq_wf R a r"
  shows "\<not> rq_lock r" "rq_refcount r = 1" "rq_hash_key r < KV_HASH_SIZE"
    "rq_node r = Some (KV_RQ_HASH, k) \<Longrightarrow> \<not> busy_rq r"
    "is_completed r \<longleftrightarrow> (\<exists>k. rq_node r = Some (KV_RA_HASH, k))" "is_completed r \<longleftrightarrow> in_readahead r"
    "is_completed r \<Longrightarrow> \<not> in_flight r \<and> \<not> is_blocking r \<and> rq_blocking_rq r = None"
    "in_flight r \<Longrightarrow> rq_req r \<noteq> None \<and> \<not> is_invalid r \<and> rq_blocking_rq r = None"
    "is_blocking r \<Longrightarrow> in_flight r \<and> (\<exists>p pr. R p = Some pr \<and> rq_blocking_rq pr = Some a)"
    "rq_blocking_rq r = Some b \<Longrightarrow> rq_node r = Some (KV_RQ_HASH, rq_hash_key r)
       \<and> (\<exists>br. R b = Some br \<and> is_blocking br \<and> rq_key br = rq_key r \<and> rq_hash_key br = rq_hash_key r)"
  using assms unfolding rq_wf_def by blast+

section \<open>Changes of the requests\<close>

text \<open>Requests that keep their own conditions when another one changes.\<close>

lemma rq_wf_mono:
  assumes "rq_wf R a r"
    "\<And>p pr. R p = Some pr \<Longrightarrow> rq_blocking_rq pr = Some a \<Longrightarrow> \<exists>p pr. R' p = Some pr \<and> rq_blocking_rq pr = Some a"
    "\<And>b br. rq_blocking_rq r = Some b \<Longrightarrow> R b = Some br \<Longrightarrow> is_blocking br \<Longrightarrow>
       \<exists>br'. R' b = Some br' \<and> is_blocking br' \<and> rq_key br' = rq_key br \<and> rq_hash_key br' = rq_hash_key br"
  shows "rq_wf R' a r"
  using assms unfolding rq_wf_def by metis

lemma rq_wf_upd:
  assumes w: "rq_wf R x xr"
    and c1: "\<And>r b. R a = Some r \<Longrightarrow> rq_blocking_rq r = Some b \<Longrightarrow> \<exists>r'. v = Some r' \<and> rq_blocking_rq r' = Some b"
    and c2: "\<And>r. R a = Some r \<Longrightarrow> is_blocking r \<Longrightarrow>
       \<exists>r'. v = Some r' \<and> is_blocking r' \<and> rq_key r' = rq_key r \<and> rq_hash_key r' = rq_hash_key r"
  shows "rq_wf (R(a := v)) x xr"
proof (rule rq_wf_mono[OF w])
  fix p pr assume p: "R p = Some pr" "rq_blocking_rq pr = Some x"
  show "\<exists>p pr. (R(a := v)) p = Some pr \<and> rq_blocking_rq pr = Some x"
  proof (cases "p = a")
    case True
    then show ?thesis using c1[of pr x] p by auto
  next
    case False
    then show ?thesis using p by (intro exI[of _ p]) auto
  qed
next
  fix b br assume "R b = Some br" "is_blocking br"
  then show "\<exists>br'. (R(a := v)) b = Some br' \<and> is_blocking br' \<and> rq_key br' = rq_key br \<and> rq_hash_key br' = rq_hash_key br"
    using c2[of br] by (cases "b = a") auto
qed

lemma new_buffered:
  assumes I: "rq_inv R Q P" and a: "R a = None"
    and r: "\<not> rq_lock r" "rq_refcount r = 1" "rq_hash_key r < KV_HASH_SIZE" "rq_node r = Some (KV_RQ_HASH, rq_hash_key r)"
      "rq_state r = 0" "rq_blocking_rq r = None" "rq_memq r = m"
  shows "rq_inv (R(a \<mapsto> r)) (Q(m := a # Q m)) P"
proof -
  have b: "\<not> in_flight r" "\<not> is_completed r" "\<not> is_blocking r" "\<not> is_invalid r" "\<not> in_readahead r"
    using r(5) by (simp_all add: state_bits)
  have old: "rq_wf (R(a \<mapsto> r)) x xr" if "R x = Some xr" for x xr
    by (rule rq_wf_upd[OF rq_invD(1)[OF I that]]) (use a in auto)
  have new: "rq_wf (R(a \<mapsto> r)) a r" using r b by (simp add: rq_wf_def busy_bits)
  have "pending (R(a \<mapsto> r)) m' = pending R m'" for m' using a r(6) by (auto simp: pending_def)
  then show ?thesis
    using rq_invD[OF I] old new a b r(7) unfolding rq_inv_def by auto
qed

text \<open>Changing what the invariant does not speak about.\<close>

lemma same_rq:
  assumes I: "rq_inv R Q P" and b: "R b = Some br"
    and r: "rq_lock br' = rq_lock br" "rq_refcount br' = rq_refcount br" "rq_hash_key br' = rq_hash_key br"
      "rq_node br' = rq_node br" "rq_state br' = rq_state br" "rq_blocking_rq br' = rq_blocking_rq br"
      "rq_memq br' = rq_memq br" "rq_key br' = rq_key br" "rq_req br = None \<longleftrightarrow> rq_req br' = None"
  shows "rq_inv (R(b \<mapsto> br')) Q P"
proof -
  have bits: "in_flight br' = in_flight br" "is_completed br' = is_completed br" "is_blocking br' = is_blocking br"
    "is_invalid br' = is_invalid br" "in_readahead br' = in_readahead br" "busy_rq br' = busy_rq br"
    using r(5) by (simp_all add: state_bits busy_rq_def)
  have old: "rq_wf (R(b \<mapsto> br')) x xr" if "R x = Some xr" for x xr
    by (rule rq_wf_upd[OF rq_invD(1)[OF I that]]) (use b r(3,6,8) bits(3) in auto)
  have "rq_wf (R(b \<mapsto> br')) b br' \<longleftrightarrow> rq_wf (R(b \<mapsto> br')) b br"
    unfolding rq_wf_def r(1-4,6,8) bits r(9) ..
  then have "rq_wf (R(b \<mapsto> br')) b br'" using old[OF b] by simp
  moreover have "pending (R(b \<mapsto> br')) m = pending R m" for m using b r by (auto simp: pending_def)
  ultimately show ?thesis using rq_invD[OF I] old b bits r(7) unfolding rq_inv_def by auto
qed

text \<open>A request that nobody waits for may go.\<close>

lemma remove_rq:
  assumes I: "rq_inv R Q P" and a: "R a = Some r" "rq_blocking_rq r = None" "\<not> is_blocking r"
  shows "rq_inv (R(a := None)) (Q(rq_memq r := remove1 a (Q (rq_memq r)))) P"
proof -
  have old: "rq_wf (R(a := None)) x xr" if "R x = Some xr" for x xr
    by (rule rq_wf_upd[OF rq_invD(1)[OF I that]]) (use a in auto)
  have "pending (R(a := None)) m = pending R m" for m using a by (auto simp: pending_def)
  then show ?thesis using rq_invD[OF I] old a unfolding rq_inv_def by (auto simp: fun_upd_apply)
qed

lemma not_queued:
  assumes "rq_inv R Q P" "R a = Some r" "in_flight r \<or> is_completed r"
  shows "Q(rq_memq r := remove1 a (Q (rq_memq r))) = Q"
proof -
  have "a \<notin> set (Q (rq_memq r))" using rq_invD(3)[OF assms(1)] assms(2,3) by auto
  then show ?thesis by (simp add: remove1_idem)
qed

text \<open>A buffered request is sent to the device.\<close>

lemma sent_rq:
  assumes I: "rq_inv R Q P" and a: "R a = Some r" "a \<in> set (Q m)" "rq_blocking_rq r = None" "\<not> is_invalid r"
    and r': "r' = r\<lparr>rq_state := w, rq_req := Some e, rq_in_flight_rq := c\<rparr>"
    and w: "in_flight r'" "is_completed r' = is_completed r" "is_blocking r' = is_blocking r"
      "is_invalid r' = is_invalid r" "in_readahead r' = in_readahead r"
  shows "rq_inv (R(a \<mapsto> r')) (Q(m := remove1 a (Q m))) P"
proof -
  have q: "rq_memq r = m" "\<not> in_flight r" "\<not> is_completed r" using rq_invD(3)[OF I, of a m] a by auto
  have old: "rq_wf (R(a \<mapsto> r')) x xr" if "R x = Some xr" for x xr
    by (rule rq_wf_upd[OF rq_invD(1)[OF I that]]) (use a r' w in auto)
  have "rq_wf (R(a \<mapsto> r')) a r'" using old[OF a(1)] r' w q a(3,4) unfolding rq_wf_def by (simp add: busy_bits)
  moreover have "pending (R(a \<mapsto> r')) m' = pending R m'" for m' using a r' by (auto simp: pending_def)
  ultimately show ?thesis using rq_invD[OF I] old a q w r' unfolding rq_inv_def by (auto simp: fun_upd_apply)
qed

text \<open>A buffered request is taken over by a synchronous command.\<close>

lemma invalid_rq:
  assumes I: "rq_inv R Q P" and a: "R a = Some r" "rq_blocking_rq r = None" "rq_node r = Some (KV_RQ_HASH, k)" "\<not> in_flight r"
    and r': "r' = r\<lparr>rq_state := w, rq_node := None\<rparr>"
    and w: "in_flight r' = in_flight r" "is_completed r' = is_completed r" "is_blocking r' = is_blocking r"
      "in_readahead r' = in_readahead r"
  shows "rq_inv (R(a \<mapsto> r')) Q P"
proof -
  have c: "\<not> is_completed r" using rq_wfD(5)[OF rq_invD(1)[OF I a(1)]] a(3) by simp
  have old: "rq_wf (R(a \<mapsto> r')) x xr" if "R x = Some xr" for x xr
    by (rule rq_wf_upd[OF rq_invD(1)[OF I that]]) (use a r' w in auto)
  have "rq_wf (R(a \<mapsto> r')) a r'" using old[OF a(1)] r' w c a unfolding rq_wf_def by simp
  moreover have "pending (R(a \<mapsto> r')) m' = pending R m'" for m' using a r' by (auto simp: pending_def)
  ultimately show ?thesis using rq_invD[OF I] old a w r' unfolding rq_inv_def by auto
qed

text \<open>A read that completed is kept in the read-ahead table.\<close>

lemma saved_rq:
  assumes I: "rq_inv R Q P" and a: "R a = Some r" "in_flight r" "\<not> is_blocking r"
    and r': "rq_lock r' = False" "rq_refcount r' = 1" "rq_hash_key r' = rq_hash_key r" "rq_node r' = Some (KV_RA_HASH, k)"
      "rq_blocking_rq r' = None" "is_completed r'" "in_readahead r'" "\<not> in_flight r'" "\<not> is_blocking r'"
  shows "rq_inv (R(a \<mapsto> r')) Q P"
proof -
  note wf = rq_wfD[OF rq_invD(1)[OF I a(1)]]
  have n: "rq_blocking_rq r = None" using wf(8) a(2) by simp
  have old: "rq_wf (R(a \<mapsto> r')) x xr" if "R x = Some xr" for x xr
    by (rule rq_wf_upd[OF rq_invD(1)[OF I that]]) (use a n in auto)
  have "rq_wf (R(a \<mapsto> r')) a r'" using r' wf(3) unfolding rq_wf_def by simp
  moreover have "pending (R(a \<mapsto> r')) m' = pending R m'" for m' using a n r' by (auto simp: pending_def)
  ultimately show ?thesis using rq_invD[OF I] old a r' unfolding rq_inv_def by auto
qed

lemma finite_pending: "finite (dom R) \<Longrightarrow> finite (pending R m)"
  by (rule finite_subset[of _ "dom R"]) (auto simp: pending_def)

text \<open>A new request waits for one that is on the device.\<close>

lemma new_pending:
  assumes I: "rq_inv R Q P" and fin: "finite (dom R)" and a: "R a = None"
    and b: "R b = Some br" "rq_node br = Some (KV_RQ_HASH, k)" "in_flight br"
    and br': "br' = br\<lparr>rq_state := w, rq_node := None\<rparr>"
    and w: "is_blocking br'" "in_flight br'" "is_completed br' = is_completed br"
      "is_invalid br' = is_invalid br" "in_readahead br' = in_readahead br"
    and r: "\<not> rq_lock r" "rq_refcount r = 1" "rq_hash_key r = rq_hash_key br" "rq_node r = Some (KV_RQ_HASH, rq_hash_key r)"
      "rq_state r = 0" "rq_blocking_rq r = Some b" "rq_memq r = m" "rq_key r = rq_key br"
  shows "rq_inv (R(b \<mapsto> br', a \<mapsto> r)) (Q(m := a # Q m)) (P(m := P m + 1))"
proof -
  have bits: "\<not> in_flight r" "\<not> is_completed r" "\<not> is_blocking r" "\<not> is_invalid r" "\<not> in_readahead r"
    using r(5) by (simp_all add: state_bits)
  have ab: "a \<noteq> b" using a b by auto
  note wfb = rq_wfD[OF rq_invD(1)[OF I b(1)]]
  have nb: "\<not> is_blocking br" "\<not> is_completed br" "rq_blocking_rq br = None"
    using wfb(4)[OF b(2)] wfb(8)[OF b(3)] by (simp_all add: busy_bits)
  have old: "rq_wf (R(b \<mapsto> br', a \<mapsto> r)) x xr" if "R x = Some xr" for x xr
    by (rule rq_wf_upd, rule rq_wf_upd[OF rq_invD(1)[OF I that]]) (use a ab b nb in auto)
  have wb: "rq_wf (R(b \<mapsto> br', a \<mapsto> r)) b br'"
    using wfb(1-3,6,8) b(3) nb w br' ab r(6) unfolding rq_wf_def by (auto simp: fun_upd_apply)
  have wa: "rq_wf (R(b \<mapsto> br', a \<mapsto> r)) a r"
    using r bits wfb(3) ab w(1) br' unfolding rq_wf_def by (simp add: busy_bits)
  have p: "pending (R(b \<mapsto> br', a \<mapsto> r)) m' = (if m' = m then insert a (pending R m) else pending R m')" for m'
    using a ab b nb br' r(6,7) by (auto simp: pending_def)
  have "a \<notin> pending R m" using a by (simp add: pending_def)
  then have c: "int (card (pending (R(b \<mapsto> br', a \<mapsto> r)) m')) = (P(m := P m + 1)) m'" for m'
    using finite_pending[OF fin] rq_invD(4)[OF I] unfolding p by simp
  show ?thesis unfolding rq_inv_def c
    using rq_invD(1-3)[OF I] old wa wb a ab b bits r(7) w br' by (auto simp: fun_upd_apply)
qed

text \<open>The waiting request is released when the one on the device completes.\<close>

lemma release_rq:
  assumes I: "rq_inv R Q P" and fin: "finite (dom R)"
    and b: "R b = Some br" "in_flight br" and p: "R p = Some pr" "rq_blocking_rq pr = Some b"
    and u: "\<And>q qr. R q = Some qr \<Longrightarrow> rq_blocking_rq qr = Some b \<Longrightarrow> q = p"
    and br': "br' = br\<lparr>rq_state := w\<rparr>"
    and w: "\<not> is_blocking br'" "in_flight br'" "is_completed br' = is_completed br"
      "is_invalid br' = is_invalid br" "in_readahead br' = in_readahead br"
  shows "rq_inv (R(b \<mapsto> br', p \<mapsto> pr\<lparr>rq_blocking_rq := None\<rparr>)) Q (P(rq_memq pr := P (rq_memq pr) - 1))"
proof -
  let ?R = "R(b \<mapsto> br', p \<mapsto> pr\<lparr>rq_blocking_rq := None\<rparr>)"
  note wfb = rq_wfD[OF rq_invD(1)[OF I b(1)]] and wfp = rq_wfD[OF rq_invD(1)[OF I p(1)]]
  have nb: "rq_blocking_rq br = None" using wfb(8)[OF b(2)] by simp
  have pb: "p \<noteq> b" using nb b p by auto
  have cb: "\<not> is_completed br" "\<not> in_readahead br" "\<not> is_invalid br" "rq_req br \<noteq> None" "\<And>k. rq_node br \<noteq> Some (KV_RA_HASH, k)"
    using wfb(5-8) b(2) by blast+
  have cp: "\<not> is_completed pr" "\<not> is_invalid pr" "\<not> in_readahead pr" "rq_node pr = Some (KV_RQ_HASH, rq_hash_key pr)"
    "\<not> in_flight pr"
    using wfp(4,6,8) wfp(10)[OF p(2)] p(2) by (auto simp: busy_bits)
  have np: "\<not> is_blocking pr" using wfp(10)[OF p(2)] wfp(4) by (auto simp: busy_bits)
  have old: "rq_wf ?R x xr" if x: "R x = Some xr" "x \<noteq> b" "x \<noteq> p" for x xr
  proof (rule rq_wf_mono[OF rq_invD(1)[OF I x(1)]])
    fix q qr assume q: "R q = Some qr" "rq_blocking_rq qr = Some x"
    then have "q \<noteq> b" "q \<noteq> p" using nb b p x by auto
    then show "\<exists>q qr. ?R q = Some qr \<and> rq_blocking_rq qr = Some x" using q by (intro exI[of _ q]) auto
  next
    fix c cr assume c: "rq_blocking_rq xr = Some c" "R c = Some cr" "is_blocking cr"
    then have "c \<noteq> b" "c \<noteq> p" using u[OF x(1)] x np p by auto
    then show "\<exists>cr'. ?R c = Some cr' \<and> is_blocking cr' \<and> rq_key cr' = rq_key cr \<and> rq_hash_key cr' = rq_hash_key cr"
      using c by auto
  qed
  have busy: "busy_rq (pr\<lparr>rq_blocking_rq := None\<rparr>) = busy_rq pr" "in_flight (pr\<lparr>rq_blocking_rq := None\<rparr>) = in_flight pr"
    "is_completed (pr\<lparr>rq_blocking_rq := None\<rparr>) = is_completed pr" "is_blocking (pr\<lparr>rq_blocking_rq := None\<rparr>) = is_blocking pr"
    "is_invalid (pr\<lparr>rq_blocking_rq := None\<rparr>) = is_invalid pr" "in_readahead (pr\<lparr>rq_blocking_rq := None\<rparr>) = in_readahead pr"
    by (simp_all add: busy_rq_def state_bits)
  have wb: "rq_wf ?R b br'"
    using wfb(1-3) cb b(2) br' w nb unfolding rq_wf_def by (auto simp: busy_bits)
  have wp: "rq_wf ?R p (pr\<lparr>rq_blocking_rq := None\<rparr>)"
    using wfp(1-3) np busy cp unfolding rq_wf_def by (simp add: busy_bits)
  have pd: "pending ?R m = (if m = rq_memq pr then pending R m - {p} else pending R m)" for m
    using b p nb br' pb by (auto simp: pending_def)
  have "p \<in> pending R (rq_memq pr)" using p by (simp add: pending_def)
  then have c: "int (card (pending ?R m)) = (P(rq_memq pr := P (rq_memq pr) - 1)) m" for m
    using finite_pending[OF fin, of m] rq_invD(4)[OF I, of m] card_gt_0_iff[of "pending R m"]
    unfolding pd by (auto simp: card_Diff_singleton of_nat_diff)
  show ?thesis unfolding rq_inv_def c
    using rq_invD(1-3)[OF I] old wb wp b p pb busy w br' by (auto simp: fun_upd_apply)
qed

section \<open>Allocating and freeing\<close>

lemma inv_ra_list [simp]: "kv_inv (k\<lparr>ra_list := l\<rparr>) = kv_inv k"
  by (simp add: kv_inv_def linked_def)

lemma find_ra_list [simp]: "kv_find h n key (k\<lparr>ra_list := l\<rparr>) = kv_find h n key k"
  by (simp add: kv_find_def)

lemma inv_alloc:
  assumes "kv_inv k" "rqs k a = None" "rq_node r = None" "1 \<le> rq_refcount r"
  shows "kv_inv (put_rq a r k)" "kv_find h n key (put_rq a r k) = kv_find h n key k"
proof -
  note I = kv_invD[OF assms(1)]
  have "linked h (put_rq a r k) = linked h k" for h using assms(2,3) by (auto simp: linked_def put_rq_def)
  then show i: "kv_inv (put_rq a r k)"
    using I assms unfolding kv_inv_def put_rq_def by (auto simp: fun_upd_apply)
  show "kv_find h n key (put_rq a r k) = kv_find h n key k"
    using assms by (intro kv_find_cong i) (auto simp: put_rq_def)
qed

lemma inv_free:
  assumes "kv_inv k" "rqs k a = Some r" "rq_node r = None"
  shows "kv_inv (k\<lparr>rqs := (rqs k)(a := None)\<rparr>)"
    "kv_find h n key (k\<lparr>rqs := (rqs k)(a := None)\<rparr>) = kv_find h n key k"
proof -
  note I = kv_invD[OF assms(1)]
  have "linked h (k\<lparr>rqs := (rqs k)(a := None)\<rparr>) = linked h k" for h using assms(2,3) by (auto simp: linked_def)
  then show i: "kv_inv (k\<lparr>rqs := (rqs k)(a := None)\<rparr>)"
    using I assms unfolding kv_inv_def by (auto simp: fun_upd_apply)
  show "kv_find h n key (k\<lparr>rqs := (rqs k)(a := None)\<rparr>) = kv_find h n key k"
    using assms by (intro kv_find_cong i) (auto simp: fun_upd_apply)
qed

lemma free_last:
  assumes "rqs k a = Some r" "rq_lock r" "rq_refcount r = 1"
  shows "drop_rq a k = Inr (k\<lparr>rqs := (rqs k)(a := None)\<rparr>)"
  using assms by (simp add: kv_prims)

lemma sched_invD:
  assumes "sched_inv s"
  shows "kv_inv (ks s)" "\<not> hash_lock (ks s) h k" "\<not> ra_lock (ks s)" "rq_inv (rqs (ks s)) (memq_rq s) (memq_nr_pending s)"
    "rqs (ks s) a = Some r \<Longrightarrow> rq_wf (rqs (ks s)) a r"
    "found_unlocked h k key (ks s)"
proof -
  show i: "kv_inv (ks s)" and q: "rq_inv (rqs (ks s)) (memq_rq s) (memq_nr_pending s)"
    and "\<not> hash_lock (ks s) h k" "\<not> ra_lock (ks s)"
    using assms by (simp_all add: sched_inv_def)
  show w: "rqs (ks s) a = Some r \<Longrightarrow> rq_wf (rqs (ks s)) a r" for a r using rq_invD(1)[OF q] .
  show "found_unlocked h k key (ks s)"
    unfolding found_unlocked_def using rq_wfD(1)[OF w] by (auto split: option.split)
qed

section \<open>The handlers keep the invariant\<close>

text \<open>Taking a request out of the read-ahead table and freeing it.\<close>

lemma take_readahead:
  assumes "sched_inv s" "n < KV_HASH_SIZE" "kv_find KV_RA_HASH n key (ks s) = Some ra" "rqs (ks s) ra = Some r"
  shows "\<exists>k'. kv_hash_find_and_del_readahead KV_RA_HASH key n (ks s) = Inr (Some ra, k')
    \<and> rqs k' ra = Some (r\<lparr>rq_node := None\<rparr>)
    \<and> (\<exists>k''. bind_run (spin_lock_rq ra k') (drop_rq ra) = Inr k'' \<and> sched_inv (s\<lparr>ks := k''\<rparr>))"
proof -
  note I = sched_invD[OF assms(1)]
  have n: "rq_node r = Some (KV_RA_HASH, n)" using kv_find_Some[OF I(1)] assms(3,4) by auto
  note wf = rq_wfD[OF I(5)[OF assms(4)]]
  let ?k = "(add_nr_rq (-1) KV_RA_HASH (unlink_rq ra KV_RA_HASH n r (ks s)))\<lparr>ra_list := remove1 ra (ra_list (ks s))\<rparr>"
  let ?k' = "?k\<lparr>rqs := (rqs ?k)(ra := None)\<rparr>"
  have e: "kv_hash_find_and_del_readahead KV_RA_HASH key n (ks s) = Inr (Some ra, ?k)"
    using find_and_del_readahead_eq[OF I(1) assms(2) I(2,3)] assms(3,4) by simp
  have r: "rqs ?k ra = Some (r\<lparr>rq_node := None\<rparr>)" by (simp add: add_nr_rq_def unlink_rq_def)
  have d: "bind_run (spin_lock_rq ra ?k) (drop_rq ra) = Inr ?k'"
    using wf(1,2) by (simp add: kv_prims unlink_rq_def)
  have "kv_inv (add_nr_rq (-1) KV_RA_HASH (unlink_rq ra KV_RA_HASH n r (ks s)))"
    using inv_unlink[OF I(1) assms(4) n refl] wf(2) by simp
  then have k: "kv_inv ?k'" using r by (intro inv_free[of _ ra "r\<lparr>rq_node := None\<rparr>"]) simp_all
  have c: "is_completed r" using wf(5) n by auto
  have "rqs ?k' = (rqs (ks s))(ra := None)" by (simp add: add_nr_rq_def unlink_rq_def)
  moreover have "rq_inv ((rqs (ks s))(ra := None)) (memq_rq s) (memq_nr_pending s)"
    using remove_rq[OF I(4) assms(4)] not_queued[OF I(4) assms(4)] wf(7)[OF c] c by simp
  ultimately have "sched_inv (s\<lparr>ks := ?k'\<rparr>)"
    using k I(2,3) by (simp add: sched_inv_def) (simp add: add_nr_rq_def unlink_rq_def)
  then show ?thesis using e r d by blast
qed

lemma cancel_safe:
  assumes "sched_inv s" "n < KV_HASH_SIZE"
  shows "\<exists>k'. cancel_readahead key n (ks s) = Inr k' \<and> sched_inv (s\<lparr>ks := k'\<rparr>)"
proof (cases "kv_find KV_RA_HASH n key (ks s)")
  case None
  then show ?thesis
    using find_and_del_readahead_eq[OF sched_invD(1)[OF assms(1)] assms(2) sched_invD(2,3)[OF assms(1)]] assms(1)
    by (simp add: cancel_readahead_def)
next
  case (Some ra)
  then obtain r where "rqs (ks s) ra = Some r" using kv_find_Some[OF sched_invD(1)[OF assms(1)]] by blast
  from take_readahead[OF assms Some this] show ?thesis by (auto simp: cancel_readahead_def)
qed

text \<open>The request of a new command, before it is linked.\<close>

definition fresh_state :: "nvme_passthru_kv_cmd \<Rightarrow> u32 \<Rightarrow> nat \<Rightarrow> kv_state \<Rightarrow> kv_state" where
  "fresh_state cmd n a k = put_rq a ((init_kv_async_request cmd n)\<lparr>rq_lock := True\<rparr>) k"

lemma init_fields [simp]:
  "rq_node (init_kv_async_request cmd n) = None" "rq_hash_key (init_kv_async_request cmd n) = n"
  "rq_key (init_kv_async_request cmd n) = c_key cmd" "rq_refcount (init_kv_async_request cmd n) = 1"
  "rq_state (init_kv_async_request cmd n) = 0" "rq_blocking_rq (init_kv_async_request cmd n) = None"
  "\<not> rq_lock (init_kv_async_request cmd n)" "rq_opcode (init_kv_async_request cmd n) = c_opcode cmd"
  "rq_data_length (init_kv_async_request cmd n) = c_data_length cmd"
  by (simp_all add: init_kv_async_request_def)

lemma fresh_lock: "spin_lock_rq a (put_rq a (init_kv_async_request cmd n) k) = Inr (fresh_state cmd n a k)"
  by (simp add: kv_prims fresh_state_def)

lemma fresh_inv:
  assumes "sched_inv s" "rqs (ks s) a = None"
  shows "kv_inv (fresh_state cmd n a (ks s))" "kv_find h n' key (fresh_state cmd n a (ks s)) = kv_find h n' key (ks s)"
    "\<not> hash_lock (fresh_state cmd n a (ks s)) h n'"
    "rqs (fresh_state cmd n a (ks s)) a = Some ((init_kv_async_request cmd n)\<lparr>rq_lock := True\<rparr>)"
  using inv_alloc[OF sched_invD(1)[OF assms(1)] assms(2)] sched_invD(2)[OF assms(1)]
  by (simp_all add: fresh_state_def) (simp_all add: put_rq_def)

text \<open>Queueing, once the request is linked and unlocked.\<close>

lemma enqueue_safe:
  assumes "modify_rq a (\<lambda>r. r\<lparr>rq_memq := m\<rparr>) (ks s) = Inr k1" "rq_of a k1 = Inr r"
    "bind_run (case rq_blocking_rq r of None \<Rightarrow> Inr k1 | Some b \<Rightarrow> drop_rq b k1) (spin_unlock_rq a) = Inr k2"
    "rq_hash_key r < KV_HASH_SIZE"
    "sched_inv (s\<lparr>ks := k2, memq_rq := (memq_rq s)(m := a # memq_rq s m),
       memq_nr_pending := (if rq_blocking_rq r = None then memq_nr_pending s
         else (memq_nr_pending s)(m := memq_nr_pending s m + 1))\<rparr>)"
  shows "\<exists>s'. enqueue_rq cmd m a s = Inr s' \<and> sched_inv s'"
proof -
  obtain kx where kx: "(case rq_blocking_rq r of None \<Rightarrow> Inr k1 | Some b \<Rightarrow> drop_rq b k1) = Inr kx" "spin_unlock_rq a kx = Inr k2"
    using assms(3) by (auto simp: bind_run_Inr_iff)
  obtain k3 where k3: "cancel_readahead (rq_key r) (rq_hash_key r) k2 = Inr k3"
    "sched_inv (s\<lparr>ks := k3, memq_rq := (memq_rq s)(m := a # memq_rq s m),
       memq_nr_pending := (if rq_blocking_rq r = None then memq_nr_pending s
         else (memq_nr_pending s)(m := memq_nr_pending s m + 1))\<rparr>)"
    using cancel_safe[OF assms(5,4), of "rq_key r"] by (auto simp: sched_inv_def)
  show ?thesis
    using assms(5) k3 by (cases "is_kv_retrieve_cmd (c_opcode cmd)")
      (simp_all add: enqueue_rq_def assms(1,2) kx sched_inv_def)
qed

text \<open>No request of that key: the new one is buffered.\<close>

lemma enqueue_new:
  assumes "sched_inv s" "n < KV_HASH_SIZE" "rqs (ks s) a = None" "kv_find KV_RQ_HASH n (c_key cmd) (ks s) = None"
  shows "\<exists>k s'. kv_hash_insert KV_RQ_HASH a (fresh_state cmd n a (ks s)) = Inr (Done None, k)
    \<and> enqueue_rq cmd m a (s\<lparr>ks := k\<rparr>) = Inr s' \<and> sched_inv s'"
proof -
  note I = sched_invD[OF assms(1)] and F = fresh_inv[OF assms(1,3)]
  let ?r = "init_kv_async_request cmd n"
  let ?k = "add_nr_rq 1 KV_RQ_HASH (link_rq a KV_RQ_HASH n (?r\<lparr>rq_lock := True\<rparr>) (fresh_state cmd n a (ks s)))"
  have e: "kv_hash_insert KV_RQ_HASH a (fresh_state cmd n a (ks s)) = Inr (Done None, ?k)"
    using insert_new[OF F(1) F(4) _ assms(2) F(3)] F(2) assms(4) by simp
  let ?r' = "?r\<lparr>rq_memq := m\<rparr>"
  let ?k' = "add_nr_rq 1 KV_RQ_HASH (link_rq a KV_RQ_HASH n ?r' (put_rq a ?r' (ks s)))"
  have r: "rqs ?k' = (rqs (ks s))(a \<mapsto> ?r'\<lparr>rq_node := Some (KV_RQ_HASH, n)\<rparr>)"
    by (simp add: add_nr_rq_def link_rq_def put_rq_def)
  have u: "bind_run (modify_rq a (\<lambda>r. r\<lparr>rq_memq := m\<rparr>) ?k) (spin_unlock_rq a) = Inr ?k'"
    by (simp add: kv_prims fresh_state_def link_rq_def) (intro kv_state.equality; auto simp: fun_eq_iff)
  have i: "kv_inv ?k'"
    using inv_alloc[OF I(1) assms(3), of ?r'] inv_link[of "put_rq a ?r' (ks s)" a ?r' ?r' n KV_RQ_HASH] assms(2,4)
    by (simp add: put_rq_def)
  let ?s = "s\<lparr>ks := ?k', memq_rq := (memq_rq s)(m := a # memq_rq s m)\<rparr>"
  have "sched_inv ?s"
    using i I(2,3) new_buffered[OF I(4) assms(3), of "?r'\<lparr>rq_node := Some (KV_RQ_HASH, n)\<rparr>" m] assms(2)
    unfolding sched_inv_def r by simp (simp add: add_nr_rq_def link_rq_def put_rq_def)
  then have si: "sched_inv ?s" .
  let ?r2 = "?r\<lparr>rq_lock := True, rq_memq := m, rq_node := Some (KV_RQ_HASH, n)\<rparr>"
  have m1: "modify_rq a (\<lambda>r. r\<lparr>rq_memq := m\<rparr>) ?k = Inr (put_rq a ?r2 ?k)"
    by (simp add: kv_prims fresh_state_def link_rq_def) (intro kv_state.equality; auto simp: fun_eq_iff)
  have "\<exists>s'. enqueue_rq cmd m a (s\<lparr>ks := ?k\<rparr>) = Inr s' \<and> sched_inv s'"
  proof (rule enqueue_safe[where r = ?r2])
    show "modify_rq a (\<lambda>r. r\<lparr>rq_memq := m\<rparr>) (ks (s\<lparr>ks := ?k\<rparr>)) = Inr (put_rq a ?r2 ?k)" using m1 by simp
    show "rq_of a (put_rq a ?r2 ?k) = Inr ?r2" by (simp add: rq_of_def put_rq_def)
    show "bind_run (case rq_blocking_rq ?r2 of None \<Rightarrow> Inr (put_rq a ?r2 ?k) | Some b \<Rightarrow> drop_rq b (put_rq a ?r2 ?k))
       (spin_unlock_rq a) = Inr ?k'" using u m1 by simp
    show "rq_hash_key ?r2 < KV_HASH_SIZE" using assms(2) by simp
    show "sched_inv (s\<lparr>ks := ?k, ks := ?k', memq_rq := (memq_rq (s\<lparr>ks := ?k\<rparr>))(m := a # memq_rq (s\<lparr>ks := ?k\<rparr>) m),
       memq_nr_pending := (if rq_blocking_rq ?r2 = None then memq_nr_pending (s\<lparr>ks := ?k\<rparr>)
         else (memq_nr_pending (s\<lparr>ks := ?k\<rparr>))(m := memq_nr_pending (s\<lparr>ks := ?k\<rparr>) m + 1))\<rparr>)" using si by simp
  qed
  then show ?thesis using e by blast
qed

lemma block_bits:
  "is_blocking (r\<lparr>rq_state := set_bit KV_async_blocking_rq (rq_state r)\<rparr>)"
  "in_flight (r\<lparr>rq_state := set_bit KV_async_blocking_rq (rq_state r)\<rparr>) = in_flight r"
  "is_completed (r\<lparr>rq_state := set_bit KV_async_blocking_rq (rq_state r)\<rparr>) = is_completed r"
  "is_invalid (r\<lparr>rq_state := set_bit KV_async_blocking_rq (rq_state r)\<rparr>) = is_invalid r"
  "in_readahead (r\<lparr>rq_state := set_bit KV_async_blocking_rq (rq_state r)\<rparr>) = in_readahead r"
  by (simp_all add: state_bits bit_set_bit_iff rq_bits)

lemma bits_node [simp]:
  "is_blocking (r\<lparr>rq_node := x\<rparr>) = is_blocking r" "in_flight (r\<lparr>rq_node := x\<rparr>) = in_flight r"
  "is_completed (r\<lparr>rq_node := x\<rparr>) = is_completed r" "is_invalid (r\<lparr>rq_node := x\<rparr>) = is_invalid r"
  "in_readahead (r\<lparr>rq_node := x\<rparr>) = in_readahead r"
  by (simp_all add: state_bits)

text \<open>A request of that key is on the device: the new one waits for it.\<close>

lemma enqueue_pending:
  assumes "sched_inv s" "n < KV_HASH_SIZE" "rqs (ks s) a = None" "kv_find KV_RQ_HASH n (c_key cmd) (ks s) = Some b"
    "rqs (ks s) b = Some br" "in_flight br"
  shows "\<exists>k s'. kv_hash_insert KV_RQ_HASH a (fresh_state cmd n a (ks s)) = Inr (Done None, k)
    \<and> enqueue_rq cmd m a (s\<lparr>ks := k\<rparr>) = Inr s' \<and> sched_inv s'"
proof -
  note I = sched_invD[OF assms(1)] and F = fresh_inv[OF assms(1,3)]
  note wf = rq_wfD[OF I(5)[OF assms(5)]]
  have ab: "a \<noteq> b" using assms(3,5) by auto
  have n: "rq_node br = Some (KV_RQ_HASH, n)" "rq_key br = c_key cmd" "rq_hash_key br = n"
    using kv_find_Some[OF I(1)] assms(4,5) kv_invD(4)[OF I(1) assms(5)] by auto
  have nb: "\<not> busy_rq br" using wf(4)[OF n(1)] .
  let ?r = "init_kv_async_request cmd n"
  let ?k = "link_rq a KV_RQ_HASH n (?r\<lparr>rq_lock := True, rq_blocking_rq := Some b\<rparr>)
      (unlink_rq b KV_RQ_HASH n (br\<lparr>rq_lock := True, rq_refcount := rq_refcount br + 1,
        rq_state := set_bit KV_async_blocking_rq (rq_state br)\<rparr>) (fresh_state cmd n a (ks s)))"
  have fb: "rqs (fresh_state cmd n a (ks s)) b = Some br" using assms(5) ab by (simp add: fresh_state_def put_rq_def)
  have e: "kv_hash_insert KV_RQ_HASH a (fresh_state cmd n a (ks s)) = Inr (Done None, ?k)"
    using insert_inFlight[OF F(1) F(4) _ _ assms(2) F(3) _ fb wf(1) nb] F(2) assms(4,6) by (simp add: in_flight_def)
  let ?r' = "?r\<lparr>rq_memq := m, rq_blocking_rq := Some b\<rparr>"
  let ?b' = "br\<lparr>rq_state := set_bit KV_async_blocking_rq (rq_state br)\<rparr>"
  let ?k' = "link_rq a KV_RQ_HASH n ?r' (unlink_rq b KV_RQ_HASH n ?b' (put_rq a ?r' (ks s)))"
  have r: "rqs ?k' = (rqs (ks s))(b \<mapsto> ?b'\<lparr>rq_node := None\<rparr>, a \<mapsto> ?r'\<lparr>rq_node := Some (KV_RQ_HASH, n)\<rparr>)"
    using ab by (auto simp: link_rq_def unlink_rq_def put_rq_def)
  have i: "kv_inv ?k'"
    using inv_replace(1)[OF inv_alloc(1)[OF I(1) assms(3), of ?r'], of b br KV_RQ_HASH n ?b' a ?r' ?r']
      assms(5) ab n wf(2) by (simp add: put_rq_def)
  have q: "rq_inv (rqs ?k') ((memq_rq s)(m := a # memq_rq s m)) ((memq_nr_pending s)(m := memq_nr_pending s m + 1))"
    unfolding r using block_bits[of br]
    by (intro new_pending[OF I(4) kv_invD(1)[OF I(1)] assms(3,5) n(1) assms(6), of _ "set_bit KV_async_blocking_rq (rq_state br)"])
       (simp_all add: assms(6) n)
  let ?s = "s\<lparr>ks := ?k', memq_rq := (memq_rq s)(m := a # memq_rq s m),
     memq_nr_pending := (memq_nr_pending s)(m := memq_nr_pending s m + 1)\<rparr>"
  have si: "sched_inv ?s"
    using i I(2,3) q unfolding sched_inv_def by simp (simp add: link_rq_def unlink_rq_def put_rq_def)
  let ?r2 = "?r\<lparr>rq_lock := True, rq_blocking_rq := Some b, rq_memq := m, rq_node := Some (KV_RQ_HASH, n)\<rparr>"
  have m1: "modify_rq a (\<lambda>r. r\<lparr>rq_memq := m\<rparr>) ?k = Inr (put_rq a ?r2 ?k)"
    by (simp add: kv_prims fresh_state_def link_rq_def) (intro kv_state.equality; auto simp: fun_eq_iff)
  have u: "bind_run (drop_rq b (put_rq a ?r2 ?k)) (spin_unlock_rq a) = Inr ?k'"
    using wf(1,2) ab assms(5)
    by (simp add: kv_prims fresh_state_def link_rq_def unlink_rq_def) (intro kv_state.equality; auto simp: fun_eq_iff)
  have "\<exists>s'. enqueue_rq cmd m a (s\<lparr>ks := ?k\<rparr>) = Inr s' \<and> sched_inv s'"
  proof (rule enqueue_safe[where r = ?r2])
    show "modify_rq a (\<lambda>r. r\<lparr>rq_memq := m\<rparr>) (ks (s\<lparr>ks := ?k\<rparr>)) = Inr (put_rq a ?r2 ?k)" using m1 by simp
    show "rq_of a (put_rq a ?r2 ?k) = Inr ?r2" by (simp add: rq_of_def put_rq_def)
    show "bind_run (case rq_blocking_rq ?r2 of None \<Rightarrow> Inr (put_rq a ?r2 ?k) | Some b \<Rightarrow> drop_rq b (put_rq a ?r2 ?k))
       (spin_unlock_rq a) = Inr ?k'" using u by simp
    show "rq_hash_key ?r2 < KV_HASH_SIZE" using assms(2) by simp
    show "sched_inv (s\<lparr>ks := ?k, ks := ?k', memq_rq := (memq_rq (s\<lparr>ks := ?k\<rparr>))(m := a # memq_rq (s\<lparr>ks := ?k\<rparr>) m),
       memq_nr_pending := (if rq_blocking_rq ?r2 = None then memq_nr_pending (s\<lparr>ks := ?k\<rparr>)
         else (memq_nr_pending (s\<lparr>ks := ?k\<rparr>))(m := memq_nr_pending (s\<lparr>ks := ?k\<rparr>) m + 1))\<rparr>)" using si by simp
  qed
  then show ?thesis using e by blast
qed

text \<open>A request of that key is buffered: the new command joins it.\<close>

lemma merge_safe:
  assumes "sched_inv s" "n < KV_HASH_SIZE" "rqs (ks s) a = None" "kv_find KV_RQ_HASH n (c_key cmd) (ks s) = Some b"
    "rqs (ks s) b = Some br" "\<not> in_flight br"
  shows "\<exists>k k'. kv_hash_insert KV_RQ_HASH a (fresh_state cmd n a (ks s)) = Inr (Done (Some b), k)
    \<and> merge_rq cmd b a k = Inr k' \<and> sched_inv (s\<lparr>ks := k'\<rparr>)"
proof -
  note I = sched_invD[OF assms(1)] and F = fresh_inv[OF assms(1,3)]
  note wf = rq_wfD[OF I(5)[OF assms(5)]]
  have ab: "a \<noteq> b" using assms(3,5) by auto
  have n: "rq_node br = Some (KV_RQ_HASH, n)" using kv_find_Some[OF I(1)] assms(4,5) by auto
  let ?k = "put_rq b (br\<lparr>rq_refcount := rq_refcount br + 1, rq_lock := True\<rparr>) (fresh_state cmd n a (ks s))"
  have fb: "rqs (fresh_state cmd n a (ks s)) b = Some br" using assms(5) ab by (simp add: fresh_state_def put_rq_def)
  have e: "kv_hash_insert KV_RQ_HASH a (fresh_state cmd n a (ks s)) = Inr (Done (Some b), ?k)"
    using insert_buffered[OF F(1) F(4) _ assms(2) F(3) _ fb wf(1) wf(4)[OF n]] F(2) assms(4,6) by (simp add: in_flight_def)
  show ?thesis
  proof (cases "is_kv_retrieve_cmd (c_opcode cmd)")
    case True
    then have "merge_rq cmd b a ?k = Inr (ks s)"
      using wf(1,2) ab assms(3,5) by (simp add: merge_rq_def kv_prims fresh_state_def)
        (intro kv_state.equality; auto simp: fun_eq_iff)
    then show ?thesis using e assms(1) by auto
  next
    case False
    let ?b = "br\<lparr>rq_data_length := c_data_length cmd, rq_opcode := c_opcode cmd\<rparr>"
    have m: "merge_rq cmd b a ?k = Inr (put_rq b ?b (ks s))"
      using False wf(1,2) ab assms(3,5) by (simp add: merge_rq_def kv_prims fresh_state_def)
        (intro kv_state.equality; auto simp: fun_eq_iff)
    have "kv_inv (put_rq b ?b (ks s))" using inv_put(1)[OF I(1) assms(5), of ?b] wf(2) by simp
    moreover have "rq_inv (rqs (put_rq b ?b (ks s))) (memq_rq s) (memq_nr_pending s)"
      using same_rq[OF I(4) assms(5), of ?b] by (simp add: put_rq_def)
    ultimately have "sched_inv (s\<lparr>ks := put_rq b ?b (ks s)\<rparr>)"
      using I(2,3) by (simp add: sched_inv_def) (simp add: put_rq_def)
    then show ?thesis using e m by blast
  qed
qed

definition cmd_env_ok :: "cmd_env \<Rightarrow> nvme_passthru_kv_cmd \<Rightarrow> kv_iosched \<Rightarrow> bool" where
  "cmd_env_ok env cmd s \<longleftrightarrow> get_hash_key env (c_key cmd) < KV_HASH_SIZE
     \<and> (\<exists>a. rq_alloc env = Some a \<and> rqs (ks s) a = None)"

lemma async_safe:
  assumes "sched_inv s" "cmd_env_ok env cmd s"
  shows "\<exists>out s'. nvme_kv_iosched_cmd env cmd s = Inr (out, s') \<and> out \<noteq> Spins \<and> sched_inv s'"
proof -
  let ?n = "get_hash_key env (c_key cmd)"
  obtain a where n: "?n < KV_HASH_SIZE" and a: "rq_alloc env = Some a" "rqs (ks s) a = None"
    using assms(2) by (auto simp: cmd_env_ok_def)
  note I = sched_invD[OF assms(1)]
  let ?m = "active_memq env (is_kv_retrieve_cmd (c_opcode cmd))"
  have f: "kv_hash_find KV_RA_HASH (c_key cmd) ?n True (ks s) = Inr (Done (kv_find KV_RA_HASH ?n (c_key cmd) (ks s)), ks s)"
    using find_eq[OF I(1) n I(2)] I(6) by simp
  consider (new) k s' where "kv_hash_insert KV_RQ_HASH a (fresh_state cmd ?n a (ks s)) = Inr (Done None, k)"
      "enqueue_rq cmd ?m a (s\<lparr>ks := k\<rparr>) = Inr s'" "sched_inv s'"
    | (merge) b k k' where "kv_hash_insert KV_RQ_HASH a (fresh_state cmd ?n a (ks s)) = Inr (Done (Some b), k)"
      "merge_rq cmd b a k = Inr k'" "sched_inv (s\<lparr>ks := k'\<rparr>)"
  proof (cases "kv_find KV_RQ_HASH ?n (c_key cmd) (ks s)")
    case None
    then show ?thesis using enqueue_new[OF assms(1) n a(2) None, of ?m] that(1) by blast
  next
    case (Some b)
    then obtain br where "rqs (ks s) b = Some br" using kv_find_Some[OF I(1)] by blast
    then show ?thesis
      using enqueue_pending[OF assms(1) n a(2) Some, of br ?m] merge_safe[OF assms(1) n a(2) Some, of br] that
      by (cases "in_flight br") blast+
  qed
  then have "\<exists>out s'. bind_run (spin_lock_rq a (put_rq a (init_kv_async_request cmd ?n) (ks s))) (\<lambda>k.
        bind_run (kv_hash_insert KV_RQ_HASH a k) (\<lambda>(p, k).
          case p of
            Restart \<Rightarrow> Inr (Spins, s\<lparr>ks := k\<rparr>)
          | Done (Some b) \<Rightarrow>
              bind_run (merge_rq cmd b a k) (\<lambda>k. Inr (Cmd KVS_SUCCESS (Some KVS_ERR_EXIST_PENDING_KEY), s\<lparr>ks := k\<rparr>))
          | Done None \<Rightarrow>
              bind_run (enqueue_rq cmd ?m a (s\<lparr>ks := k\<rparr>)) (\<lambda>s. Inr (Cmd KVS_SUCCESS (Some KVS_SUCCESS), s)))) = Inr (out, s')
      \<and> out \<noteq> Spins \<and> sched_inv s'"
    by cases (simp_all add: fresh_lock)
  then show ?thesis using assms(1) a(1) f
    by (auto simp: nvme_kv_iosched_cmd_def Let_def kv_async_request_alloc_def split: option.split)
qed

section \<open>Submission\<close>

lemma send_bits:
  fixes r :: kv_async_request and e :: "int option" and c :: nat
  defines "r' \<equiv> r\<lparr>rq_state := set_bit KV_async_inFlight_rq (unset_bit KV_async_waiting_submission (rq_state r)), rq_req := e, rq_in_flight_rq := c\<rparr>"
  shows "in_flight r'" "is_completed r' = is_completed r" "is_blocking r' = is_blocking r"
    "is_invalid r' = is_invalid r" "in_readahead r' = in_readahead r"
  by (simp_all add: r'_def state_bits bit_set_bit_iff bit_unset_bit_iff rq_bits KV_async_waiting_submission_def)

lemma submit_safe:
  assumes "sched_inv s" "a \<in> set (memq_rq s m)" "memq_nr_pending s m = 0"
  shows "\<exists>s'. submit_rq True 0 cpu m a s = Inr (0, s') \<and> sched_inv s'"
proof -
  note I = sched_invD[OF assms(1)]
  obtain r where r: "rqs (ks s) a = Some r" "rq_memq r = m" "\<not> in_flight r" "\<not> is_completed r"
    using rq_invD(3)[OF I(4)] assms(2) by auto
  note wf = rq_wfD[OF I(5)[OF r(1)]]
  have "pending (rqs (ks s)) m = {}"
    using rq_invD(4)[OF I(4), of m] assms(3) finite_pending[OF kv_invD(1)[OF I(1)]] by simp
  then have b: "rq_blocking_rq r = None" using r by (auto simp: pending_def)
  show ?thesis
  proof (cases "is_invalid r")
    case True
    have n: "rq_node r = None"
    proof (cases "rq_node r")
      case (Some hn)
      then show ?thesis using wf(4,5) True r(4) by (cases hn; cases "fst hn") (auto simp: busy_bits)
    qed
    have nb: "\<not> is_blocking r" using wf(9) r(3) by auto
    let ?k = "(ks s)\<lparr>rqs := (rqs (ks s))(a := None)\<rparr>"
    have "sched_inv (s\<lparr>ks := ?k, memq_rq := (memq_rq s)(m := remove1 a (memq_rq s m))\<rparr>)"
      using inv_free(1)[OF I(1) r(1) n] remove_rq[OF I(4) r(1) b nb] I(2,3) r(2) by (simp add: sched_inv_def)
    then show ?thesis using True r(1) b wf(1,2) unfolding submit_rq_def
      by (simp add: kv_prims is_invalid_def Let_def sched_inv_def)
  next
    case False
    let ?r = "r\<lparr>rq_state := set_bit KV_async_inFlight_rq (unset_bit KV_async_waiting_submission (rq_state r)),
        rq_req := Some 0, rq_in_flight_rq := cpu\<rparr>"
    have "kv_inv (put_rq a ?r (ks s))" using inv_put(1)[OF I(1) r(1), of ?r] wf(2) by simp
    moreover have "rq_inv (rqs (put_rq a ?r (ks s))) ((memq_rq s)(m := remove1 a (memq_rq s m))) (memq_nr_pending s)"
      using sent_rq[OF I(4) r(1) assms(2) b False refl send_bits] by (simp add: put_rq_def)
    ultimately have si: "sched_inv (s\<lparr>ks := put_rq a ?r (ks s), memq_rq := (memq_rq s)(m := remove1 a (memq_rq s m))\<rparr>)"
      using I(2,3) by (simp add: sched_inv_def) (simp add: put_rq_def)
    have re: "r\<lparr>rq_state := set_bit KV_async_inFlight_rq (unset_bit KV_async_waiting_submission (rq_state r)),
        rq_lock := False, rq_req := Some 0, rq_in_flight_rq := cpu\<rparr> = ?r"
      using wf(1) by (intro kv_async_request.equality) simp_all
    show ?thesis using False r(1) b wf(1,2) si[folded re] unfolding submit_rq_def
      by (auto simp: kv_prims is_invalid_def Let_def sched_inv_def count_in_flight_def)
  qed
qed

section \<open>Completion\<close>

text \<open>A request on the device leaves the request table, if it is still there.\<close>

lemma delete_step:
  assumes "sched_inv s" "rqs (ks s) a = Some r" "in_flight r"
  shows "\<exists>ret k. kv_hash_delete KV_RQ_HASH a (ks s) = Inr (ret, k) \<and> kv_inv k
    \<and> rqs k = (rqs (ks s))(a \<mapsto> r\<lparr>rq_node := None\<rparr>) \<and> hash_lock k = hash_lock (ks s) \<and> ra_lock k = ra_lock (ks s)"
proof -
  note I = sched_invD[OF assms(1)]
  note wf = rq_wfD[OF I(5)[OF assms(2)]]
  have c: "\<not> is_completed r" using wf(7) assms(3) by blast
  have n: "rq_node r = None \<or> rq_node r = Some (KV_RQ_HASH, rq_hash_key r)"
  proof (cases "rq_node r")
    case (Some hn)
    obtain h n where hn: "hn = (h, n)" by (cases hn)
    have "h = KV_RQ_HASH" using wf(5) c Some hn by (cases h) auto
    then show ?thesis using kv_invD(4)[OF I(1) assms(2), of h n] Some hn by simp
  qed simp
  note e = delete_eq[OF assms(2) refl wf(3) I(2) n]
  show ?thesis
  proof (cases "rq_node r = None")
    case True
    then have "(rqs (ks s))(a \<mapsto> r\<lparr>rq_node := None\<rparr>) = rqs (ks s)"
      using assms(2) by (simp add: fun_upd_idem_iff)
    then show ?thesis using e True I(1) by auto
  next
    case False
    then show ?thesis using e n inv_unlink[OF I(1) assms(2) _ refl, of KV_RQ_HASH "rq_hash_key r"] wf(2)
      by (auto simp: add_nr_rq_def unlink_rq_def)
  qed
qed

text \<open>What the completion path relies on between its steps, the completing request apart.\<close>

definition calm :: "kv_state \<Rightarrow> bool" where
  "calm k \<longleftrightarrow> kv_inv k \<and> (\<forall>h n. \<not> hash_lock k h n) \<and> \<not> ra_lock k"

lemma calm_put:
  assumes "calm k" "rqs k a = Some r" "rq_node r' = rq_node r" "rq_key r' = rq_key r" "rq_hash_key r' = rq_hash_key r"
    "1 \<le> rq_refcount r'"
  shows "calm (put_rq a r' k)"
  using assms inv_put(1)[OF _ assms(2-6)] unfolding calm_def by (simp add: put_rq_def)

lemma save_step:
  assumes "calm k" "rqs k a = Some r" "rq_node r = None" "rq_hash_key r < KV_HASH_SIZE" "1 \<le> rq_refcount r"
  shows "\<exists>k' r'. save_readahead a k = Inr k' \<and> calm k' \<and> rqs k' = (rqs k)(a \<mapsto> r')
    \<and> (r' = r \<or> r' = r\<lparr>rq_node := Some (KV_RA_HASH, rq_hash_key r), rq_state := set_bit KV_async_in_readahead (rq_state r)\<rparr>)"
proof -
  have C: "kv_inv k" "\<not> hash_lock k h n" "\<not> ra_lock k" for h n using assms(1) by (simp_all add: calm_def)
  let ?n = "rq_hash_key r"
  note e = insert_readahead_eq[OF C(1) assms(2) refl assms(4) C(2,3), of KV_RA_HASH]
  show ?thesis
  proof (cases "kv_find KV_RA_HASH ?n (rq_key r) k")
    case None
    let ?k = "(add_nr_rq 1 KV_RA_HASH (link_rq a KV_RA_HASH ?n r k))\<lparr>ra_list := a # ra_list k\<rparr>"
    let ?r = "r\<lparr>rq_node := Some (KV_RA_HASH, ?n), rq_state := set_bit KV_async_in_readahead (rq_state r)\<rparr>"
    have "calm ?k" using inv_link[OF C(1) assms(2,3) refl assms(4,5) None] C
      unfolding calm_def by simp (simp add: add_nr_rq_def link_rq_def)
    moreover have "rqs ?k a = Some (r\<lparr>rq_node := Some (KV_RA_HASH, ?n)\<rparr>)" by (simp add: add_nr_rq_def link_rq_def)
    ultimately have c: "calm (put_rq a ?r ?k)" by (rule calm_put) (use assms(5) in simp_all)
    have s: "save_readahead a k = Inr (put_rq a ?r ?k)"
      using e None by (simp add: save_readahead_def) (simp add: kv_prims link_rq_def)
    have "rqs (put_rq a ?r ?k) = (rqs k)(a \<mapsto> ?r)" by (simp add: put_rq_def add_nr_rq_def link_rq_def)
    then show ?thesis using c s by blast
  next
    case (Some ra)
    then obtain rr where rr: "rqs k ra = Some rr" using kv_find_Some[OF C(1)] by blast
    have "1 \<le> rq_refcount rr" using kv_invD(5)[OF C(1) rr] .
    then have "save_readahead a k = Inr k"
      using e Some rr by (simp add: save_readahead_def Let_def kv_prims) (intro kv_state.equality; auto simp: fun_eq_iff)
    moreover have "rqs k = (rqs k)(a \<mapsto> r)" using assms(2) by (simp add: fun_eq_iff)
    ultimately show ?thesis using assms(1) by blast
  qed
qed

lemma release_step:
  assumes "calm (ks s)" "rqs (ks s) a = Some r" "rq_hash_key r < KV_HASH_SIZE" "1 \<le> rq_refcount r" "p \<noteq> a"
    and p: "rqs (ks s) p = Some pr" "rq_node pr = Some (KV_RQ_HASH, rq_hash_key r)" "rq_key pr = rq_key r"
      "rq_blocking_rq pr = Some b" "\<not> rq_lock pr" "rq_refcount pr = 1"
  shows "\<exists>s'. release_pending a s = Inr s' \<and> calm (ks s')
    \<and> rqs (ks s') = (rqs (ks s))(a \<mapsto> r\<lparr>rq_state := unset_bit KV_async_blocking_rq (rq_state r)\<rparr>, p \<mapsto> pr\<lparr>rq_blocking_rq := None\<rparr>)
    \<and> memq_rq s' = memq_rq s
    \<and> memq_nr_pending s' = (memq_nr_pending s)(rq_memq pr := memq_nr_pending s (rq_memq pr) - 1)"
proof -
  let ?r = "r\<lparr>rq_state := unset_bit KV_async_blocking_rq (rq_state r)\<rparr>"
  let ?k = "put_rq a ?r (ks s)" and ?n = "rq_hash_key r"
  have c: "calm ?k" by (rule calm_put[OF assms(1,2)]) (use assms(4) in simp_all)
  then have C: "kv_inv ?k" "\<not> hash_lock ?k h n" for h n by (simp_all add: calm_def)
  have kp: "rqs ?k p = Some pr" using p(1) assms(5) by (simp add: put_rq_def)
  have f: "kv_find KV_RQ_HASH ?n (rq_key r) ?k = Some p" using kv_find_Some[OF C(1)] kp p(2,3) by blast
  then have "found_unlocked KV_RQ_HASH ?n (rq_key r) ?k" using kp p(5) by (simp add: found_unlocked_def)
  then have e: "kv_hash_find_and_lock_pending_rq KV_RQ_HASH (rq_key r) ?n ?k =
      Inr (Some p, put_rq p (pr\<lparr>rq_refcount := 2, rq_lock := True\<rparr>) ?k)"
    using pending_eq[OF C(1) assms(3) C(2)] f kp p(6) by simp
  let ?k' = "put_rq p (pr\<lparr>rq_blocking_rq := None\<rparr>) ?k"
  have d: "drop_rq p (put_rq p (pr\<lparr>rq_refcount := 2, rq_lock := True, rq_blocking_rq := None\<rparr>) ?k) = Inr ?k'"
    using p(5,6) by (simp add: kv_prims) (intro kv_state.equality; auto simp: fun_eq_iff intro!: kv_async_request.equality)
  let ?s = "s\<lparr>ks := ?k', memq_nr_pending := (memq_nr_pending s)(rq_memq pr := memq_nr_pending s (rq_memq pr) - 1)\<rparr>"
  have m: "clear_rq_bit KV_async_blocking_rq a (ks s) = Inr ?k" "rq_of a ?k = Inr ?r"
    using assms(2) by (simp_all add: kv_prims)
  have "release_pending a s = Inr ?s"
    using e d p(4) by (simp add: release_pending_def m) (simp add: rq_of_def modify_rq_def put_rq_def)
  moreover have "calm ?k'" by (rule calm_put[OF c kp]) (use p(6) in simp_all)
  ultimately show ?thesis by (intro exI[of _ ?s]) (simp add: put_rq_def)
qed

text \<open>The last step: the request stays in the read-ahead table or is freed.\<close>

lemma finish_step:
  assumes "calm k" "rqs k = R(a \<mapsto> r)" "rq_lock r" "rq_refcount r = 1" "rq_blocking_rq r = None"
    and I: "rq_inv (R(a \<mapsto> r0)) Q P" "in_flight r0" "\<not> is_blocking r0" "rq_hash_key r = rq_hash_key r0"
    and n: "\<not> in_readahead r \<and> rq_node r = None \<or>
        in_readahead r \<and> rq_node r = Some (KV_RA_HASH, rq_hash_key r) \<and> is_completed r \<and> \<not> in_flight r \<and> \<not> is_blocking r"
  shows "\<exists>k'. bind_run (modify_rq a (\<lambda>r. r\<lparr>rq_req := None\<rparr>) k)
      (\<lambda>k. if in_readahead r then spin_unlock_rq a k else drop_rq a k) = Inr k' \<and> calm k' \<and> rq_inv (rqs k') Q P
    \<and> (\<forall>q. q \<noteq> a \<longrightarrow> rqs k' q = R q) \<and> (\<not> in_readahead r \<longrightarrow> rqs k' a = None)
    \<and> (\<forall>r'. rqs k' a = Some r' \<longrightarrow> \<not> in_flight r')"
  using n
proof (elim disjE conjE)
  assume f: "\<not> in_readahead r" "rq_node r = None"
  let ?k = "put_rq a (r\<lparr>rq_req := None\<rparr>) k"
  have ka: "rqs k a = Some r" using assms(2) by simp
  have "calm ?k" by (rule calm_put[OF assms(1) ka]) (use assms(4) in simp_all)
  then have "calm (?k\<lparr>rqs := (rqs ?k)(a := None)\<rparr>)"
    using inv_free(1)[of ?k a "r\<lparr>rq_req := None\<rparr>"] f(2) unfolding calm_def by (simp add: put_rq_def)
  moreover have "rqs (?k\<lparr>rqs := (rqs ?k)(a := None)\<rparr>) = (R(a \<mapsto> r0))(a := None)" using assms(2) by (simp add: put_rq_def)
  moreover have "rq_inv ((R(a \<mapsto> r0))(a := None)) Q P"
    using remove_rq[OF I(1), of a r0] not_queued[OF I(1), of a r0] rq_wfD(8)[OF rq_invD(1)[OF I(1), of a r0]] I(2,3) by simp
  moreover have "bind_run (modify_rq a (\<lambda>r. r\<lparr>rq_req := None\<rparr>) k) (drop_rq a) = Inr (?k\<lparr>rqs := (rqs ?k)(a := None)\<rparr>)"
    using ka assms(3,4) by (simp add: kv_prims)
  ultimately show ?thesis using f(1) by auto
next
  assume f: "in_readahead r" "rq_node r = Some (KV_RA_HASH, rq_hash_key r)" "is_completed r" "\<not> in_flight r" "\<not> is_blocking r"
  let ?r = "r\<lparr>rq_req := None, rq_lock := False\<rparr>"
  have ka: "rqs k a = Some r" using assms(2) by simp
  have "calm (put_rq a ?r k)" by (rule calm_put[OF assms(1) ka]) (use assms(4) in simp_all)
  moreover have "rq_inv ((R(a \<mapsto> r0))(a \<mapsto> ?r)) Q P"
    using f assms(4,5) I(2-4) by (intro saved_rq[OF I(1), of a r0]) (simp_all add: state_bits)
  moreover have "rqs (put_rq a ?r k) = (R(a \<mapsto> r0))(a \<mapsto> ?r)" using assms(2) by (simp add: put_rq_def)
  moreover have "bind_run (modify_rq a (\<lambda>r. r\<lparr>rq_req := None\<rparr>) k) (spin_unlock_rq a) = Inr (put_rq a ?r k)"
    using ka assms(3) by (simp add: kv_prims)
  moreover have "\<not> in_flight ?r" using f(4) by (simp add: in_flight_def)
  ultimately show ?thesis using f(1) by auto
qed

text \<open>The request that waits for the completing one, unique by its key.\<close>

lemma waiter:
  assumes "sched_inv s" "rqs (ks s) a = Some r" "is_blocking r"
  obtains p pr where "rqs (ks s) p = Some pr" "rq_blocking_rq pr = Some a" "p \<noteq> a"
    "rq_node pr = Some (KV_RQ_HASH, rq_hash_key r)" "rq_key pr = rq_key r" "\<not> rq_lock pr" "rq_refcount pr = 1"
    "\<And>q qr. rqs (ks s) q = Some qr \<Longrightarrow> rq_blocking_rq qr = Some a \<Longrightarrow> q = p"
proof -
  note I = sched_invD[OF assms(1)]
  note wf = rq_wfD[OF I(5)[OF assms(2)]]
  obtain p pr where p: "rqs (ks s) p = Some pr" "rq_blocking_rq pr = Some a" using wf(9)[OF assms(3)] by blast
  have w: "rq_node qr = Some (KV_RQ_HASH, rq_hash_key r) \<and> rq_key qr = rq_key r"
    if q: "rqs (ks s) q = Some qr" "rq_blocking_rq qr = Some a" for q qr
    using rq_wfD(10)[OF I(5)[OF q(1)] q(2)] assms(2) by auto
  have u: "q = p" if q: "rqs (ks s) q = Some qr" "rq_blocking_rq qr = Some a" for q qr
    using kv_invD(6)[OF I(1) q(1) p(1)] w[OF q] w[OF p] by simp
  have "rq_blocking_rq r = None" using wf(8,9) assms(3) by blast
  then have "p \<noteq> a" using p assms(2) by auto
  then show ?thesis using that[OF p] w[OF p] rq_wfD(1,2)[OF I(5)[OF p(1)]] u by blast
qed

lemma unblock_bits:
  fixes r :: kv_async_request
  defines "r' \<equiv> r\<lparr>rq_state := unset_bit KV_async_blocking_rq (rq_state r)\<rparr>"
  shows "\<not> is_blocking r'" "in_flight r' = in_flight r" "is_completed r' = is_completed r"
    "is_invalid r' = is_invalid r" "in_readahead r' = in_readahead r"
  by (simp_all add: r'_def state_bits bit_unset_bit_iff rq_bits)

definition unblock :: "nat \<Rightarrow> kv_async_request \<Rightarrow> kv_async_request" where
  "unblock a r = (if rq_blocking_rq r = Some a then r\<lparr>rq_blocking_rq := None\<rparr> else r)"

text \<open>Releasing the waiting request, if there is one.\<close>

lemma release_all:
  assumes "sched_inv s" "rqs (ks s) a = Some r" "in_flight r"
    and k: "calm (ks sx)" "rqs (ks sx) = (rqs (ks s))(a \<mapsto> r5)" "memq_rq sx = memq_rq s" "memq_nr_pending sx = memq_nr_pending s"
    and r5: "rq_key r5 = rq_key r" "rq_hash_key r5 = rq_hash_key r" "rq_refcount r5 = 1" "is_blocking r5 = is_blocking r"
  shows "\<exists>s6 R' r6 r0. (if is_blocking r5 then release_pending a sx else Inr sx) = Inr s6 \<and> calm (ks s6)
    \<and> rqs (ks s6) = R'(a \<mapsto> r6) \<and> (r6 = r5 \<or> r6 = r5\<lparr>rq_state := unset_bit KV_async_blocking_rq (rq_state r5)\<rparr>)
    \<and> \<not> is_blocking r6 \<and> in_flight r0 \<and> \<not> is_blocking r0 \<and> rq_hash_key r0 = rq_hash_key r
    \<and> rq_inv (R'(a \<mapsto> r0)) (memq_rq s6) (memq_nr_pending s6) \<and> memq_rq s6 = memq_rq s
    \<and> (\<forall>q. q \<noteq> a \<longrightarrow> R' q = map_option (unblock a) (rqs (ks s) q))"
proof (cases "is_blocking r")
  case False
  have nw: "rq_blocking_rq qr \<noteq> Some a" if "rqs (ks s) q = Some qr" for q qr
    using rq_wfD(10)[OF sched_invD(5)[OF assms(1) that], of a] assms(2) False by auto
  have "(rqs (ks s))(a \<mapsto> r) = rqs (ks s)" using assms(2) by (simp add: fun_upd_idem_iff)
  moreover have "rqs (ks s) q = map_option (unblock a) (rqs (ks s) q)" for q
    using nw by (cases "rqs (ks s) q") (auto simp: unblock_def)
  ultimately show ?thesis using False r5(4) k sched_invD(4)[OF assms(1)] assms(3)
    by (intro exI[of _ sx] exI[of _ "rqs (ks s)"] exI[of _ r5] exI[of _ r]) auto
next
  case True
  note I = sched_invD[OF assms(1)]
  note wf = rq_wfD[OF I(5)[OF assms(2)]]
  obtain p pr where p: "rqs (ks s) p = Some pr" "rq_blocking_rq pr = Some a" "p \<noteq> a"
    "rq_node pr = Some (KV_RQ_HASH, rq_hash_key r)" "rq_key pr = rq_key r" "\<not> rq_lock pr" "rq_refcount pr = 1"
    and u: "\<And>q qr. rqs (ks s) q = Some qr \<Longrightarrow> rq_blocking_rq qr = Some a \<Longrightarrow> q = p"
    using waiter[OF assms(1,2) True] by blast
  let ?r6 = "r5\<lparr>rq_state := unset_bit KV_async_blocking_rq (rq_state r5)\<rparr>"
  let ?r0 = "r\<lparr>rq_state := unset_bit KV_async_blocking_rq (rq_state r)\<rparr>"
  let ?R = "(rqs (ks s))(p \<mapsto> pr\<lparr>rq_blocking_rq := None\<rparr>)"
  obtain s6 where s6: "release_pending a sx = Inr s6" "calm (ks s6)"
    "rqs (ks s6) = (rqs (ks sx))(a \<mapsto> ?r6, p \<mapsto> pr\<lparr>rq_blocking_rq := None\<rparr>)" "memq_rq s6 = memq_rq sx"
    "memq_nr_pending s6 = (memq_nr_pending sx)(rq_memq pr := memq_nr_pending sx (rq_memq pr) - 1)"
    using release_step[OF k(1), of a r5 p pr a] k(2) p r5 wf(3) by auto
  have "rq_inv ((rqs (ks s))(a \<mapsto> ?r0, p \<mapsto> pr\<lparr>rq_blocking_rq := None\<rparr>)) (memq_rq s)
      ((memq_nr_pending s)(rq_memq pr := memq_nr_pending s (rq_memq pr) - 1))"
    using release_rq[OF I(4) kv_invD(1)[OF I(1)] assms(2,3) p(1,2) u refl unblock_bits(1)] unblock_bits[of r] assms(3) by simp
  moreover have "(rqs (ks s))(a \<mapsto> x, p \<mapsto> y) = ?R(p \<mapsto> y, a \<mapsto> x)" for x y using p(3) by (auto simp: fun_eq_iff)
  ultimately have "rq_inv (?R(a \<mapsto> ?r0)) (memq_rq s6) (memq_nr_pending s6)" using s6(4,5) k(3,4) by simp
  moreover have "rqs (ks s6) = ?R(a \<mapsto> ?r6)" using s6(3) k(2) p(3) by (auto simp: fun_eq_iff)
  moreover have "?R q = map_option (unblock a) (rqs (ks s) q)" for q
  proof (cases "q = p")
    case True
    then show ?thesis using p(1,2) by (simp add: unblock_def)
  next
    case False
    then have "rq_blocking_rq qr \<noteq> Some a" if "rqs (ks s) q = Some qr" for qr using u[OF that] by blast
    then show ?thesis using False by (cases "rqs (ks s) q") (auto simp: unblock_def)
  qed
  ultimately show ?thesis
    using s6(1,2,4) k(3) True r5(4) unblock_bits(1,2)[of r] unblock_bits(1)[of r5] assms(3)
    by (intro exI[of _ s6] exI[of _ ?R] exI[of _ ?r6] exI[of _ ?r0]) simp
qed

text \<open>The request after the device is done with it, and the same in the read-ahead table.\<close>

definition done_rq :: "int \<Rightarrow> kv_async_request \<Rightarrow> kv_async_request" where
  "done_rq e r = r\<lparr>rq_node := None, rq_lock := True, rq_state := set_bit KV_async_completed (rq_state r), rq_errors := e,
     rq_result := (if is_kv_retrieve_cmd (rq_opcode r) then rq_cqe_result r else rq_data_length r)\<rparr>"

definition saved_done :: "kv_async_request \<Rightarrow> kv_async_request" where
  "saved_done r = r\<lparr>rq_node := Some (KV_RA_HASH, rq_hash_key r), rq_state := set_bit KV_async_in_readahead (rq_state r)\<rparr>"

definition landed :: "kv_async_request \<Rightarrow> kv_async_request" where
  "landed r = r\<lparr>rq_state := unset_bit KV_async_flush_wakeup (unset_bit KV_async_inFlight_rq (rq_state r))\<rparr>"

lemma done_fields [simp]:
  "rq_key (done_rq e r) = rq_key r" "rq_hash_key (done_rq e r) = rq_hash_key r" "rq_refcount (done_rq e r) = rq_refcount r"
  "rq_blocking_rq (done_rq e r) = rq_blocking_rq r" "rq_node (done_rq e r) = None" "rq_lock (done_rq e r)"
  "rq_opcode (done_rq e r) = rq_opcode r"
  "rq_key (saved_done r) = rq_key r" "rq_hash_key (saved_done r) = rq_hash_key r" "rq_refcount (saved_done r) = rq_refcount r"
  "rq_blocking_rq (saved_done r) = rq_blocking_rq r" "rq_node (saved_done r) = Some (KV_RA_HASH, rq_hash_key r)"
  "rq_lock (saved_done r) = rq_lock r"
  "rq_key (landed r) = rq_key r" "rq_hash_key (landed r) = rq_hash_key r" "rq_refcount (landed r) = rq_refcount r"
  "rq_blocking_rq (landed r) = rq_blocking_rq r" "rq_node (landed r) = rq_node r" "rq_lock (landed r) = rq_lock r"
  by (simp_all add: done_rq_def saved_done_def landed_def)

lemma done_bits:
  "is_blocking (landed (done_rq e r)) = is_blocking r" "is_blocking (landed (saved_done (done_rq e r))) = is_blocking r"
  "in_readahead (landed (done_rq e r)) = in_readahead r" "in_readahead (landed (saved_done (done_rq e r)))"
  "is_completed (landed (saved_done (done_rq e r)))" "\<not> in_flight (landed (saved_done (done_rq e r)))"
  by (simp_all add: done_rq_def saved_done_def landed_def state_bits bit_set_bit_iff bit_unset_bit_iff rq_bits)

text \<open>From the device to the point where waiters are woken up.\<close>

lemma land_step:
  assumes "calm k" "rqs k = R(a \<mapsto> r\<lparr>rq_node := None\<rparr>)" "\<not> rq_lock r" "rq_refcount r = 1" "rq_hash_key r < KV_HASH_SIZE"
  shows "\<exists>k' r'. bind_run (spin_lock_rq a k) (\<lambda>k.
     bind_run (set_rq_bit KV_async_completed a k) (\<lambda>k.
     bind_run (modify_rq a (\<lambda>r. r\<lparr>rq_errors := e,
         rq_result := (if is_kv_retrieve_cmd (rq_opcode r) then rq_cqe_result r else rq_data_length r)\<rparr>) k) (\<lambda>k.
     bind_run (if is_kv_retrieve_cmd (rq_opcode r) then save_readahead a k else Inr k) (\<lambda>k.
     bind_run (clear_rq_bit KV_async_inFlight_rq a k) (clear_rq_bit KV_async_flush_wakeup a))))) = Inr k'
     \<and> calm k' \<and> rqs k' = R(a \<mapsto> landed r') \<and> r' \<in> {done_rq e r, saved_done (done_rq e r)}
     \<and> (is_kv_retrieve_cmd (rq_opcode r) \<or> r' = done_rq e r)"
proof -
  let ?k = "put_rq a (done_rq e r) k"
  have ka: "rqs k a = Some (r\<lparr>rq_node := None\<rparr>)" using assms(2) by simp
  have pre: "bind_run (spin_lock_rq a k) (\<lambda>k.
     bind_run (set_rq_bit KV_async_completed a k) (\<lambda>k.
     bind_run (modify_rq a (\<lambda>r. r\<lparr>rq_errors := e,
         rq_result := (if is_kv_retrieve_cmd (rq_opcode r) then rq_cqe_result r else rq_data_length r)\<rparr>) k) G)) = G ?k"
    for G :: "kv_state \<Rightarrow> kv_state run"
  proof -
    have "done_rq e r = r\<lparr>rq_node := None, rq_lock := True, rq_state := set_bit KV_async_completed (rq_state r),
        rq_errors := e, rq_result := (if is_kv_retrieve_cmd (rq_opcode r) then rq_cqe_result r else rq_data_length r)\<rparr>"
      by (simp add: done_rq_def)
    then show ?thesis using ka assms(3) by (simp add: kv_prims)
  qed
  have c: "calm ?k" by (rule calm_put[OF assms(1) ka]) (use assms(4) in simp_all)
  have kd: "rqs ?k a = Some (done_rq e r)" by (simp add: put_rq_def)
  obtain k3 r3 where s: "(if is_kv_retrieve_cmd (rq_opcode r) then save_readahead a ?k else Inr ?k) = Inr k3" "calm k3"
    "rqs k3 = (rqs ?k)(a \<mapsto> r3)" "r3 \<in> {done_rq e r, saved_done (done_rq e r)}"
    "is_kv_retrieve_cmd (rq_opcode r) \<or> r3 = done_rq e r"
  proof (cases "is_kv_retrieve_cmd (rq_opcode r)")
    case True
    then show ?thesis using save_step[OF c kd] assms(4,5) that by (auto simp: saved_done_def)
  next
    case False
    then show ?thesis using c kd by (intro that[of ?k "done_rq e r"]) (auto simp: fun_eq_iff)
  qed
  let ?k' = "put_rq a (landed r3) k3"
  have k3a: "rqs k3 a = Some r3" using s(3) by simp
  have "calm ?k'" by (rule calm_put[OF s(2) k3a]) (use s(4) assms(4) in auto)
  moreover have "bind_run (clear_rq_bit KV_async_inFlight_rq a k3) (clear_rq_bit KV_async_flush_wakeup a) = Inr ?k'"
    using k3a by (simp add: kv_prims landed_def)
  moreover have "rqs ?k' = R(a \<mapsto> landed r3)" using s(3) assms(2) by (simp add: put_rq_def)
  ultimately show ?thesis unfolding pre using s(1,4,5) by auto
qed

text \<open>
  The daemon completes any request on the device; whoever waited for it may be
  submitted, and no other request changes.
\<close>

lemma complete_safe:
  assumes "sched_inv s" "rqs (ks s) a = Some r" "in_flight r"
  shows "\<exists>s'. complete_rq a s = Inr s' \<and> sched_inv s'
    \<and> (\<forall>q. q \<noteq> a \<longrightarrow> rqs (ks s') q = map_option (unblock a) (rqs (ks s) q))
    \<and> (\<not> is_kv_retrieve_cmd (rq_opcode r) \<longrightarrow> rqs (ks s') a = None)
    \<and> (\<forall>r'. rqs (ks s') a = Some r' \<longrightarrow> \<not> in_flight r')"
proof -
  note I = sched_invD[OF assms(1)]
  note wf = rq_wfD[OF I(5)[OF assms(2)]]
  obtain e where e: "rq_req r = Some e" using wf(8)[OF assms(3)] by blast
  have nr: "\<not> in_readahead r" "rq_blocking_rq r = None" using wf(6,7,8) assms(3) by blast+
  obtain ret k1 where k1: "kv_hash_delete KV_RQ_HASH a (ks s) = Inr (ret, k1)" "calm k1"
    "rqs k1 = (rqs (ks s))(a \<mapsto> r\<lparr>rq_node := None\<rparr>)"
    using delete_step[OF assms] I(2,3) by (auto simp: calm_def)
  obtain k5 r5 where k5: "calm k5" "rqs k5 = (rqs (ks s))(a \<mapsto> landed r5)" "r5 \<in> {done_rq e r, saved_done (done_rq e r)}"
    "is_kv_retrieve_cmd (rq_opcode r) \<or> r5 = done_rq e r"
    and st: "bind_run (spin_lock_rq a k1) (\<lambda>k.
     bind_run (set_rq_bit KV_async_completed a k) (\<lambda>k.
     bind_run (modify_rq a (\<lambda>r. r\<lparr>rq_errors := e,
         rq_result := (if is_kv_retrieve_cmd (rq_opcode r) then rq_cqe_result r else rq_data_length r)\<rparr>) k) (\<lambda>k.
     bind_run (if is_kv_retrieve_cmd (rq_opcode r) then save_readahead a k else Inr k) (\<lambda>k.
     bind_run (clear_rq_bit KV_async_inFlight_rq a k) (clear_rq_bit KV_async_flush_wakeup a))))) = Inr k5"
    using land_step[OF k1(2,3) wf(1,2,3), of e] by blast
  let ?sx = "\<lambda>s0. s0\<lparr>ks := k5\<rparr>"
  define s0 where "s0 = open_queue k1 (uncount_in_flight r s)"
  have f0: "memq_rq (?sx s0) = memq_rq s" "memq_nr_pending (?sx s0) = memq_nr_pending s" by (simp_all add: s0_def open_queue_def uncount_in_flight_def)
  have b5: "is_blocking (landed r5) = is_blocking r" "rq_key (landed r5) = rq_key r" "rq_hash_key (landed r5) = rq_hash_key r"
    "rq_refcount (landed r5) = 1" "rq_lock (landed r5)" "rq_blocking_rq (landed r5) = None"
    "\<not> in_readahead (landed r5) \<and> rq_node (landed r5) = None \<or> in_readahead (landed r5)
      \<and> rq_node (landed r5) = Some (KV_RA_HASH, rq_hash_key r) \<and> is_completed (landed r5) \<and> \<not> in_flight (landed r5)"
    using k5(3) nr wf(2) by (auto simp: done_bits)
  obtain s6 R' r6 r0 where s6: "(if is_blocking (landed r5) then release_pending a (?sx s0) else Inr (?sx s0)) = Inr s6" "calm (ks s6)"
    "rqs (ks s6) = R'(a \<mapsto> r6)"
    and r6: "r6 = landed r5 \<or> r6 = (landed r5)\<lparr>rq_state := unset_bit KV_async_blocking_rq (rq_state (landed r5))\<rparr>" "\<not> is_blocking r6"
    and r0: "in_flight r0" "\<not> is_blocking r0" "rq_hash_key r0 = rq_hash_key r"
    and q: "rq_inv (R'(a \<mapsto> r0)) (memq_rq s6) (memq_nr_pending s6)"
    "\<forall>q. q \<noteq> a \<longrightarrow> R' q = map_option (unblock a) (rqs (ks s) q)"
    using release_all[OF assms, of "?sx s0" "landed r5"] k5(1,2) f0 b5 by auto
  have f6: "in_readahead r6 = in_readahead (landed r5)" "rq_hash_key r6 = rq_hash_key r" "rq_lock r6" "rq_refcount r6 = 1" "rq_blocking_rq r6 = None"
    "\<not> in_readahead r6 \<and> rq_node r6 = None \<or> in_readahead r6 \<and> rq_node r6 = Some (KV_RA_HASH, rq_hash_key r6) \<and> is_completed r6 \<and> \<not> in_flight r6 \<and> \<not> is_blocking r6"
    using r6 b5 unblock_bits[of "landed r5"] by auto
  obtain k7 where k7: "bind_run (modify_rq a (\<lambda>r. r\<lparr>rq_req := None\<rparr>) (ks s6))
      (\<lambda>k. if in_readahead r6 then spin_unlock_rq a k else drop_rq a k) = Inr k7" "calm k7"
    "rq_inv (rqs k7) (memq_rq s6) (memq_nr_pending s6)" "\<forall>q. q \<noteq> a \<longrightarrow> rqs k7 q = R' q"
    "\<not> in_readahead r6 \<longrightarrow> rqs k7 a = None" "\<forall>r'. rqs k7 a = Some r' \<longrightarrow> \<not> in_flight r'"
    using finish_step[OF s6(2,3) f6(3,4,5) q(1) r0(1,2) _ f6(6)] f6(2) r0(3) by auto
  have o: "rq_of a k5 = Inr (landed r5)" "rq_of a (ks s) = Inr r" using k5(2) assms(2) by (simp_all add: rq_of_def)
  obtain ka kb kc kd ke where c: "spin_lock_rq a k1 = Inr ka" "set_rq_bit KV_async_completed a ka = Inr kb"
    "modify_rq a (\<lambda>r. r\<lparr>rq_errors := e,
         rq_result := (if is_kv_retrieve_cmd (rq_opcode r) then rq_cqe_result r else rq_data_length r)\<rparr>) kb = Inr kc"
    "(if is_kv_retrieve_cmd (rq_opcode r) then save_readahead a kc else Inr kc) = Inr kd"
    "clear_rq_bit KV_async_inFlight_rq a kd = Inr ke" "clear_rq_bit KV_async_flush_wakeup a ke = Inr k5"
    using st unfolding bind_run_Inr_iff by (elim exE conjE) (rule that; assumption)
  obtain kf where l: "modify_rq a (\<lambda>r. r\<lparr>rq_req := None\<rparr>) (ks s6) = Inr kf"
    "(if in_readahead (landed r5) then spin_unlock_rq a kf else drop_rq a kf) = Inr k7"
    using k7(1) f6(1) unfolding bind_run_Inr_iff by (elim exE conjE) (rule that; simp)
  have "complete_rq a s = Inr (s6\<lparr>ks := k7, nr_async_complete := nr_async_complete s6 + 1\<rparr>)"
    unfolding complete_rq_def Let_def
    by (simp only: o k1(1) c e of_opt_simps bind_run_simps prod.case s0_def[symmetric]
        is_blocking_def[symmetric] in_readahead_def[symmetric] s6(1) l)
  moreover have "\<not> is_kv_retrieve_cmd (rq_opcode r) \<Longrightarrow> \<not> in_readahead r6" using k5(4) nr(1) f6(1) by (auto simp: done_bits)
  ultimately show ?thesis using k7 q(2) by (simp add: sched_inv_def calm_def)
qed

section \<open>Synchronous commands\<close>

lemma readahead_safe:
  assumes "sched_inv s" "n < KV_HASH_SIZE"
  shows "\<exists>hit k. kv_do_readahead key n opcode (ks s) = Inr (hit, k) \<and> sched_inv (s\<lparr>ks := k\<rparr>)"
proof (cases "kv_find KV_RA_HASH n key (ks s)")
  case None
  then show ?thesis
    using find_and_del_readahead_eq[OF sched_invD(1)[OF assms(1)] assms(2) sched_invD(2,3)[OF assms(1)]] assms(1)
    by (simp add: kv_do_readahead_def)
next
  case (Some ra)
  then obtain r where r: "rqs (ks s) ra = Some r" using kv_find_Some[OF sched_invD(1)[OF assms(1)]] by blast
  obtain k1 k2 where k1: "kv_hash_find_and_del_readahead KV_RA_HASH key n (ks s) = Inr (Some ra, k1)"
    "rqs k1 ra = Some (r\<lparr>rq_node := None\<rparr>)" "bind_run (spin_lock_rq ra k1) (drop_rq ra) = Inr k2" "sched_inv (s\<lparr>ks := k2\<rparr>)"
    using take_readahead[OF assms Some r] by blast
  have "\<not> rq_lock r" using rq_wfD(1)[OF sched_invD(5)[OF assms(1) r]] .
  then show ?thesis using k1 by (simp add: kv_do_readahead_def spin_lock_rq_def rq_of_def put_rq_def)
qed

lemma invalidate_bits:
  fixes r :: kv_async_request
  defines "r' \<equiv> r\<lparr>rq_state := set_bit KV_async_invalid_rq (rq_state r), rq_node := None\<rparr>"
  shows "in_flight r' = in_flight r" "is_completed r' = is_completed r" "is_blocking r' = is_blocking r"
    "in_readahead r' = in_readahead r"
  by (simp_all add: r'_def state_bits bit_set_bit_iff rq_bits)

lemma take_over:
  assumes "sched_inv s" "kv_find KV_RQ_HASH n key (ks s) = Some a" "rqs (ks s) a = Some r"
    "\<not> in_flight r" "rq_blocking_rq r = None"
  shows "\<exists>k. drop_rq a (add_nr_rq (-1) KV_RQ_HASH (unlink_rq a KV_RQ_HASH n (invalidated r) (ks s))) = Inr k
    \<and> sched_inv (s\<lparr>ks := k\<rparr>)"
proof -
  note I = sched_invD[OF assms(1)]
  note wf = rq_wfD[OF I(5)[OF assms(3)]]
  have n: "rq_node r = Some (KV_RQ_HASH, n)" using kv_find_Some[OF I(1)] assms(2,3) by auto
  let ?r = "r\<lparr>rq_state := set_bit KV_async_invalid_rq (rq_state r)\<rparr>"
  let ?k = "add_nr_rq (-1) KV_RQ_HASH (unlink_rq a KV_RQ_HASH n ?r (ks s))"
  have d: "drop_rq a (add_nr_rq (-1) KV_RQ_HASH (unlink_rq a KV_RQ_HASH n (invalidated r) (ks s))) = Inr ?k"
    using wf(1,2) by (simp add: kv_prims unlink_rq_def invalidated_def)
      (intro kv_state.equality; auto simp: fun_eq_iff intro!: kv_async_request.equality)
  have "kv_inv ?k" using inv_unlink[OF I(1) assms(3) n, of ?r] wf(2) by simp
  moreover have "rqs ?k = (rqs (ks s))(a \<mapsto> ?r\<lparr>rq_node := None\<rparr>)" by (simp add: add_nr_rq_def unlink_rq_def)
  moreover have "rq_inv ((rqs (ks s))(a \<mapsto> ?r\<lparr>rq_node := None\<rparr>)) (memq_rq s) (memq_nr_pending s)"
    using invalidate_bits[of r] by (intro invalid_rq[OF I(4) assms(3,5) n assms(4)]) simp_all
  ultimately have "sched_inv (s\<lparr>ks := ?k\<rparr>)"
    using I(2,3) by (simp add: sched_inv_def) (simp add: add_nr_rq_def unlink_rq_def)
  then show ?thesis using d by blast
qed

lemma sync_safe:
  assumes "sched_inv s" "n < KV_HASH_SIZE"
  shows "\<exists>out k. nvme_kv_cmd_lookup al key n opcode (ks s) = Inr (out, k) \<and> out \<noteq> Sync_spins \<and> sched_inv (s\<lparr>ks := k\<rparr>)"
proof -
  obtain hit k1 where k1: "kv_do_readahead key n opcode (ks s) = Inr (hit, k1)" "sched_inv (s\<lparr>ks := k1\<rparr>)"
    using readahead_safe[OF assms] by blast
  note I = sched_invD[OF k1(2), simplified]
  note e = find_and_lock_eq[OF I(1) assms(2) I(2) I(6), of KV_RQ_HASH key]
  show ?thesis
  proof (cases hit)
    case (Some h)
    then show ?thesis using k1 by (cases h) (simp add: nvme_kv_cmd_lookup_def)
  next
    case None
    show ?thesis
    proof (cases "kv_find KV_RQ_HASH n key k1")
      case None
      then show ?thesis using e k1 \<open>hit = None\<close> by (simp add: nvme_kv_cmd_lookup_def)
    next
      case (Some a)
      then obtain r where r: "rqs k1 a = Some r" "rq_node r = Some (KV_RQ_HASH, n)" using kv_find_Some[OF I(1)] by blast
      have nb: "\<not> busy_rq r" using rq_wfD(4)[OF I(5)[OF r(1)] r(2)] .
      show ?thesis
      proof (cases "in_flight r \<or> rq_blocking_rq r \<noteq> None")
        case True
        then show ?thesis using e k1 \<open>hit = None\<close> Some r nb
          by (auto simp: nvme_kv_cmd_lookup_def in_flight_def)
      next
        case False
        let ?k = "add_nr_rq (-1) KV_RQ_HASH (unlink_rq a KV_RQ_HASH n (invalidated r) k1)"
        obtain k2 where "drop_rq a ?k = Inr k2" "sched_inv (s\<lparr>ks := k2\<rparr>)"
          using take_over[OF k1(2), of n key a r] Some r False by auto
        moreover have "rq_of a ?k = Inr ((invalidated r)\<lparr>rq_node := None\<rparr>)"
          by (simp add: rq_of_def add_nr_rq_def unlink_rq_def)
        ultimately show ?thesis using e k1 \<open>hit = None\<close> Some r nb False
          by (simp add: nvme_kv_cmd_lookup_def in_flight_def Let_def)
      qed
    qed
  qed
qed

section \<open>Reachable states\<close>

definition kv_iosched_init :: kv_iosched where
  "kv_iosched_init = \<lparr>ks = kv_hash_init, memq_rq = (\<lambda>_. []), memq_nr_rq = (\<lambda>_. 0), memq_nr_pending = (\<lambda>_. 0),
     iosched_state = 0, in_flight_rq = (\<lambda>_. 0), nr_async_complete = 0\<rparr>"

text \<open>The device writes the status and the completion entry of a request it was given.\<close>

definition device_done :: "nat \<Rightarrow> int \<Rightarrow> u32 \<Rightarrow> kv_iosched \<Rightarrow> kv_iosched" where
  "device_done a e c s = (case rqs (ks s) a of
      None \<Rightarrow> s
    | Some r \<Rightarrow> s\<lparr>ks := put_rq a (r\<lparr>rq_req := Some e, rq_cqe_result := c\<rparr>) (ks s)\<rparr>)"

inductive kv_reach :: "kv_iosched \<Rightarrow> bool" where
  init: "kv_reach kv_iosched_init"
| async: "\<lbrakk>kv_reach s; cmd_env_ok env cmd s; nvme_kv_iosched_cmd env cmd s = Inr (out, s')\<rbrakk> \<Longrightarrow> kv_reach s'"
| sync: "\<lbrakk>kv_reach s; n < KV_HASH_SIZE; nvme_kv_cmd_lookup al key n opcode (ks s) = Inr (o', k)\<rbrakk> \<Longrightarrow> kv_reach (s\<lparr>ks := k\<rparr>)"
| submit: "\<lbrakk>kv_reach s; a \<in> set (memq_rq s m); memq_nr_pending s m = 0; submit_rq True 0 cpu m a s = Inr (ret, s')\<rbrakk>
    \<Longrightarrow> kv_reach s'"
| device: "\<lbrakk>kv_reach s; rqs (ks s) a = Some r; in_flight r\<rbrakk> \<Longrightarrow> kv_reach (device_done a e c s)"
| complete: "\<lbrakk>kv_reach s; rqs (ks s) a = Some r; in_flight r; complete_rq a s = Inr s'\<rbrakk> \<Longrightarrow> kv_reach s'"

lemma sched_inv_init: "sched_inv kv_iosched_init"
  by (simp add: sched_inv_def kv_iosched_init_def kv_hash_init_def kv_inv_def linked_def rq_inv_def pending_def)

lemma device_safe:
  assumes "sched_inv s" "rqs (ks s) a = Some r" "in_flight r"
  shows "sched_inv (device_done a e c s)"
proof -
  note I = sched_invD[OF assms(1)]
  note wf = rq_wfD[OF I(5)[OF assms(2)]]
  let ?r = "r\<lparr>rq_req := Some e, rq_cqe_result := c\<rparr>"
  have "kv_inv (put_rq a ?r (ks s))" using inv_put(1)[OF I(1) assms(2), of ?r] wf(2) by simp
  moreover have "rq_inv (rqs (put_rq a ?r (ks s))) (memq_rq s) (memq_nr_pending s)"
    using same_rq[OF I(4) assms(2), of ?r] wf(8)[OF assms(3)] by (simp add: put_rq_def)
  ultimately show ?thesis using I(2,3) assms(2) unfolding device_done_def sched_inv_def
    by simp (simp add: put_rq_def)
qed

lemma reach_inv: "kv_reach s \<Longrightarrow> sched_inv s"
proof (induction rule: kv_reach.induct)
  case init
  then show ?case by (rule sched_inv_init)
next
  case (async s env cmd out s')
  then show ?case using async_safe[of s env cmd] by auto
next
  case (sync s n al key opcode o' k)
  then show ?case using sync_safe[of s n al key opcode] by auto
next
  case (submit s a m cpu ret s')
  then show ?case using submit_safe[of s a m cpu] by auto
next
  case (device s a r e c)
  then show ?case using device_safe by blast
next
  case (complete s a r s')
  then show ?case using complete_safe[of s a r] by auto
qed

section \<open>Properties\<close>

definition demo_env :: cmd_env where
  "demo_env = \<lparr>copy_ok = True, key_copy = None, get_hash_key = (\<lambda>_. 5), rq_alloc = Some 1, init_status = 0,
     active_memq = (\<lambda>_. 0)\<rparr>"

definition demo_cmd :: nvme_passthru_kv_cmd where
  "demo_cmd = \<lparr>c_opcode = 0x81, c_flags = 0, c_key = [1], c_data_length = 0\<rparr>"

lemma demo_env_ok: "cmd_env_ok demo_env demo_cmd kv_iosched_init"
  by (simp add: cmd_env_ok_def demo_env_def kv_iosched_init_def kv_hash_init_def small_bucket)





text \<open>The requests on the device; completing one leaves the others there.\<close>

definition on_device :: "kv_iosched \<Rightarrow> nat set" where
  "on_device s = {a. \<exists>r. rqs (ks s) a = Some r \<and> in_flight r}"

lemma complete_on_device:
  assumes "kv_reach s" "a \<in> on_device s"
  shows "\<exists>s'. complete_rq a s = Inr s' \<and> kv_reach s' \<and> on_device s' = on_device s - {a}"
proof -
  obtain r where r: "rqs (ks s) a = Some r" "in_flight r" using assms(2) by (auto simp: on_device_def)
  obtain s' where s': "complete_rq a s = Inr s'" "\<forall>q. q \<noteq> a \<longrightarrow> rqs (ks s') q = map_option (unblock a) (rqs (ks s) q)"
    "\<forall>r'. rqs (ks s') a = Some r' \<longrightarrow> \<not> in_flight r'"
    using complete_safe[OF reach_inv[OF assms(1)] r] by blast
  have u: "in_flight (unblock a x) = in_flight x" for x by (simp add: unblock_def in_flight_def)
  have "q \<in> on_device s' \<longleftrightarrow> q \<in> on_device s - {a}" for q
  proof (cases "q = a")
    case True
    then show ?thesis using s'(3) by (auto simp: on_device_def)
  next
    case False
    then show ?thesis using s'(2) u by (auto simp: on_device_def)
  qed
  then show ?thesis using s'(1) kv_reach.complete[OF assms(1) r s'(1)] by blast
qed

lemma complete_list:
  "kv_reach s \<Longrightarrow> distinct as \<Longrightarrow> set as = on_device s \<Longrightarrow>
     \<exists>s'. kv_completion_workfn as s = Inr s' \<and> kv_reach s' \<and> on_device s' = {}"
proof (induction as arbitrary: s)
  case (Cons a as)
  have "a \<in> on_device s" using Cons.prems(3) by auto
  then obtain s1 where s1: "complete_rq a s = Inr s1" "kv_reach s1" "on_device s1 = on_device s - {a}"
    using complete_on_device[OF Cons.prems(1)] by blast
  then have "set as = on_device s1" using Cons.prems(2,3) by auto
  then show ?case using Cons.IH[OF s1(2)] Cons.prems(2) s1(1) by auto
qed auto

lemma nothing_pending:
  assumes "kv_reach s" "on_device s = {}"
  shows "memq_nr_pending s m = 0"
proof -
  note I = sched_invD[OF reach_inv[OF assms(1)]]
  have "rq_blocking_rq r = None" if r: "rqs (ks s) a = Some r" for a r
  proof (rule ccontr)
    assume "rq_blocking_rq r \<noteq> None"
    then obtain b br where "rqs (ks s) b = Some br" "is_blocking br"
      using rq_wfD(10)[OF I(5)[OF r]] by blast
    then show False using rq_wfD(9)[OF I(5)] assms(2) by (auto simp: on_device_def)
  qed
  then have "pending (rqs (ks s)) m = {}" by (auto simp: pending_def)
  then show ?thesis using rq_invD(4)[OF I(4)] by simp
qed


text \<open>A request issued in the initial state and sent to the device.\<close>

definition demo_sent :: kv_iosched where
  "demo_sent = (case nvme_kv_iosched_cmd demo_env demo_cmd kv_iosched_init of
      Inr (_, s) \<Rightarrow> (case submit_rq True 0 0 0 1 s of Inr (_, s) \<Rightarrow> s | Inl _ \<Rightarrow> s) | Inl _ \<Rightarrow> kv_iosched_init)"

lemma demo_issued:
  "nvme_kv_iosched_cmd demo_env demo_cmd kv_iosched_init = Inr (Cmd 0 (Some 0),
     kv_iosched_init\<lparr>ks := add_nr_rq 1 KV_RQ_HASH (link_rq 1 KV_RQ_HASH 5 (init_kv_async_request demo_cmd 5) kv_hash_init),
       memq_rq := (\<lambda>_. [])(0 := [1]), memq_nr_rq := (\<lambda>_. 0)(0 := 1)\<rparr>)"
  using small_bucket
  by (simp add: nvme_kv_iosched_cmd_def demo_env_def demo_cmd_def kv_iosched_init_def kv_hash_init_def Let_def
      is_kv_io_cmd_def is_kv_retrieve_cmd_def nvme_cmd_kv_retrieve_def KVCMD_INLINE_KEY_MAX_def kv_async_request_alloc_def
      init_kv_async_request_def kv_hash_insert_def kv_hash_search_def kv_prims enqueue_rq_def cancel_readahead_def
      kv_hash_find_and_del_readahead_def not_le link_rq_def KVS_SUCCESS_def KV_PENDING_QUEU_HIGH_WATERMARK_def
      KV_PENDING_QUEU_LOW_WATERMARK_def KV_MAX_INFLIGHT_REQUEST_def)
     (auto simp: fun_eq_iff)

definition demo_flying :: kv_async_request where
  "demo_flying = (init_kv_async_request demo_cmd 5)\<lparr>rq_state := 4, rq_lock := False, rq_req := Some 0, rq_node := Some (KV_RQ_HASH, 5)\<rparr>"

lemma demo_submitted:
  "submit_rq True 0 0 0 1 (kv_iosched_init\<lparr>ks := add_nr_rq 1 KV_RQ_HASH (link_rq 1 KV_RQ_HASH 5 (init_kv_async_request demo_cmd 5) kv_hash_init),
       memq_rq := (\<lambda>_. [])(0 := [1]), memq_nr_rq := (\<lambda>_. 0)(0 := 1)\<rparr>) = Inr (0, demo_sent)"
  by (simp add: demo_sent_def demo_issued)
     (simp add: submit_rq_def kv_iosched_init_def kv_hash_init_def kv_prims init_kv_async_request_def link_rq_def Let_def
       KV_MAX_INFLIGHT_REQUEST_def count_in_flight_def)

lemma demo_sent_rqs: "rqs (ks demo_sent) = [1 \<mapsto> demo_flying]"
  by (simp add: demo_sent_def demo_issued)
     (simp add: submit_rq_def kv_iosched_init_def kv_hash_init_def kv_prims init_kv_async_request_def link_rq_def Let_def
       KV_MAX_INFLIGHT_REQUEST_def count_in_flight_def demo_flying_def demo_cmd_def rq_bits KV_async_waiting_submission_def set_bit_eq unset_bit_eq)

lemma demo_sent_reach: "kv_reach demo_sent"
  by (rule kv_reach.submit[OF kv_reach.async[OF kv_reach.init demo_env_ok demo_issued] _ _ demo_submitted])
     (simp_all add: kv_iosched_init_def)

lemma demo_flying_bits: "in_flight demo_flying" "\<not> is_kv_retrieve_cmd (rq_opcode demo_flying)"
  by (simp_all add: in_flight_def demo_flying_def rq_bits bit_iff_odd is_kv_retrieve_cmd_def nvme_cmd_kv_retrieve_def demo_cmd_def)

lemma demo_on_device: "on_device demo_sent = {1}"
  using demo_flying_bits by (auto simp: on_device_def demo_sent_rqs)


text \<open>
  C38: a synchronous command that finds its key on the device waits for the
  state word of a request it holds no reference to. When the daemon completes
  a write or a delete before the waiting thread looks at the word again, the
  word is read in freed memory.
\<close>

theorem sync_wait_reads_freed:
  assumes "kv_reach s" "n < KV_HASH_SIZE" "kv_find KV_RQ_HASH n key (ks s) = Some a" "rqs (ks s) a = Some r" "in_flight r"
    "\<not> is_kv_retrieve_cmd (rq_opcode r)"
  shows "kv_hash_find_and_lock KV_RQ_HASH key n (ks s) = Inr (Wait_inFlight a, ks s)
    \<and> (\<exists>s'. complete_rq a s = Inr s' \<and> kv_reach s' \<and> wait_over (Wait_inFlight a) (ks s') = Inl Use_after_free)"
proof -
  note I = sched_invD[OF reach_inv[OF assms(1)]]
  have n: "rq_node r = Some (KV_RQ_HASH, n)" using kv_find_Some[OF I(1)] assms(3,4) by auto
  have "\<not> busy_rq r" using rq_wfD(4)[OF I(5)[OF assms(4)] n] .
  then have "kv_hash_find_and_lock KV_RQ_HASH key n (ks s) = Inr (Wait_inFlight a, ks s)"
    using find_and_lock_eq[OF I(1) assms(2) I(2) I(6)] assms(3,4,5) by (simp add: in_flight_def)
  moreover obtain s' where "complete_rq a s = Inr s'" "rqs (ks s') a = None"
    using complete_safe[OF reach_inv[OF assms(1)] assms(4,5)] assms(6) by blast
  ultimately show ?thesis using kv_reach.complete[OF assms(1,4,5)] by (auto simp: wait_over_def rq_of_def)
qed

theorem sync_wait_reads_freed_witness:
  "\<exists>s'. complete_rq 1 demo_sent = Inr s' \<and> wait_over (Wait_inFlight 1) (ks s') = Inl Use_after_free"
proof -
  have "kv_find KV_RQ_HASH 5 [1] (ks demo_sent) = Some 1"
    using kv_find_Some[OF sched_invD(1)[OF reach_inv[OF demo_sent_reach]]]
    by (simp add: demo_sent_rqs demo_flying_def demo_cmd_def)
  from sync_wait_reads_freed[OF demo_sent_reach small_bucket this _ demo_flying_bits]
  show ?thesis by (auto simp: demo_sent_rqs)
qed

end
