(* ===== verification/CacheTable.thy ===== *)
theory CacheTable
  imports Slices LinkedList
begin

text \<open>
  \<open>HandleTable\<close> of \<^verbatim>\<open>util/cache.cc\<close>: the hash table of the LRU cache, an array of
  buckets chained through the \<open>next_hash\<close> fields of the handles. A handle is
  an address; its \<open>next\<close> and \<open>prev\<close> fields are kept in a heap of links, its
  other fields in \<open>obj\<close>, where a freed handle has no entry. The loops over
  chains are partial functions: a cyclic chain is a loop that does not end.
\<close>

record entry =
  e_key :: bytes
  e_hash :: u32
  e_value :: nat
  e_deleter :: nat
  e_charge :: u64

record LRUHandle = entry +
  in_cache :: bool
  refs :: u32

record mem =
  links :: heap
  next_hash :: "nat \<Rightarrow> nat"
  obj :: "nat \<Rightarrow> LRUHandle option"

record HandleTable =
  ht_length :: u32
  ht_elems :: u32
  ht_list :: "nat list"

type_synonym tstate = "mem \<times> HandleTable"

definition handle :: "nat \<Rightarrow> mem \<Rightarrow> LRUHandle run" where
  "handle p m = of_opt Use_after_free (obj m p)"

definition handle_key :: "nat \<Rightarrow> mem \<Rightarrow> bytes run" where
  "handle_key p m =
     bind_run (handle p m) (\<lambda>e.
     bind_run (assert_run (next_of (links m) p \<noteq> p)) (\<lambda>_. Inr (e_key e)))"

text \<open>A slot is a place that holds a pointer to a handle: a bucket or a \<open>next_hash\<close> field.\<close>

datatype slot = Bucket nat | Next_hash nat

definition get_slot :: "slot \<Rightarrow> tstate \<Rightarrow> nat run" where
  "get_slot p st =
     (case p of
        Bucket i \<Rightarrow> if i < length (ht_list (snd st)) then Inr (ht_list (snd st) ! i) else Inl Out_of_bounds
      | Next_hash a \<Rightarrow> bind_run (handle a (fst st)) (\<lambda>_. Inr (next_hash (fst st) a)))"

definition set_slot :: "slot \<Rightarrow> nat \<Rightarrow> tstate \<Rightarrow> tstate run" where
  "set_slot p v st =
     (case p of
        Bucket i \<Rightarrow> if i < length (ht_list (snd st))
          then Inr (fst st, (snd st)\<lparr>ht_list := (ht_list (snd st))[i := v]\<rparr>) else Inl Out_of_bounds
      | Next_hash a \<Rightarrow> bind_run (handle a (fst st)) (\<lambda>_.
          Inr ((fst st)\<lparr>next_hash := (next_hash (fst st))(a := v)\<rparr>, snd st)))"

partial_function (option) find_slot :: "bytes \<Rightarrow> u32 \<Rightarrow> slot \<Rightarrow> tstate \<Rightarrow> slot run option" where
  "find_slot key hash ptr st =
     (case get_slot ptr st of Inl f \<Rightarrow> Some (Inl f) | Inr p \<Rightarrow>
        if p = 0 then Some (Inr ptr)
        else case handle p (fst st) of Inl f \<Rightarrow> Some (Inl f) | Inr e \<Rightarrow>
          if e_hash e \<noteq> hash then find_slot key hash (Next_hash p) st
          else case handle_key p (fst st) of Inl f \<Rightarrow> Some (Inl f) | Inr k \<Rightarrow>
            if \<not> Slice_eq key k then find_slot key hash (Next_hash p) st else Some (Inr ptr))"

definition returned :: "'a run option \<Rightarrow> 'a run" where
  "returned r = (case r of None \<Rightarrow> Inl Diverges | Some x \<Rightarrow> x)"

definition FindPointer :: "bytes \<Rightarrow> u32 \<Rightarrow> tstate \<Rightarrow> slot run" where
  "FindPointer key hash st =
     returned (find_slot key hash (Bucket (unat (hash AND (ht_length (snd st) - 1)))) st)"

definition Table_Lookup :: "bytes \<Rightarrow> u32 \<Rightarrow> tstate \<Rightarrow> nat run" where
  "Table_Lookup key hash st = bind_run (FindPointer key hash st) (\<lambda>ptr. get_slot ptr st)"

partial_function (option) new_length :: "u32 \<Rightarrow> u32 \<Rightarrow> u32 option" where
  "new_length elems n = (if n < elems then new_length elems (n * 2) else Some n)"

partial_function (option) move_chain ::
  "u32 \<Rightarrow> nat \<Rightarrow> mem \<times> nat list \<times> u32 \<Rightarrow> (mem \<times> nat list \<times> u32) run option" where
  "move_chain n h st =
     (if h = 0 then Some (Inr st)
      else case st of (m, new_list, cnt) \<Rightarrow>
        case handle h m of Inl f \<Rightarrow> Some (Inl f) | Inr e \<Rightarrow>
          let i = unat (e_hash e AND (n - 1))
          in if i < length new_list
             then move_chain n (next_hash m h)
               (m\<lparr>next_hash := (next_hash m)(h := new_list ! i)\<rparr>, new_list[i := h], cnt + 1)
             else Some (Inl Out_of_bounds))"

fun move_buckets ::
  "u32 \<Rightarrow> HandleTable \<Rightarrow> nat list \<Rightarrow> mem \<times> nat list \<times> u32 \<Rightarrow> (mem \<times> nat list \<times> u32) run" where
  "move_buckets n t [] st = Inr st"
| "move_buckets n t (i # is) st =
     bind_run (get_slot (Bucket i) (fst st, t)) (\<lambda>h.
     bind_run (returned (move_chain n h st)) (\<lambda>st. move_buckets n t is st))"

definition Resize :: "tstate \<Rightarrow> tstate run" where
  "Resize st =
     (let (m, t) = st
      in bind_run (returned (map_option Inr (new_length (ht_elems t) 4))) (\<lambda>n.
         bind_run (move_buckets n t [0..<unat (ht_length t)] (m, replicate (unat n) 0, 0))
           (\<lambda>(m, new_list, cnt).
         bind_run (assert_run (ht_elems t = cnt)) (\<lambda>_.
           Inr (m, t\<lparr>ht_list := new_list, ht_length := n\<rparr>)))))"

definition HandleTable_init :: "mem \<Rightarrow> tstate run" where
  "HandleTable_init m = Resize (m, \<lparr>ht_length = 0, ht_elems = 0, ht_list = []\<rparr>)"

definition Table_Insert :: "nat \<Rightarrow> tstate \<Rightarrow> (nat \<times> tstate) run" where
  "Table_Insert h st =
     bind_run (handle_key h (fst st)) (\<lambda>k.
     bind_run (handle h (fst st)) (\<lambda>e.
     bind_run (FindPointer k (e_hash e) st) (\<lambda>ptr.
     bind_run (get_slot ptr st) (\<lambda>old.
     bind_run (if old = 0 then Inr 0 else get_slot (Next_hash old) st) (\<lambda>n.
     bind_run (set_slot (Next_hash h) n st) (\<lambda>st.
     bind_run (set_slot ptr h st) (\<lambda>(m, t).
       if old = 0 then
         (let t = t\<lparr>ht_elems := ht_elems t + 1\<rparr>
          in bind_run (if ht_elems t > ht_length t then Resize (m, t) else Inr (m, t)) (\<lambda>st. Inr (old, st)))
       else Inr (old, m, t))))))))"

definition Table_Remove :: "bytes \<Rightarrow> u32 \<Rightarrow> tstate \<Rightarrow> (nat \<times> tstate) run" where
  "Table_Remove key hash st =
     bind_run (FindPointer key hash st) (\<lambda>ptr.
     bind_run (get_slot ptr st) (\<lambda>result.
       if result \<noteq> 0 then
         bind_run (get_slot (Next_hash result) st) (\<lambda>n.
         bind_run (set_slot ptr n st) (\<lambda>(m, t).
           Inr (result, m, t\<lparr>ht_elems := ht_elems t - 1\<rparr>)))
       else Inr (result, st)))"

section \<open>Chains\<close>

fun chain :: "(nat \<Rightarrow> nat) \<Rightarrow> nat \<Rightarrow> nat list \<Rightarrow> bool" where
  "chain nh p [] \<longleftrightarrow> p = 0"
| "chain nh p (x # xs) \<longleftrightarrow> p = x \<and> x \<noteq> 0 \<and> chain nh (nh x) xs"

lemma chain_cong: "(\<And>a. a \<in> set xs \<Longrightarrow> nh' a = nh a) \<Longrightarrow> chain nh' p xs = chain nh p xs"
  by (induction xs arbitrary: p) auto

lemma chain_upd [simp]: "a \<notin> set xs \<Longrightarrow> chain (nh(a := v)) p xs = chain nh p xs"
  by (rule chain_cong) auto

lemma chain_append:
  "chain nh p (as @ bs) \<longleftrightarrow> 0 \<notin> set as \<and> (case as of [] \<Rightarrow> chain nh p bs
     | a # _ \<Rightarrow> p = a \<and> (\<forall>i < length as - 1. nh (as ! i) = as ! Suc i) \<and> chain nh (nh (last as)) bs)"
proof (induction as arbitrary: p)
  case (Cons a as)
  then show ?case
    by (cases as) (auto simp: nth_Cons split: nat.splits)
qed simp

text \<open>The slot that holds the rest of a chain after its first part \<open>as\<close>.\<close>

definition slot_after :: "slot \<Rightarrow> nat list \<Rightarrow> slot" where
  "slot_after p as = (if as = [] then p else Next_hash (last as))"

definition kh :: "mem \<Rightarrow> nat \<Rightarrow> (u32 \<times> bytes) option" where
  "kh m a = map_option (\<lambda>e. (e_hash e, e_key e)) (obj m a)"

definition live_handle :: "mem \<Rightarrow> nat \<Rightarrow> bool" where
  "live_handle m a \<longleftrightarrow> obj m a \<noteq> None \<and> next_of (links m) a \<noteq> a"

lemma live_handle_obtain:
  assumes "live_handle m a" obtains e where "obj m a = Some e" "next_of (links m) a \<noteq> a"
  using assms by (auto simp: live_handle_def)

lemma find_slot_chain:
  assumes "get_slot ptr st = Inr p" "chain (next_hash (fst st)) p xs" "\<forall>a \<in> set xs. live_handle (fst st) a"
  shows "\<exists>as bs. xs = as @ bs \<and> (\<forall>a \<in> set as. kh (fst st) a \<noteq> Some (hash, key))
    \<and> (bs = [] \<or> kh (fst st) (hd bs) = Some (hash, key))
    \<and> find_slot key hash ptr st = Some (Inr (slot_after ptr as))
    \<and> get_slot (slot_after ptr as) st = Inr (if bs = [] then 0 else hd bs)"
  using assms
proof (induction xs arbitrary: ptr p)
  case Nil
  then show ?case by (auto simp: slot_after_def find_slot.simps)
next
  case (Cons x xs)
  obtain e where e: "obj (fst st) x = Some e" "next_of (links (fst st)) x \<noteq> x"
    using Cons.prems live_handle_obtain[of "fst st" x] by auto
  have h: "handle x (fst st) = Inr e" "handle_key x (fst st) = Inr (e_key e)"
    using e by (simp_all add: handle_def handle_key_def)
  have px: "p = x" "x \<noteq> 0" "chain (next_hash (fst st)) (next_hash (fst st) x) xs"
    using Cons.prems(2) by auto
  show ?case
  proof (cases "kh (fst st) x = Some (hash, key)")
    case True
    then have "find_slot key hash ptr st = Some (Inr ptr)"
      using Cons.prems(1) px h e by (subst find_slot.simps) (auto simp: kh_def Slice_eq_iff)
    then show ?thesis using True Cons.prems(1) px
      by (intro exI[of _ "[]"] exI[of _ "x # xs"]) (auto simp: slot_after_def)
  next
    case False
    have g: "get_slot (Next_hash x) st = Inr (next_hash (fst st) x)"
      using h by (simp add: get_slot_def)
    have s: "find_slot key hash ptr st = find_slot key hash (Next_hash x) st"
      using False Cons.prems(1) px h e by (subst find_slot.simps) (auto simp: kh_def Slice_eq_iff)
    obtain as bs where ab: "xs = as @ bs" "\<forall>a \<in> set as. kh (fst st) a \<noteq> Some (hash, key)"
      "bs = [] \<or> kh (fst st) (hd bs) = Some (hash, key)"
      "find_slot key hash (Next_hash x) st = Some (Inr (slot_after (Next_hash x) as))"
      "get_slot (slot_after (Next_hash x) as) st = Inr (if bs = [] then 0 else hd bs)"
      using Cons.IH[OF g px(3)] Cons.prems(3) by auto
    then show ?thesis using False s
      by (intro exI[of _ "x # as"] exI[of _ bs]) (auto simp: slot_after_def)
  qed
qed

text \<open>Writing through a slot replaces the rest of the chain.\<close>

lemma chain_update_last:
  assumes "chain nh p (as @ bs)" "as \<noteq> []" "distinct (as @ cs)" "chain nh v cs"
  shows "chain (nh(last as := v)) p (as @ cs)"
proof -
  have "chain (nh(last as := v)) v cs = chain nh v cs"
    using assms by (intro chain_cong) (auto simp: disjoint_iff)
  moreover have "as ! i \<noteq> last as" if "i < length as - 1" for i
    using assms(2,3) that nth_eq_iff_index_eq[of as i "length as - 1"] by (simp add: last_conv_nth)
  ultimately show ?thesis using assms unfolding chain_append by (auto split: list.splits)
qed

section \<open>The table as a set of handles\<close>

definition bucket_of :: "mem \<Rightarrow> HandleTable \<Rightarrow> nat \<Rightarrow> nat" where
  "bucket_of m t a = (case obj m a of None \<Rightarrow> 0 | Some e \<Rightarrow> unat (e_hash e AND (ht_length t - 1)))"

definition table_ok :: "tstate \<Rightarrow> nat list list \<Rightarrow> bool" where
  "table_ok st cs \<longleftrightarrow>
     length (ht_list (snd st)) = length cs \<and> unat (ht_length (snd st)) = length cs
     \<and> (\<exists>k. length cs = 2 ^ k) \<and> distinct (concat cs)
     \<and> unat (ht_elems (snd st)) = length (concat cs)
     \<and> (\<forall>i < length cs. chain (next_hash (fst st)) (ht_list (snd st) ! i) (cs ! i)
          \<and> (\<forall>a \<in> set (cs ! i). live_handle (fst st) a \<and> bucket_of (fst st) (snd st) a = i))
     \<and> inj_on (kh (fst st)) (set (concat cs))"

definition holds_handles :: "tstate \<Rightarrow> nat set \<Rightarrow> bool" where
  "holds_handles st S \<longleftrightarrow> (\<exists>cs. table_ok st cs \<and> S = set (concat cs))"

lemma bucket_of_update [simp]:
  "bucket_of m (t\<lparr>ht_list := l\<rparr>) = bucket_of m t" "bucket_of m (t\<lparr>ht_elems := n\<rparr>) = bucket_of m t"
  "bucket_of (m\<lparr>next_hash := f\<rparr>) t = bucket_of m t"
  "live_handle (m\<lparr>next_hash := f\<rparr>) = live_handle m" "kh (m\<lparr>next_hash := f\<rparr>) = kh m"
  by (auto simp: bucket_of_def live_handle_def kh_def fun_eq_iff split: option.splits)

lemma bucket_of_cong: "ht_length t = ht_length t' \<Longrightarrow> bucket_of m t = bucket_of m t'"
  by (auto simp: bucket_of_def fun_eq_iff split: option.splits)

lemma and_pow2_less:
  fixes h n :: u32
  assumes "unat n = 2 ^ k"
  shows "unat (h AND (n - 1)) < 2 ^ k"
proof -
  have "n \<noteq> 0" using assms by (metis power_eq_0_iff unat_0 zero_neq_numeral)
  then have "unat (n - 1) = 2 ^ k - 1" using assms by (simp add: unat_minus_one)
  moreover have "unat (h AND (n - 1)) \<le> unat (n - 1)"
    by (metis and.commute word_and_le1 word_le_nat_alt)
  moreover have "2 ^ k - 1 < (2 ^ k :: nat)" by simp
  ultimately show ?thesis by linarith
qed

lemma bucket_of_less:
  "table_ok st cs \<Longrightarrow> unat (hash AND (ht_length (snd st) - 1)) < length cs"
  using and_pow2_less by (auto simp: table_ok_def)

lemma in_concat_nth: "a \<in> set (concat cs) \<longleftrightarrow> (\<exists>i < length cs. a \<in> set (cs ! i))"
  by (metis UN_iff in_set_conv_nth set_concat)

text \<open>A handle of the table with the searched hash can only be in the chain of that hash.\<close>

lemma in_own_bucket:
  assumes "table_ok st cs" "a \<in> set (concat cs)" "kh (fst st) a = Some (hash, key)"
  shows "a \<in> set (cs ! unat (hash AND (ht_length (snd st) - 1)))"
proof -
  obtain i where "i < length cs" "a \<in> set (cs ! i)" using assms(2) by (auto simp only: in_concat_nth)
  moreover from this have "bucket_of (fst st) (snd st) a = i" using assms(1) by (auto simp: table_ok_def)
  ultimately show ?thesis using assms(3) by (auto simp: bucket_of_def kh_def split: option.splits)
qed

lemma FindPointer_ok:
  assumes "table_ok st cs" "i = unat (hash AND (ht_length (snd st) - 1))"
  obtains as bs where "cs ! i = as @ bs" "i < length cs"
    "FindPointer key hash st = Inr (slot_after (Bucket i) as)"
    "get_slot (slot_after (Bucket i) as) st = Inr (if bs = [] then 0 else hd bs)"
    "\<forall>a \<in> set as. kh (fst st) a \<noteq> Some (hash, key)"
    "bs = [] \<or> kh (fst st) (hd bs) = Some (hash, key)"
proof -
  have i: "i < length cs" using bucket_of_less[OF assms(1)] assms(2) by simp
  then have "get_slot (Bucket i) st = Inr (ht_list (snd st) ! i)" "chain (next_hash (fst st)) (ht_list (snd st) ! i) (cs ! i)"
    "\<forall>a \<in> set (cs ! i). live_handle (fst st) a"
    using assms(1) by (auto simp: table_ok_def get_slot_def)
  from find_slot_chain[OF this, of hash key] obtain as bs where ab: "cs ! i = as @ bs"
    "\<forall>a \<in> set as. kh (fst st) a \<noteq> Some (hash, key)" "bs = [] \<or> kh (fst st) (hd bs) = Some (hash, key)"
    "find_slot key hash (Bucket i) st = Some (Inr (slot_after (Bucket i) as))"
    "get_slot (slot_after (Bucket i) as) st = Inr (if bs = [] then 0 else hd bs)"
    by blast
  show ?thesis using ab i assms(2) by (intro that[of as bs]) (auto simp: FindPointer_def returned_def)
qed

lemma Table_Lookup_ok:
  assumes "holds_handles st S"
  obtains (none) "Table_Lookup key hash st = Inr 0" "\<forall>b \<in> S. kh (fst st) b \<noteq> Some (hash, key)"
  | (found) a where "Table_Lookup key hash st = Inr a" "a \<in> S" "kh (fst st) a = Some (hash, key)"
proof -
  obtain cs where cs: "table_ok st cs" "S = set (concat cs)" using assms by (auto simp: holds_handles_def)
  define i where "i = unat (hash AND (ht_length (snd st) - 1))"
  obtain as bs where ab: "cs ! i = as @ bs" "i < length cs" "FindPointer key hash st = Inr (slot_after (Bucket i) as)"
    "get_slot (slot_after (Bucket i) as) st = Inr (if bs = [] then 0 else hd bs)"
    "\<forall>a \<in> set as. kh (fst st) a \<noteq> Some (hash, key)"
    "bs = [] \<or> kh (fst st) (hd bs) = Some (hash, key)"
    using FindPointer_ok[OF cs(1) i_def] by metis
  have r: "Table_Lookup key hash st = Inr (if bs = [] then 0 else hd bs)"
    using ab by (simp add: Table_Lookup_def)
  show ?thesis
  proof (cases "bs = []")
    case True
    then show ?thesis using none r ab in_own_bucket[OF cs(1)] cs(2) i_def by force
  next
    case False
    then have "hd bs \<in> set (concat cs)" using ab(1,2) by (auto simp only: in_concat_nth intro!: exI[of _ i]) simp
    then show ?thesis using found r ab False cs by auto
  qed
qed

section \<open>Replacing one chain\<close>

lemma concat_update:
  assumes "i < length cs" "distinct (concat cs)"
  shows "set (concat (cs[i := ys])) = set (concat cs) - set (cs ! i) \<union> set ys"
    and "length (concat (cs[i := ys])) + length (cs ! i) = length (concat cs) + length ys"
    and "distinct ys \<Longrightarrow> set ys \<inter> (set (concat cs) - set (cs ! i)) = {} \<Longrightarrow> distinct (concat (cs[i := ys]))"
proof -
  define us vs where "us = take i cs" and "vs = drop (Suc i) cs"
  have c: "concat cs = concat us @ cs ! i @ concat vs" "concat (cs[i := ys]) = concat us @ ys @ concat vs"
    using assms(1) id_take_nth_drop[of i cs]
    by (simp_all add: us_def vs_def upd_conv_take_nth_drop) (metis concat.simps(2) concat_append)
  have d: "distinct (concat us @ cs ! i @ concat vs)" using assms(2) c(1) by simp
  then have s: "set (concat cs) - set (cs ! i) = set (concat us) \<union> set (concat vs)"
    unfolding c(1) by auto
  show "set (concat (cs[i := ys])) = set (concat cs) - set (cs ! i) \<union> set ys"
    unfolding s c(2) by auto
  show "length (concat (cs[i := ys])) + length (cs ! i) = length (concat cs) + length ys"
    unfolding c by simp
  show "distinct ys \<Longrightarrow> set ys \<inter> (set (concat cs) - set (cs ! i)) = {} \<Longrightarrow> distinct (concat (cs[i := ys]))"
    unfolding s c(2) using d by auto
qed

lemma concat_nthD:
  "distinct (concat cs) \<Longrightarrow> i < length cs \<Longrightarrow> distinct (cs ! i)"
  "i < length cs \<Longrightarrow> set (cs ! i) \<subseteq> set (concat cs)"
  by (metis distinct_concat_iff nth_mem) (meson in_concat_nth subsetI)

definition chains_ok :: "tstate \<Rightarrow> nat list list \<Rightarrow> bool" where
  "chains_ok st cs \<longleftrightarrow>
     length (ht_list (snd st)) = length cs \<and> unat (ht_length (snd st)) = length cs
     \<and> (\<exists>k. length cs = 2 ^ k) \<and> distinct (concat cs)
     \<and> (\<forall>i < length cs. chain (next_hash (fst st)) (ht_list (snd st) ! i) (cs ! i)
          \<and> (\<forall>a \<in> set (cs ! i). live_handle (fst st) a \<and> bucket_of (fst st) (snd st) a = i))"

lemma chains_ok_live: "chains_ok st cs \<Longrightarrow> a \<in> set (concat cs) \<Longrightarrow> live_handle (fst st) a"
  unfolding chains_ok_def in_concat_nth by blast

lemma table_ok_chains:
  "table_ok st cs \<longleftrightarrow> chains_ok st cs \<and> unat (ht_elems (snd st)) = length (concat cs)
     \<and> inj_on (kh (fst st)) (set (concat cs))"
  by (auto simp: table_ok_def chains_ok_def)

lemma holds_handlesI:
  "chains_ok st cs \<Longrightarrow> unat (ht_elems (snd st)) = length (concat cs) \<Longrightarrow> inj_on (kh (fst st)) (set (concat cs))
     \<Longrightarrow> set (concat cs) = S \<Longrightarrow> holds_handles st S"
  unfolding holds_handles_def table_ok_chains by blast

definition same_handles :: "tstate \<Rightarrow> tstate \<Rightarrow> bool" where
  "same_handles st st' \<longleftrightarrow> links (fst st') = links (fst st) \<and> obj (fst st') = obj (fst st)"

lemma same_handlesD:
  assumes "same_handles st st'"
  shows "live_handle (fst st') = live_handle (fst st)" "kh (fst st') = kh (fst st)"
    "handle a (fst st') = handle a (fst st)"
    "ht_length (snd st') = ht_length (snd st) \<Longrightarrow> bucket_of (fst st') (snd st') = bucket_of (fst st) (snd st)"
  using assms by (auto simp: same_handles_def live_handle_def kh_def bucket_of_def handle_def fun_eq_iff
      split: option.splits)

lemma same_handles_trans: "same_handles a b \<Longrightarrow> same_handles b c \<Longrightarrow> same_handles a c"
  by (simp add: same_handles_def)

text \<open>Writing the head of a new rest \<open>ys\<close> into the slot after \<open>as\<close>.\<close>

lemma set_slot_chains:
  assumes "chains_ok st cs" "i < length cs" "cs ! i = as @ bs" "chain (next_hash (fst st)) v ys"
    and "distinct (as @ ys)" "set ys \<inter> (set (concat cs) - set (cs ! i)) = {}"
    and "\<forall>a \<in> set ys. live_handle (fst st) a \<and> bucket_of (fst st) (snd st) a = i"
  shows "\<exists>m t. set_slot (slot_after (Bucket i) as) v st = Inr (m, t) \<and> chains_ok (m, t) (cs[i := as @ ys])
    \<and> same_handles st (m, t) \<and> ht_length t = ht_length (snd st) \<and> ht_elems t = ht_elems (snd st)"
proof -
  obtain m t where st: "st = (m, t)" by fastforce
  have di: "distinct (concat (cs[i := as @ ys]))"
    using concat_update(3)[OF assms(2), of "as @ ys"] assms by (auto simp: chains_ok_def)
  have notin: "a \<notin> set (cs ! i)" if "j < length cs" "j \<noteq> i" "a \<in> set (cs ! j)" for j a
    using that assms(1,2) distinct_concat_iff[of cs]
    by (auto simp: chains_ok_def disjoint_iff) (metis distinct_conv_nth nth_mem disjoint_iff)
  show ?thesis
  proof (cases "as = []")
    case True
    have "chains_ok (m, t\<lparr>ht_list := (ht_list t)[i := v]\<rparr>) (cs[i := as @ ys])"
      using assms di True by (auto simp: chains_ok_def st nth_list_update)
    then show ?thesis using True assms(1,2)
      by (auto simp: slot_after_def set_slot_def st chains_ok_def same_handles_def)
  next
    case False
    let ?a = "last as" and ?m = "m\<lparr>next_hash := (next_hash m)(last as := v)\<rparr>"
    have a: "?a \<in> set (cs ! i)" using False assms(3) by simp
    then have live: "obj m ?a \<noteq> None" using assms(1,2) by (auto simp: chains_ok_def st live_handle_def)
    have own: "chain (next_hash ?m) (ht_list t ! i) (as @ ys)"
      using chain_update_last[of "next_hash m" "ht_list t ! i" as bs ys v] assms False
      by (auto simp: chains_ok_def st)
    have other: "chain (next_hash ?m) (ht_list t ! j) (cs ! j)" if "j < length cs" "j \<noteq> i" for j
    proof -
      have "last as \<notin> set (cs ! j)" using notin[OF that] a by blast
      then show ?thesis using that assms(1) by (simp add: chains_ok_def st)
    qed
    have "chains_ok (?m, t) (cs[i := as @ ys])" unfolding chains_ok_def
      using assms di own other
      by (auto simp: chains_ok_def st nth_list_update)
    then show ?thesis using False live
      by (auto simp: slot_after_def set_slot_def st handle_def same_handles_def)
  qed
qed

text \<open>A handle that is not in the table is linked in front of its chain.\<close>

lemma chains_ok_relink:
  assumes "chains_ok (m, t) cs" "h \<notin> set (concat cs)"
  shows "chains_ok (m\<lparr>next_hash := (next_hash m)(h := v)\<rparr>, t) cs"
proof -
  have "chain ((next_hash m)(h := v)) (ht_list t ! i) (cs ! i) = chain (next_hash m) (ht_list t ! i) (cs ! i)"
    if "i < length cs" for i
    using that assms(2) by (intro chain_cong) auto
  then show ?thesis using assms(1) by (simp add: chains_ok_def)
qed

lemma chains_push:
  assumes "chains_ok (m, t) cs" "h \<notin> set (concat cs)" "h \<noteq> 0" "live_handle m h" "i = bucket_of m t h" "i < length cs"
  shows "chains_ok (m\<lparr>next_hash := (next_hash m)(h := ht_list t ! i)\<rparr>, t\<lparr>ht_list := (ht_list t)[i := h]\<rparr>)
    (cs[i := h # cs ! i])"
proof -
  let ?m = "m\<lparr>next_hash := (next_hash m)(h := ht_list t ! i)\<rparr>"
  have k: "chains_ok (?m, t) cs" using chains_ok_relink[OF assms(1,2)] .
  then have c: "chain (next_hash ?m) h (h # cs ! i)" using assms(3,6) by (simp add: chains_ok_def)
  have "distinct (concat cs)" using assms(1) by (simp add: chains_ok_def)
  then have d: "distinct (cs ! i)" "set (cs ! i) \<subseteq> set (concat cs)"
    using concat_nthD assms(6) by blast+
  have b: "\<forall>a \<in> set (h # cs ! i). live_handle ?m a \<and> bucket_of ?m t a = i"
    using assms(1,4,6) assms(5)[symmetric] by (simp add: chains_ok_def)
  obtain m' t' where "set_slot (slot_after (Bucket i) []) h (?m, t) = Inr (m', t')"
    "chains_ok (m', t') (cs[i := [] @ h # cs ! i])"
  proof -
    have "distinct ([] @ h # cs ! i)" "set (h # cs ! i) \<inter> (set (concat cs) - set (cs ! i)) = {}"
      using d assms(2) by auto
    from set_slot_chains[OF k assms(6) _ _ this, of "cs ! i" h] c b that show thesis
      unfolding fst_conv snd_conv append_Nil by blast
  qed
  moreover have "i < length (ht_list t)" using assms(1,6) by (simp add: chains_ok_def)
  ultimately show ?thesis by (simp add: slot_after_def set_slot_def)
qed

lemma move_chain_ok:
  assumes "chains_ok (m, \<lparr>ht_length = n, ht_elems = e, ht_list = nl\<rparr>) ncs" "chain (next_hash m) h xs"
    and "distinct xs" "set xs \<inter> set (concat ncs) = {}" "\<forall>a \<in> set xs. live_handle m a"
  shows "\<exists>m' nl' ncs'. move_chain n h (m, nl, cnt) = Some (Inr (m', nl', cnt + word_of_nat (length xs)))
    \<and> chains_ok (m', \<lparr>ht_length = n, ht_elems = e, ht_list = nl'\<rparr>) ncs'
    \<and> set (concat ncs') = set xs \<union> set (concat ncs) \<and> obj m' = obj m \<and> links m' = links m
    \<and> (\<forall>a. a \<notin> set xs \<longrightarrow> next_hash m' a = next_hash m a)"
  using assms
proof (induction xs arbitrary: m nl ncs h cnt)
  case Nil
  then show ?case by (intro exI[of _ m] exI[of _ nl] exI[of _ ncs]) (simp add: move_chain.simps)
next
  case (Cons x xs)
  let ?t = "\<lparr>ht_length = n, ht_elems = e, ht_list = nl\<rparr>"
  define i where "i = bucket_of m ?t x"
  define m1 where "m1 = m\<lparr>next_hash := (next_hash m)(x := nl ! i)\<rparr>"
  obtain o' where o: "obj m x = Some o'" using Cons.prems(5) by (auto simp: live_handle_def)
  have i: "i = unat (e_hash o' AND (n - 1))" using o by (simp add: i_def bucket_of_def)
  have il: "i < length ncs" "i < length nl"
    using Cons.prems(1) and_pow2_less by (auto simp: chains_ok_def i)
  have h: "h = x" "x \<noteq> 0" "chain (next_hash m) (next_hash m x) xs" using Cons.prems(2) by auto
  have k: "chains_ok (m1, \<lparr>ht_length = n, ht_elems = e, ht_list = nl[i := x]\<rparr>) (ncs[i := x # ncs ! i])"
    using chains_push[OF Cons.prems(1) _ h(2) _ i_def il(1)] Cons.prems(4,5) by (simp add: m1_def)
  have d: "distinct (concat ncs)" using Cons.prems(1) by (simp add: chains_ok_def)
  have sub: "set (ncs ! i) \<subseteq> set (concat ncs)" using nth_mem[OF il(1)] by auto
  have s: "set (concat (ncs[i := x # ncs ! i])) = insert x (set (concat ncs))"
    using concat_update(1)[OF il(1) d, of "x # ncs ! i"] sub by auto
  have c: "chain (next_hash m1) (next_hash m x) xs"
    using h(3) Cons.prems(3) by (simp add: m1_def)
  have "move_chain n h (m, nl, cnt) = move_chain n (next_hash m x) (m1, nl[i := x], cnt + 1)"
    using h o il by (subst move_chain.simps) (simp add: handle_def i m1_def Let_def)
  moreover have "\<exists>m' nl' ncs'. move_chain n (next_hash m x) (m1, nl[i := x], cnt + 1)
      = Some (Inr (m', nl', cnt + 1 + word_of_nat (length xs)))
    \<and> chains_ok (m', \<lparr>ht_length = n, ht_elems = e, ht_list = nl'\<rparr>) ncs'
    \<and> set (concat ncs') = set xs \<union> set (concat (ncs[i := x # ncs ! i])) \<and> obj m' = obj m1 \<and> links m' = links m1
    \<and> (\<forall>a. a \<notin> set xs \<longrightarrow> next_hash m' a = next_hash m1 a)"
    using Cons.prems(3,4,5) s by (intro Cons.IH[OF k c]) (auto simp: m1_def)
  ultimately show ?case using s by (auto simp: m1_def add.assoc)
qed

lemma move_buckets_ok:
  assumes "chains_ok (m, \<lparr>ht_length = n, ht_elems = e, ht_list = nl\<rparr>) ncs"
    and "\<forall>i \<in> set is. i < length (ht_list t) \<and> chain (next_hash m) (ht_list t ! i) (cs ! i)"
    and "distinct (concat (map ((!) cs) is))" "set (concat (map ((!) cs) is)) \<inter> set (concat ncs) = {}"
    and "\<forall>a \<in> set (concat (map ((!) cs) is)). live_handle m a"
  shows "\<exists>m' nl' ncs'. move_buckets n t is (m, nl, cnt)
      = Inr (m', nl', cnt + word_of_nat (length (concat (map ((!) cs) is))))
    \<and> chains_ok (m', \<lparr>ht_length = n, ht_elems = e, ht_list = nl'\<rparr>) ncs'
    \<and> set (concat ncs') = set (concat (map ((!) cs) is)) \<union> set (concat ncs)
    \<and> obj m' = obj m \<and> links m' = links m"
  using assms
proof (induction "is" arbitrary: m nl ncs cnt)
  case Nil
  then show ?case by (intro exI[of _ m] exI[of _ nl] exI[of _ ncs]) simp
next
  case (Cons i "is")
  let ?rest = "concat (map ((!) cs) is)"
  have g: "get_slot (Bucket i) (m, t) = Inr (ht_list t ! i)" "chain (next_hash m) (ht_list t ! i) (cs ! i)"
    using Cons.prems(2) by (simp_all add: get_slot_def)
  have d: "distinct (cs ! i)" "set (cs ! i) \<inter> set (concat ncs) = {}" "\<forall>a \<in> set (cs ! i). live_handle m a"
    "set (cs ! i) \<inter> set ?rest = {}" "distinct ?rest" "set ?rest \<inter> set (concat ncs) = {}"
    using Cons.prems(3-5) by auto
  obtain m1 nl1 ncs1 where s: "move_chain n (ht_list t ! i) (m, nl, cnt)
      = Some (Inr (m1, nl1, cnt + word_of_nat (length (cs ! i))))"
    "chains_ok (m1, \<lparr>ht_length = n, ht_elems = e, ht_list = nl1\<rparr>) ncs1"
    "set (concat ncs1) = set (cs ! i) \<union> set (concat ncs)" "obj m1 = obj m" "links m1 = links m"
    "\<forall>a. a \<notin> set (cs ! i) \<longrightarrow> next_hash m1 a = next_hash m a"
    using move_chain_ok[OF Cons.prems(1) g(2) d(1-3), of cnt] by blast
  have ch: "chain (next_hash m1) (ht_list t ! j) (cs ! j)" if "j \<in> set is" for j
  proof -
    have "set (cs ! j) \<subseteq> set ?rest" using that by auto
    then have "chain (next_hash m1) (ht_list t ! j) (cs ! j) = chain (next_hash m) (ht_list t ! j) (cs ! j)"
      using d(4) s(6) by (intro chain_cong) blast
    then show ?thesis using that Cons.prems(2) by simp
  qed
  have "\<exists>m' nl' ncs'. move_buckets n t is (m1, nl1, cnt + word_of_nat (length (cs ! i)))
      = Inr (m', nl', cnt + word_of_nat (length (cs ! i)) + word_of_nat (length ?rest))
    \<and> chains_ok (m', \<lparr>ht_length = n, ht_elems = e, ht_list = nl'\<rparr>) ncs'
    \<and> set (concat ncs') = set ?rest \<union> set (concat ncs1) \<and> obj m' = obj m1 \<and> links m' = links m1"
  proof (rule Cons.IH[OF s(2)])
    show "\<forall>i \<in> set is. i < length (ht_list t) \<and> chain (next_hash m1) (ht_list t ! i) (cs ! i)"
      using ch Cons.prems(2) by simp
    show "distinct ?rest" by (fact d)
    show "set ?rest \<inter> set (concat ncs1) = {}" unfolding s(3) using d(4,6) by blast
    show "\<forall>a \<in> set ?rest. live_handle m1 a" using Cons.prems(5) s(4,5) by (simp add: live_handle_def)
  qed
  then obtain m' nl' ncs' where "move_buckets n t is (m1, nl1, cnt + word_of_nat (length (cs ! i)))
      = Inr (m', nl', cnt + word_of_nat (length (cs ! i)) + word_of_nat (length ?rest))"
    "chains_ok (m', \<lparr>ht_length = n, ht_elems = e, ht_list = nl'\<rparr>) ncs'"
    "set (concat ncs') = set ?rest \<union> set (concat ncs1)" "obj m' = obj m1" "links m' = links m1" by blast
  then show ?case using g(1) s
    by (intro exI[of _ m'] exI[of _ nl'] exI[of _ ncs']) (auto simp: returned_def add.assoc)
qed

text \<open>Up to 2^31 elements the doubling loop ends, with a power of two.\<close>

lemma new_length_ok:
  assumes "unat elems \<le> 2 ^ 31" "unat n = 2 ^ k" "k \<le> 31"
  shows "\<exists>r k'. new_length elems n = Some r \<and> unat r = 2 ^ k' \<and> k' \<le> 31 \<and> unat elems \<le> unat r"
  using assms(2,3)
proof (induction "31 - k" arbitrary: k n)
  case 0
  then have "\<not> n < elems" using assms(1) by (simp add: word_less_nat_alt)
  then show ?case using 0 by (subst new_length.simps) (auto simp: word_less_nat_alt intro!: exI[of _ 31])
next
  case (Suc d)
  show ?case
  proof (cases "n < elems")
    case True
    have "(2::nat) ^ Suc k \<le> 2 ^ 31" using Suc.hyps(2) by (intro power_increasing) auto
    then have "unat (n * 2) = 2 ^ Suc k" using Suc.prems
      by (simp add: unat_word_ariths)
    then have "\<exists>r k'. new_length elems (n * 2) = Some r \<and> unat r = 2 ^ k' \<and> k' \<le> 31 \<and> unat elems \<le> unat r"
      using Suc.hyps(2) by (intro Suc.hyps(1)[of "Suc k"]) auto
    then show ?thesis using True by (subst new_length.simps) simp
  next
    case False
    then show ?thesis using Suc.prems by (subst new_length.simps) (auto simp: word_less_nat_alt)
  qed
qed

lemma chains_ok_empty:
  "unat n = 2 ^ k \<Longrightarrow> chains_ok (m, \<lparr>ht_length = n, ht_elems = e, ht_list = replicate (unat n) 0\<rparr>) (replicate (unat n) [])"
  by (auto simp: chains_ok_def)

lemma map_nth_upt: "map ((!) cs) [0..<length cs] = cs"
  by (rule map_nth)

lemma Resize_ok:
  assumes "length (ht_list t) = length cs" "unat (ht_length t) = length cs" "distinct (concat cs)"
    and "\<forall>i < length cs. chain (next_hash m) (ht_list t ! i) (cs ! i)" "\<forall>a \<in> set (concat cs). live_handle m a"
    and "unat (ht_elems t) = length (concat cs)" "inj_on (kh m) (set (concat cs))" "unat (ht_elems t) \<le> 2 ^ 31"
  shows "\<exists>st'. Resize (m, t) = Inr st' \<and> holds_handles st' (set (concat cs)) \<and> same_handles (m, t) st'"
proof -
  obtain n k where n: "new_length (ht_elems t) 4 = Some n" "unat n = 2 ^ k"
    using new_length_ok[OF assms(8), of 4 2] by auto
  let ?e = "chains_ok (m, \<lparr>ht_length = n, ht_elems = ht_elems t, ht_list = replicate (unat n) 0\<rparr>) (replicate (unat n) [])"
  have e: ?e using chains_ok_empty[OF n(2)] .
  have cc: "map ((!) cs) [0..<unat (ht_length t)] = cs" unfolding assms(2) by (rule map_nth)
  have r: "concat (replicate (unat n) []) = []" by simp
  obtain m' nl' ncs' where m: "move_buckets n t [0..<unat (ht_length t)] (m, replicate (unat n) 0, 0)
      = Inr (m', nl', 0 + word_of_nat (length (concat cs)))"
    "chains_ok (m', \<lparr>ht_length = n, ht_elems = ht_elems t, ht_list = nl'\<rparr>) ncs'"
    "set (concat ncs') = set (concat cs)" "obj m' = obj m" "links m' = links m"
    using move_buckets_ok[OF e, of "[0..<unat (ht_length t)]" t cs 0, unfolded cc r] assms(1-5) by auto
  have w: "ht_elems t = word_of_nat (length (concat cs))" by (simp flip: assms(6))
  have "Resize (m, t) = Inr (m', t\<lparr>ht_list := nl', ht_length := n\<rparr>)"
    using n(1) m(1) w by (simp add: Resize_def returned_def)
  moreover have "table_ok (m', t\<lparr>ht_list := nl', ht_length := n\<rparr>) ncs'"
  proof -
    have "distinct (concat ncs')" using m(2) by (simp add: chains_ok_def)
    then have "length (concat ncs') = length (concat cs)"
      by (metis m(3) assms(3) distinct_card)
    moreover have "inj_on (kh m') (set (concat ncs'))"
      unfolding m(3) using assms(7) m(4) by (simp add: inj_on_def kh_def)
    moreover have "chains_ok (m', t\<lparr>ht_list := nl', ht_length := n\<rparr>) ncs'"
      using m(2) bucket_of_cong[of "t\<lparr>ht_list := nl', ht_length := n\<rparr>"
        "\<lparr>ht_length = n, ht_elems = ht_elems t, ht_list = nl'\<rparr>" m'] by (simp add: chains_ok_def)
    ultimately show ?thesis using assms(6) by (simp add: table_ok_chains)
  qed
  then have "holds_handles (m', t\<lparr>ht_list := nl', ht_length := n\<rparr>) (set (concat cs))"
    unfolding holds_handles_def using m(3) by blast
  ultimately show ?thesis using m(4,5) by (simp add: same_handles_def)
qed

lemma HandleTable_init_ok: "\<exists>st. HandleTable_init m = Inr st \<and> holds_handles st {} \<and> same_handles (m, t) st"
proof -
  have "\<exists>st'. Resize (m, \<lparr>ht_length = 0, ht_elems = 0, ht_list = []\<rparr>) = Inr st' \<and> holds_handles st' (set (concat []))
      \<and> same_handles (m, \<lparr>ht_length = 0, ht_elems = 0, ht_list = []\<rparr>) st'"
    by (rule Resize_ok) auto
  then show ?thesis by (auto simp: HandleTable_init_def same_handles_def)
qed

lemma Table_Remove_ok:
  assumes "holds_handles st S"
  obtains (none) "Table_Remove key hash st = Inr (0, st)" "\<forall>b \<in> S. kh (fst st) b \<noteq> Some (hash, key)"
  | (found) a st' where "Table_Remove key hash st = Inr (a, st')" "a \<in> S" "kh (fst st) a = Some (hash, key)" "a \<noteq> 0"
      "holds_handles st' (S - {a})" "same_handles st st'"
proof -
  obtain cs where cs: "table_ok st cs" "S = set (concat cs)" using assms by (auto simp: holds_handles_def)
  define i where "i = unat (hash AND (ht_length (snd st) - 1))"
  obtain as bs where ab: "cs ! i = as @ bs" "i < length cs" "FindPointer key hash st = Inr (slot_after (Bucket i) as)"
    "get_slot (slot_after (Bucket i) as) st = Inr (if bs = [] then 0 else hd bs)"
    "\<forall>a \<in> set as. kh (fst st) a \<noteq> Some (hash, key)"
    "bs = [] \<or> kh (fst st) (hd bs) = Some (hash, key)"
    using FindPointer_ok[OF cs(1) i_def] by metis
  show ?thesis
  proof (cases bs)
    case Nil
    then show ?thesis using none ab in_own_bucket[OF cs(1)] cs(2) i_def by (force simp: Table_Remove_def)
  next
    case (Cons x ys)
    have ck: "chains_ok st cs" "unat (ht_elems (snd st)) = length (concat cs)" "inj_on (kh (fst st)) (set (concat cs))"
      using cs(1) by (auto simp: table_ok_chains)
    have dc: "distinct (concat cs)" using ck(1) by (simp add: chains_ok_def)
    have ci: "chain (next_hash (fst st)) (ht_list (snd st) ! i) (as @ x # ys)"
      "\<forall>a \<in> set (as @ x # ys). live_handle (fst st) a \<and> bucket_of (fst st) (snd st) a = i"
      using ck(1) ab(1,2) Cons by (auto simp: chains_ok_def)
    have di: "distinct (as @ x # ys)" "set (as @ x # ys) \<subseteq> S"
      using concat_nthD(1)[OF dc ab(2)] concat_nthD(2)[OF ab(2)] ab(1) Cons cs(2) by simp_all
    have x: "x \<noteq> 0" "chain (next_hash (fst st)) (next_hash (fst st) x) ys"
      using ci(1) by (auto simp: chain_append split: list.splits)
    have g: "get_slot (Next_hash x) st = Inr (next_hash (fst st) x)"
      using ci(2) by (auto simp: get_slot_def handle_def live_handle_def)
    have "distinct (as @ ys)" "set ys \<inter> (set (concat cs) - set (cs ! i)) = {}"
      "\<forall>a \<in> set ys. live_handle (fst st) a \<and> bucket_of (fst st) (snd st) a = i"
      using di(1) ab(1) Cons ci(2) by auto
    from set_slot_chains[OF ck(1) ab(2,1) x(2) this] obtain m t where s:
      "set_slot (slot_after (Bucket i) as) (next_hash (fst st) x) st = Inr (m, t)" "chains_ok (m, t) (cs[i := as @ ys])"
      "same_handles st (m, t)" "ht_length t = ht_length (snd st)" "ht_elems t = ht_elems (snd st)" by blast
    let ?cs = "cs[i := as @ ys]" and ?st = "(m, t\<lparr>ht_elems := ht_elems t - 1\<rparr>)"
    have set': "set (concat ?cs) = S - {x}"
      unfolding concat_update(1)[OF ab(2) dc] cs(2) using di ab(1) Cons cs(2) by auto
    have len: "length (concat ?cs) + 1 = length (concat cs)"
      using concat_update(2)[OF ab(2) dc, of "as @ ys"] ab(1) Cons by simp
    have "unat (ht_elems t - 1) = length (concat ?cs)"
    proof -
      have "ht_elems t \<noteq> 0" using len ck(2) s(5) by (metis add_is_0 one_neq_zero unat_0)
      then show ?thesis using len ck(2) s(5) by (simp add: unat_minus_one)
    qed
    moreover have "inj_on (kh m) (set (concat ?cs))"
      using ck(3) same_handlesD(2)[OF s(3)] unfolding set' cs(2) by (auto intro: inj_on_subset)
    moreover have "chains_ok ?st ?cs" using s(2) by (simp add: chains_ok_def)
    ultimately have "holds_handles ?st (S - {x})"
      unfolding holds_handles_def table_ok_chains using set' by (intro exI[of _ ?cs]) simp
    moreover have "Table_Remove key hash st = Inr (x, ?st)"
      using ab(3,4) Cons x(1) g s(1) by (simp add: Table_Remove_def)
    ultimately show ?thesis using found[of x ?st] x(1) di(2) ab(6) Cons s(3) by (simp add: same_handles_def)
  qed
qed

lemma link_handle:
  assumes "chains_ok (m, t) cs" "i < length cs" "cs ! i = as @ bs" "h \<notin> set (concat cs)" "h \<noteq> 0"
    and "live_handle m h" "bucket_of m t h = i" "n = (if bs = [] then 0 else next_hash m (hd bs))"
  shows "\<exists>m' t'. set_slot (slot_after (Bucket i) as) h (m\<lparr>next_hash := (next_hash m)(h := n)\<rparr>, t) = Inr (m', t')
    \<and> chains_ok (m', t') (cs[i := as @ h # tl bs]) \<and> same_handles (m, t) (m', t')
    \<and> ht_length t' = ht_length t \<and> ht_elems t' = ht_elems t"
proof -
  let ?m = "m\<lparr>next_hash := (next_hash m)(h := n)\<rparr>"
  have dc: "distinct (concat cs)" using assms(1) by (simp add: chains_ok_def)
  have ci: "chain (next_hash m) (ht_list t ! i) (as @ bs)"
    "\<forall>a \<in> set (as @ bs). live_handle m a \<and> bucket_of m t a = i"
    using assms(1-3) by (auto simp: chains_ok_def)
  have di: "distinct (as @ bs)" "set (as @ bs) \<subseteq> set (concat cs)"
    using concat_nthD(1)[OF dc assms(2)] concat_nthD(2)[OF assms(2)] assms(3) by simp_all
  have tl: "set (tl bs) \<subseteq> set bs" "distinct (tl bs)" using di(1) by (cases bs; auto)+
  have hn: "h \<notin> set (as @ bs)" using di(2) assms(4) by blast
  have "chain (next_hash m) n (tl bs)"
    using ci(1) assms(8) by (cases bs) (auto simp: chain_append split: list.splits)
  moreover have "h \<notin> set (tl bs)" using hn tl(1) by auto
  ultimately have c: "chain (next_hash (fst (?m, t))) h (h # tl bs)" using assms(5) by simp
  have k: "chains_ok (?m, t) cs" using chains_ok_relink[OF assms(1,4)] .
  have d: "distinct (as @ h # tl bs)" using di(1) hn tl by auto
  have e: "set (h # tl bs) \<inter> (set (concat cs) - set (cs ! i)) = {}"
    unfolding assms(3) using tl(1) assms(4) by auto
  have "\<forall>a \<in> set bs. live_handle m a \<and> bucket_of m t a = i" using ci(2) by simp
  then have f: "\<forall>a \<in> set (h # tl bs). live_handle (fst (?m, t)) a \<and> bucket_of (fst (?m, t)) (snd (?m, t)) a = i"
    using assms(6,7) tl(1) by auto
  have "same_handles (?m, t) x \<Longrightarrow> same_handles (m, t) x" for x by (simp add: same_handles_def)
  then show ?thesis using set_slot_chains[OF k assms(2,3) c d e f] by fastforce
qed

lemma inj_on_replace:
  assumes "inj_on f (insert a A)" "f h = f a" "B \<subseteq> A - {a}"
  shows "inj_on f (insert h B)"
  using assms by (auto simp: inj_on_def)

lemma Table_Insert_steps:
  assumes "holds_handles (m, t) S" "h \<notin> S" "h \<noteq> 0" "live_handle m h" "kh m h = Some (hash, key)"
  obtains (new) m' t' cs where "\<forall>b \<in> S. kh m b \<noteq> Some (hash, key)"
      "chains_ok (m', t') cs" "set (concat cs) = insert h S" "same_handles (m, t) (m', t')"
      "unat (ht_elems t') + 1 = length (concat cs)"
      "Table_Insert h (m, t) = (let t = t'\<lparr>ht_elems := ht_elems t' + 1\<rparr>
          in bind_run (if ht_elems t > ht_length t then Resize (m', t) else Inr (m', t)) (\<lambda>st. Inr (0, st)))"
  | (replaced) a m' t' cs where "Table_Insert h (m, t) = Inr (a, m', t')" "a \<in> S" "kh m a = Some (hash, key)" "a \<noteq> 0"
      "chains_ok (m', t') cs" "set (concat cs) = insert h (S - {a})" "same_handles (m, t) (m', t')"
      "unat (ht_elems t') = length (concat cs)"
proof -
  obtain cs where cs: "table_ok (m, t) cs" "S = set (concat cs)" using assms(1) by (auto simp: holds_handles_def)
  obtain e where e: "obj m h = Some e" "e_hash e = hash" "e_key e = key" "next_of (links m) h \<noteq> h"
    using assms(4,5) by (auto simp: live_handle_def kh_def)
  then have hk: "handle_key h m = Inr key" "handle h m = Inr e" by (simp_all add: handle_key_def handle_def)
  define i where "i = unat (hash AND (ht_length t - 1))"
  obtain as bs where ab: "cs ! i = as @ bs" "i < length cs" "FindPointer key hash (m, t) = Inr (slot_after (Bucket i) as)"
    "get_slot (slot_after (Bucket i) as) (m, t) = Inr (if bs = [] then 0 else hd bs)"
    "\<forall>a \<in> set as. kh m a \<noteq> Some (hash, key)" "bs = [] \<or> kh m (hd bs) = Some (hash, key)"
    using FindPointer_ok[OF cs(1), of i hash key] unfolding i_def fst_conv snd_conv by metis
  have ck: "chains_ok (m, t) cs" "unat (ht_elems t) = length (concat cs)" using cs(1) by (auto simp: table_ok_chains)
  have dc: "distinct (concat cs)" using ck(1) by (simp add: chains_ok_def)
  have di: "distinct (as @ bs)" "set (as @ bs) \<subseteq> S"
    using concat_nthD(1)[OF dc ab(2)] concat_nthD(2)[OF ab(2)] ab(1) cs(2) by simp_all
  define n where "n = (if bs = [] then 0 else next_hash m (hd bs))"
  have hc: "h \<notin> set (concat cs)" "bucket_of m t h = i" using assms(2) cs(2) e by (simp_all add: bucket_of_def i_def)
  obtain m' t' where s: "set_slot (slot_after (Bucket i) as) h (m\<lparr>next_hash := (next_hash m)(h := n)\<rparr>, t) = Inr (m', t')"
    "chains_ok (m', t') (cs[i := as @ h # tl bs])" "same_handles (m, t) (m', t')" "ht_elems t' = ht_elems t"
    using link_handle[OF ck(1) ab(2,1) hc(1) assms(3,4) hc(2) n_def] by blast
  have i1: "set_slot (Next_hash h) n (m, t) = Inr (m\<lparr>next_hash := (next_hash m)(h := n)\<rparr>, t)"
    using hk(2) by (simp add: set_slot_def)
  show ?thesis
  proof (cases bs)
    case Nil
    have "set (concat (cs[i := as @ h # tl bs])) = insert h S"
      unfolding concat_update(1)[OF ab(2) dc] using Nil di ab(1) cs(2) by auto
    moreover have "length (concat (cs[i := as @ h # tl bs])) = length (concat cs) + 1"
      using concat_update(2)[OF ab(2) dc, of "as @ h # tl bs"] ab(1) Nil by simp
    moreover have "\<forall>b \<in> S. kh m b \<noteq> Some (hash, key)"
      using Nil ab(1,5) in_own_bucket[OF cs(1), of _ hash key] cs(2) unfolding i_def fst_conv snd_conv by auto
    ultimately show ?thesis using s Nil hk ab(3,4) i1 ck(2) e(2)
      by (intro new[of m' t' "cs[i := as @ h # tl bs]"]) (simp_all add: Table_Insert_def n_def Let_def)
  next
    case (Cons x ys)
    have x: "x \<in> S" "x \<notin> set ys" "x \<notin> set as" "kh m x = Some (hash, key)" "live_handle m x" "x \<noteq> 0"
    proof -
      show "x \<in> S" "x \<notin> set ys" "x \<notin> set as" "kh m x = Some (hash, key)" using di Cons ab(6) by auto
      have ci: "chain (next_hash m) (ht_list t ! i) (as @ x # ys)" "\<forall>a \<in> set (as @ x # ys). live_handle m a"
        using ck(1) ab(1,2) Cons by (auto simp: chains_ok_def)
      then show "live_handle m x" by simp
      show "x \<noteq> 0" using ci(1) by (auto simp: chain_append split: list.splits)
    qed
    have g: "get_slot (Next_hash x) (m, t) = Inr n"
      using x(5) Cons by (auto simp: get_slot_def handle_def live_handle_def n_def)
    have "set (concat (cs[i := as @ h # tl bs])) = insert h (S - {x})"
      unfolding concat_update(1)[OF ab(2) dc] using Cons di ab(1) cs(2) by auto
    moreover have "length (concat (cs[i := as @ h # tl bs])) = length (concat cs)"
      using concat_update(2)[OF ab(2) dc, of "as @ h # tl bs"] ab(1) Cons by simp
    ultimately show ?thesis using s Cons hk ab(3,4) i1 ck(2) e(2) x g
      by (intro replaced[of x m' t' "cs[i := as @ h # tl bs]"]) (simp_all add: Table_Insert_def)
  qed
qed

lemma Table_Insert_ok:
  assumes "holds_handles st S" "h \<notin> S" "h \<noteq> 0" "live_handle (fst st) h" "card S < 2 ^ 31"
    and "kh (fst st) h = Some (hash, key)"
  obtains (new) st' where "Table_Insert h st = Inr (0, st')" "\<forall>b \<in> S. kh (fst st) b \<noteq> Some (hash, key)"
      "holds_handles st' (insert h S)" "same_handles st st'"
  | (replaced) a st' where "Table_Insert h st = Inr (a, st')" "a \<in> S" "kh (fst st) a = Some (hash, key)" "a \<noteq> 0"
      "holds_handles st' (insert h (S - {a}))" "same_handles st st'"
proof -
  obtain m t where st: "st = (m, t)" by fastforce
  obtain cs0 where cs0: "table_ok st cs0" "S = set (concat cs0)" using assms(1) by (auto simp: holds_handles_def)
  then have inj: "inj_on (kh m) S" by (simp add: table_ok_chains st)
  from assms(1-4,6) show ?thesis unfolding st fst_conv
  proof (cases rule: Table_Insert_steps)
    case (new m' t' cs)
    let ?t = "t'\<lparr>ht_elems := ht_elems t' + 1\<rparr>"
    have d: "distinct (concat cs)" using new(2) by (simp add: chains_ok_def)
    have l: "length (concat cs) = card S + 1"
      using distinct_card[OF d] new(3) assms(2) cs0(2) by (metis Suc_eq_plus1 card_insert_disjoint finite_set)
    have u: "unat (ht_elems ?t) = length (concat cs)"
      using new(5) l assms(5) by (simp add: unat_word_ariths)
    have k: "kh m' = kh m" using same_handlesD(2)[OF new(4)] by simp
    have i': "inj_on (kh m') (set (concat cs))"
      unfolding k new(3) using inj new(1) assms(2,6) st by (auto simp: inj_on_insert)
    have c: "chains_ok (m', ?t) cs" using new(2) by (simp add: chains_ok_def)
    have w: "length (ht_list ?t) = length cs" "unat (ht_length ?t) = length cs"
      "\<forall>i < length cs. chain (next_hash m') (ht_list ?t ! i) (cs ! i)"
      "\<forall>a \<in> set (concat cs). live_handle m' a"
      using c chains_ok_live[OF c] unfolding chains_ok_def fst_conv snd_conv by blast+
    have sm: "same_handles st (m', ?t)" using new(4) by (simp add: same_handles_def st)
    obtain st' where "Table_Insert h st = Inr (0, st')" "holds_handles st' (insert h S)" "same_handles st st'"
    proof (cases "ht_elems ?t > ht_length ?t")
      case True
      obtain st' where "Resize (m', ?t) = Inr st'" "holds_handles st' (set (concat cs))" "same_handles (m', ?t) st'"
        using Resize_ok[OF w(1,2) d w(3,4) u i'] u l assms(5) by auto
      then show thesis using that[of st'] True new(3,6) st same_handles_trans[OF sm] by (simp add: Let_def)
    next
      case False
      have "holds_handles (m', ?t) (insert h S)"
        using holds_handlesI[OF c _ _ new(3)] u i' by simp
      then show thesis using that[of "(m', ?t)"] False new(6) sm st by (simp add: Let_def)
    qed
    then show ?thesis using that(1) new(1) st by auto
  next
    case (replaced a m' t' cs)
    have k: "kh m' = kh m" using same_handlesD(2)[OF replaced(7)] by simp
    have "inj_on (kh m') (set (concat cs))"
      unfolding k replaced(6) by (rule inj_on_replace[of _ a S]) (use inj replaced(2,3) assms(6) st in \<open>auto simp: insert_absorb\<close>)
    then have "holds_handles (m', t') (insert h (S - {a}))"
      using holds_handlesI[OF replaced(5) _ _ replaced(6)] replaced(8) by simp
    then show ?thesis using that(2) replaced(1-4,7) st by auto
  qed
qed

section \<open>The contract of the table\<close>

text \<open>What a search for the key \<open>k\<close> in the set \<open>S\<close> of handles answers: 0, or the handle with that key.\<close>

definition answers :: "(nat \<Rightarrow> 'k option) \<Rightarrow> nat set \<Rightarrow> 'k \<Rightarrow> nat \<Rightarrow> bool" where
  "answers keys S k a \<longleftrightarrow> (if a = 0 then \<forall>b \<in> S. keys b \<noteq> Some k else a \<in> S \<and> keys a = Some k)"

locale handle_map =
  fixes lookup :: "'k \<Rightarrow> 's \<Rightarrow> nat run"
    and link :: "nat \<Rightarrow> 's \<Rightarrow> (nat \<times> 's) run"
    and unlink :: "'k \<Rightarrow> 's \<Rightarrow> (nat \<times> 's) run"
    and holds :: "'s \<Rightarrow> nat set \<Rightarrow> bool"
    and keys :: "'s \<Rightarrow> nat \<Rightarrow> 'k option"
    and usable :: "'s \<Rightarrow> nat \<Rightarrow> bool"
    and same :: "'s \<Rightarrow> 's \<Rightarrow> bool"
    and limit :: nat
  assumes lookup_ok: "holds s S \<Longrightarrow> \<exists>a. lookup k s = Inr a \<and> answers (keys s) S k a"
    and link_ok: "holds s S \<Longrightarrow> h \<notin> S \<Longrightarrow> h \<noteq> 0 \<Longrightarrow> usable s h \<Longrightarrow> keys s h = Some k \<Longrightarrow> card S < limit \<Longrightarrow>
      \<exists>a s'. link h s = Inr (a, s') \<and> answers (keys s) S k a \<and> holds s' (insert h (S - {a})) \<and> same s s'"
    and unlink_ok: "holds s S \<Longrightarrow>
      \<exists>a s'. unlink k s = Inr (a, s') \<and> answers (keys s) S k a \<and> holds s' (S - {a}) \<and> same s s'"
    and unique: "holds s S \<Longrightarrow> inj_on (keys s) S"
    and nonnull: "holds s S \<Longrightarrow> 0 \<notin> S"
    and same_keys: "same s s' \<Longrightarrow> keys s' = keys s"
begin

lemma answer_unique: "holds s S \<Longrightarrow> answers (keys s) S k a \<Longrightarrow> answers (keys s) S k b \<Longrightarrow> a = b"
  using unique[of s S] by (auto simp: answers_def inj_on_def split: if_splits)

lemma answer_found: "holds s S \<Longrightarrow> a \<in> S \<Longrightarrow> keys s a = Some k \<Longrightarrow> answers (keys s) S k a"
  using nonnull[of s S] by (auto simp: answers_def)

lemma lookup_found: "holds s S \<Longrightarrow> a \<in> S \<Longrightarrow> keys s a = Some k \<Longrightarrow> lookup k s = Inr a"
  using lookup_ok[of s S k] answer_found answer_unique by metis

lemma lookup_linked:
  assumes "holds s S" "h \<notin> S" "h \<noteq> 0" "usable s h" "keys s h = Some k" "card S < limit"
  shows "\<exists>a s'. link h s = Inr (a, s') \<and> lookup k s' = Inr h"
  using link_ok[OF assms] same_keys lookup_found assms(5) by (metis insertI1)

lemma lookup_unlinked:
  assumes "holds s S"
  shows "\<exists>a s'. unlink k s = Inr (a, s') \<and> lookup k s' = Inr 0"
proof -
  obtain a s' where s: "unlink k s = Inr (a, s')" "answers (keys s) S k a" "holds s' (S - {a})" "same s s'"
    using unlink_ok[OF assms] by blast
  have "b = a" if "b \<in> S" "keys s b = Some k" for b
    using answer_unique[OF assms answer_found[OF assms that] s(2)] .
  then have "answers (keys s') (S - {a}) k 0" using same_keys[OF s(4)] by (auto simp: answers_def)
  then show ?thesis using s(1) lookup_ok[OF s(3), of k] answer_unique[OF s(3)] by metis
qed

end

lemma holds_nonnull: "holds_handles st S \<Longrightarrow> 0 \<notin> S"
proof -
  assume "holds_handles st S"
  then obtain cs where cs: "chains_ok st cs" "S = set (concat cs)" by (auto simp: holds_handles_def table_ok_chains)
  have "0 \<notin> set xs" if "chain nh p xs" for nh p xs using that by (induction xs arbitrary: p) auto
  then show ?thesis using cs unfolding chains_ok_def in_concat_nth cs(2) by metis
qed

interpretation handles: handle_map "\<lambda>(hash, key). Table_Lookup key hash" Table_Insert
  "\<lambda>(hash, key). Table_Remove key hash" holds_handles "\<lambda>st. kh (fst st)" "\<lambda>st. live_handle (fst st)" same_handles "2 ^ 31"
proof
  fix s S h and k :: "u32 \<times> bytes"
  obtain hash key where k: "k = (hash, key)" by fastforce
  assume s: "holds_handles s S"
  note nn = holds_nonnull[OF s]
  show "\<exists>a. (case k of (hash, key) \<Rightarrow> Table_Lookup key hash) s = Inr a \<and> answers (kh (fst s)) S k a"
    using s nn k by (cases rule: Table_Lookup_ok[of s S key hash]) (auto simp: answers_def)
  show "\<exists>a s'. (case k of (hash, key) \<Rightarrow> Table_Remove key hash) s = Inr (a, s')
      \<and> answers (kh (fst s)) S k a \<and> holds_handles s' (S - {a}) \<and> same_handles s s'"
    using s
  proof (cases rule: Table_Remove_ok[of s S key hash])
    case none
    then show ?thesis using k s nn by (auto simp: answers_def same_handles_def)
  next
    case (found a st')
    then show ?thesis using k by (auto simp: answers_def)
  qed
  show "inj_on (kh (fst s)) S" using s by (auto simp: holds_handles_def table_ok_chains)
  show "0 \<notin> S" by (fact nn)
  show "h \<notin> S \<Longrightarrow> h \<noteq> 0 \<Longrightarrow> live_handle (fst s) h \<Longrightarrow> kh (fst s) h = Some k \<Longrightarrow> card S < 2 ^ 31 \<Longrightarrow>
      \<exists>a s'. Table_Insert h s = Inr (a, s') \<and> answers (kh (fst s)) S k a
        \<and> holds_handles s' (insert h (S - {a})) \<and> same_handles s s'"
    unfolding k
  proof -
    assume h: "h \<notin> S" "h \<noteq> 0" "live_handle (fst s) h" "kh (fst s) h = Some (hash, key)" "card S < 2 ^ 31"
    from s h(1,2,3,5,4) show "\<exists>a s'. Table_Insert h s = Inr (a, s')
        \<and> answers (kh (fst s)) S (hash, key) a \<and> holds_handles s' (insert h (S - {a})) \<and> same_handles s s'"
    proof (cases rule: Table_Insert_ok)
      case (new st')
      then show ?thesis using nn by (auto simp: answers_def)
    next
      case (replaced a st')
      then show ?thesis by (auto simp: answers_def)
    qed
  qed
qed (auto dest: same_handlesD(2))

end
