(* ===== verification/LruShape.thy ===== *)
theory LruShape
  imports CacheTable
begin

text \<open>
  \<open>LRUCache\<close> of \<^verbatim>\<open>util/cache.cc\<close>, one shard of the cache: entries with reference counts,
  kept on one of two circular pointer lists and in the hash table of
  \<open>CacheTable\<close>. Every operation holds the mutex of its shard, so it is one step.
  \<open>malloc\<close> is an argument: the address it returns. Calls of a deleter are
  recorded in \<open>deleted\<close>, with the address of the entry. The second half relates the
  pointer structure to two lists and a set of handles.
\<close>

record LRUCache =
  capacity :: u64
  usage :: u64
  lru_head :: nat
  in_use_head :: nat
  memory :: mem
  table :: HandleTable
  deleted :: "(nat \<times> entry) list"

definition set_links :: "heap \<Rightarrow> LRUCache \<Rightarrow> LRUCache" where
  "set_links h c = c\<lparr>memory := (memory c)\<lparr>links := h\<rparr>\<rparr>"

definition put_handle :: "nat \<Rightarrow> LRUHandle option \<Rightarrow> LRUCache \<Rightarrow> LRUCache" where
  "put_handle a v c = c\<lparr>memory := (memory c)\<lparr>obj := (obj (memory c))(a := v)\<rparr>\<rparr>"

text \<open>A node of the two lists: a list head, which lives in the cache object, or an allocated handle.\<close>

definition list_node_ok :: "nat \<Rightarrow> LRUCache \<Rightarrow> unit run" where
  "list_node_ok p c =
     (if p = lru_head c \<or> p = in_use_head c \<or> obj (memory c) p \<noteq> None then Inr () else Inl Use_after_free)"

definition LRU_Remove :: "nat \<Rightarrow> LRUCache \<Rightarrow> LRUCache run" where
  "LRU_Remove e c =
     bind_run (list_node_ok e c) (\<lambda>_. let h = links (memory c); q = next_of h e in
     bind_run (list_node_ok q c) (\<lambda>_. let h = h\<lparr>prev_of := (prev_of h)(q := prev_of h e)\<rparr>; p = prev_of h e in
     bind_run (list_node_ok p c) (\<lambda>_. Inr (set_links (h\<lparr>next_of := (next_of h)(p := next_of h e)\<rparr>) c))))"

definition LRU_Append :: "nat \<Rightarrow> nat \<Rightarrow> LRUCache \<Rightarrow> LRUCache run" where
  "LRU_Append lst e c =
     bind_run (list_node_ok e c) (\<lambda>_.
     bind_run (list_node_ok lst c) (\<lambda>_.
       let h = links (memory c);
           h = h\<lparr>next_of := (next_of h)(e := lst)\<rparr>;
           h = h\<lparr>prev_of := (prev_of h)(e := prev_of h lst)\<rparr>;
           p = prev_of h e
       in bind_run (list_node_ok p c) (\<lambda>_.
            let h = h\<lparr>next_of := (next_of h)(p := e)\<rparr>; q = next_of h e
            in bind_run (list_node_ok q c) (\<lambda>_. Inr (set_links (h\<lparr>prev_of := (prev_of h)(q := e)\<rparr>) c)))))"

definition Ref :: "nat \<Rightarrow> LRUCache \<Rightarrow> LRUCache run" where
  "Ref e c =
     bind_run (handle e (memory c)) (\<lambda>r.
     bind_run (if refs r = 1 \<and> in_cache r
               then bind_run (LRU_Remove e c) (LRU_Append (in_use_head c) e) else Inr c) (\<lambda>c.
       Inr (put_handle e (Some (r\<lparr>refs := refs r + 1\<rparr>)) c)))"

definition Unref :: "nat \<Rightarrow> LRUCache \<Rightarrow> LRUCache run" where
  "Unref e c =
     bind_run (handle e (memory c)) (\<lambda>r.
     bind_run (assert_run (refs r > 0)) (\<lambda>_.
       let r = r\<lparr>refs := refs r - 1\<rparr>; c = put_handle e (Some r) c
       in if refs r = 0 then
            bind_run (assert_run (\<not> in_cache r)) (\<lambda>_.
            bind_run (handle_key e (memory c)) (\<lambda>_.
              Inr ((put_handle e None c)\<lparr>deleted := deleted c @ [(e, entry.truncate r)]\<rparr>)))
          else if in_cache r \<and> refs r = 1
          then bind_run (LRU_Remove e c) (LRU_Append (lru_head c) e)
          else Inr c))"

definition FinishErase :: "nat \<Rightarrow> LRUCache \<Rightarrow> (bool \<times> LRUCache) run" where
  "FinishErase e c =
     (if e \<noteq> 0 then
        bind_run (handle e (memory c)) (\<lambda>r.
        bind_run (assert_run (in_cache r)) (\<lambda>_.
        bind_run (LRU_Remove e c) (\<lambda>c.
        bind_run (Unref e ((put_handle e (Some (r\<lparr>in_cache := False\<rparr>)) c)\<lparr>usage := usage c - e_charge r\<rparr>)) (\<lambda>c.
          Inr (True, c)))))
      else Inr (False, c))"

definition set_table :: "tstate \<Rightarrow> LRUCache \<Rightarrow> LRUCache" where
  "set_table st c = c\<lparr>memory := fst st, table := snd st\<rparr>"

definition LRU_Lookup :: "bytes \<Rightarrow> u32 \<Rightarrow> LRUCache \<Rightarrow> (nat \<times> LRUCache) run" where
  "LRU_Lookup key hash c =
     bind_run (Table_Lookup key hash (memory c, table c)) (\<lambda>e.
     bind_run (if e \<noteq> 0 then Ref e c else Inr c) (\<lambda>c. Inr (e, c)))"

definition LRU_Release :: "nat \<Rightarrow> LRUCache \<Rightarrow> LRUCache run" where
  "LRU_Release e c = Unref e c"

definition LRU_Erase :: "bytes \<Rightarrow> u32 \<Rightarrow> LRUCache \<Rightarrow> LRUCache run" where
  "LRU_Erase key hash c =
     bind_run (Table_Remove key hash (memory c, table c)) (\<lambda>(e, st).
     bind_run (FinishErase e (set_table st c)) (\<lambda>(_, c). Inr c))"

text \<open>The common body of the loops of \<open>Insert\<close> and \<open>Prune\<close>: the oldest entry of \<open>lru_\<close> leaves the cache.\<close>

definition erase_oldest :: "LRUCache \<Rightarrow> LRUCache run" where
  "erase_oldest c =
     (let old = next_of (links (memory c)) (lru_head c)
      in bind_run (handle old (memory c)) (\<lambda>r.
         bind_run (assert_run (refs r = 1)) (\<lambda>_.
         bind_run (handle_key old (memory c)) (\<lambda>k.
         bind_run (Table_Remove k (e_hash r) (memory c, table c)) (\<lambda>(e, st).
         bind_run (FinishErase e (set_table st c)) (\<lambda>(erased, c).
         bind_run (assert_run erased) (\<lambda>_. Inr c)))))))"

definition lru_empty :: "LRUCache \<Rightarrow> bool" where
  "lru_empty c \<longleftrightarrow> next_of (links (memory c)) (lru_head c) = lru_head c"

partial_function (option) evict :: "LRUCache \<Rightarrow> LRUCache run option" where
  "evict c =
     (if usage c > capacity c \<and> \<not> lru_empty c
      then case erase_oldest c of Inl f \<Rightarrow> Some (Inl f) | Inr c \<Rightarrow> evict c
      else Some (Inr c))"

partial_function (option) prune :: "LRUCache \<Rightarrow> LRUCache run option" where
  "prune c =
     (if \<not> lru_empty c
      then case erase_oldest c of Inl f \<Rightarrow> Some (Inl f) | Inr c \<Rightarrow> prune c
      else Some (Inr c))"

definition LRU_Prune :: "LRUCache \<Rightarrow> LRUCache run" where
  "LRU_Prune c = returned (prune c)"

definition LRU_Insert :: "bytes \<Rightarrow> u32 \<Rightarrow> nat \<Rightarrow> u64 \<Rightarrow> nat \<Rightarrow> nat \<Rightarrow> LRUCache \<Rightarrow> (nat \<times> LRUCache) run" where
  "LRU_Insert key hash value charge deleter e c =
     (let r = \<lparr>e_key = key, e_hash = hash, e_value = value, e_deleter = deleter, e_charge = charge,
               in_cache = False, refs = 1\<rparr>
      in bind_run
           (if capacity c > 0 then
              bind_run (LRU_Append (in_use_head c) e (put_handle e (Some (r\<lparr>refs := refs r + 1, in_cache := True\<rparr>)) c)) (\<lambda>c.
              let c = c\<lparr>usage := usage c + charge\<rparr>
              in bind_run (Table_Insert e (memory c, table c)) (\<lambda>(old, st).
                 bind_run (FinishErase old (set_table st c)) (\<lambda>(_, c). Inr c)))
            else
              (let c = put_handle e (Some r) c; h = links (memory c)
               in Inr (set_links (h\<lparr>next_of := (next_of h)(e := 0)\<rparr>) c))) (\<lambda>c.
         bind_run (returned (evict c)) (\<lambda>c. Inr (e, c))))"

text \<open>The constructor, with the addresses of the two list heads, and \<open>SetCapacity\<close>.\<close>

definition LRUCache_init :: "nat \<Rightarrow> nat \<Rightarrow> mem \<Rightarrow> LRUCache run" where
  "LRUCache_init l u m =
     (let h = links m;
          h = h\<lparr>next_of := (next_of h)(l := l, u := u), prev_of := (prev_of h)(l := l, u := u)\<rparr>
      in bind_run (HandleTable_init (m\<lparr>links := h\<rparr>)) (\<lambda>(m, t).
           Inr \<lparr>capacity = 0, usage = 0, lru_head = l, in_use_head = u, memory = m, table = t, deleted = []\<rparr>))"

definition SetCapacity :: "u64 \<Rightarrow> LRUCache \<Rightarrow> LRUCache" where
  "SetCapacity n c = c\<lparr>capacity := n\<rparr>"

text \<open>The destructor: every entry of \<open>lru_\<close> loses the reference of the cache.\<close>

partial_function (option) destroy_from :: "nat \<Rightarrow> LRUCache \<Rightarrow> LRUCache run option" where
  "destroy_from e c =
     (if e = lru_head c then Some (Inr c)
      else case handle e (memory c) of Inl f \<Rightarrow> Some (Inl f) | Inr r \<Rightarrow>
        if \<not> in_cache r \<or> refs r \<noteq> 1 then Some (Inl Assert_failed)
        else case Unref e (put_handle e (Some (r\<lparr>in_cache := False\<rparr>)) c) of Inl f \<Rightarrow> Some (Inl f)
          | Inr c' \<Rightarrow> destroy_from (next_of (links (memory c)) e) c')"

definition LRUCache_destroy :: "LRUCache \<Rightarrow> LRUCache run" where
  "LRUCache_destroy c =
     bind_run (assert_run (next_of (links (memory c)) (in_use_head c) = in_use_head c)) (\<lambda>_.
       returned (destroy_from (next_of (links (memory c)) (lru_head c)) c))"

section \<open>Circular lists\<close>

definition circ :: "heap \<Rightarrow> nat \<Rightarrow> nat list \<Rightarrow> bool" where
  "circ h a xs \<longleftrightarrow> linked h a xs a \<and> distinct (a # xs) \<and> 0 \<notin> set (a # xs)"

lemma circ_frame:
  assumes "circ h a xs" "\<forall>p \<in> set (a # xs). next_of h' p = next_of h p \<and> prev_of h' p = prev_of h p"
  shows "circ h' a xs"
  using assms linked_cong[of a xs h' h a] by (auto simp: circ_def)

lemma circ_self: "circ h a xs \<Longrightarrow> x \<in> set xs \<Longrightarrow> next_of h x \<noteq> x"
  by (auto simp: circ_def in_set_conv_decomp[of x xs] linked_append dest!: linked_ends(1)[of h x] split: list.splits)

lemma circ_first: "circ h a xs \<Longrightarrow> next_of h a = (case xs of [] \<Rightarrow> a | x # _ \<Rightarrow> x)"
  by (auto simp: circ_def dest: linked_ends(1))

text \<open>The heap after \<open>LRU_Remove\<close> of \<open>x\<close> and after \<open>LRU_Append\<close> of \<open>x\<close> to the list at \<open>a\<close>.\<close>

definition cut :: "nat \<Rightarrow> heap \<Rightarrow> heap" where
  "cut x h = h\<lparr>next_of := (next_of h)(prev_of h x := next_of h x), prev_of := (prev_of h)(next_of h x := prev_of h x)\<rparr>"

definition tie :: "nat \<Rightarrow> nat \<Rightarrow> heap \<Rightarrow> heap" where
  "tie a x h = h\<lparr>next_of := (next_of h)(x := a, prev_of h a := x), prev_of := (prev_of h)(x := prev_of h a, a := x)\<rparr>"

lemma circ_neighbours:
  assumes "circ h a xs" "x \<in> set xs"
  shows "next_of h x \<in> set (a # xs) - {x}" "prev_of h x \<in> set (a # xs) - {x}"
proof -
  obtain as bs where xs: "xs = as @ x # bs" using assms(2) by (auto simp: in_set_conv_decomp)
  then have "linked h a (as @ x # bs) a" "distinct (a # as @ x # bs)" using assms(1) by (auto simp: circ_def)
  then show "next_of h x \<in> set (a # xs) - {x}" "prev_of h x \<in> set (a # xs) - {x}"
    using linked_mid[of h a as x bs a] xs by auto
qed

lemma circ_cut:
  assumes "circ h a xs" "x \<in> set xs"
  shows "circ (cut x h) a (remove1 x xs)"
proof -
  obtain as bs where xs: "xs = as @ x # bs" using assms(2) by (auto simp: in_set_conv_decomp)
  have w: "linked h a (as @ x # bs) a" "distinct (as @ x # bs)" "a \<notin> set (as @ x # bs)" "0 \<notin> set (a # as @ x # bs)"
    using assms(1) by (auto simp: circ_def xs)
  define z where "z = (0::nat)"
  define h' where "h' = h\<lparr>next_of := (next_of h)(prev_of h x := next_of h x, x := z),
     prev_of := (prev_of h)(next_of h x := prev_of h x, x := z)\<rparr>"
  have "linked h' a (as @ bs) a"
    using w by (intro linked_remove[OF w(1) _ _ _ refl refl h'_def]) auto
  moreover have "linked (cut x h) a (as @ bs) a = linked h' a (as @ bs) a"
    using w by (intro linked_cong) (auto simp: h'_def cut_def)
  moreover have "remove1 x xs = as @ bs" using w(2) xs by (simp add: remove1_append)
  ultimately show ?thesis using w by (auto simp: circ_def)
qed

lemma circ_cut_frame:
  assumes "circ h a xs" "x \<in> set xs" "circ h b ys" "set (a # xs) \<inter> set (b # ys) = {}"
  shows "circ (cut x h) b ys"
  using assms(4) circ_neighbours[OF assms(1,2)]
  by (intro circ_frame[OF assms(3)]) (auto simp: cut_def)

lemma circ_tie:
  assumes "circ h a xs" "x \<notin> set (a # xs)" "x \<noteq> 0"
  shows "circ (tie a x h) a (xs @ [x])"
proof -
  have w: "linked h a (xs @ []) a" "distinct (xs @ [])" "a \<notin> set (xs @ [])" "x \<notin> set (a # a # xs @ [])"
    using assms by (auto simp: circ_def)
  have p: "prev_of h a = (if xs = [] then a else last xs)" using linked_ends(2) w(1) by fastforce
  have "linked (tie a x h) a (xs @ x # []) a"
    using w p by (intro linked_insert[OF w(1)]) (auto simp: tie_def)
  then show ?thesis using assms by (auto simp: circ_def)
qed

lemma circ_tie_frame:
  assumes "circ h a xs" "circ h b ys" "set (a # xs) \<inter> set (b # ys) = {}" "x \<notin> set (b # ys)"
  shows "circ (tie a x h) b ys"
proof -
  have "prev_of h a \<in> set (a # xs)"
    using assms(1) linked_ends(2)[of h a xs a] by (auto simp: circ_def split: if_splits)
  then show ?thesis using assms(3,4) by (intro circ_frame[OF assms(2)]) (auto simp: tie_def)
qed

section \<open>The shape of a shard\<close>

text \<open>
  \<open>shape c us ls S\<close>: the in-use list holds \<open>us\<close>, the LRU list holds \<open>ls\<close> (oldest
  first), the table holds the handles \<open>S\<close>.
\<close>

definition shape :: "LRUCache \<Rightarrow> nat list \<Rightarrow> nat list \<Rightarrow> nat set \<Rightarrow> bool" where
  "shape c us ls S \<longleftrightarrow>
     circ (links (memory c)) (in_use_head c) us \<and> circ (links (memory c)) (lru_head c) ls
     \<and> set (in_use_head c # us) \<inter> set (lru_head c # ls) = {}
     \<and> holds_handles (memory c, table c) S
     \<and> (\<forall>a \<in> set us \<union> set ls. obj (memory c) a \<noteq> None)
     \<and> (\<forall>a. obj (memory c) a \<noteq> None \<longrightarrow>
          a \<noteq> 0 \<and> a \<noteq> lru_head c \<and> a \<noteq> in_use_head c \<and> next_of (links (memory c)) a \<noteq> a)"

abbreviation lnk :: "LRUCache \<Rightarrow> heap" where
  "lnk c \<equiv> links (memory c)"

lemma set_links_simps [simp]:
  "lnk (set_links h c) = h" "obj (memory (set_links h c)) = obj (memory c)"
  "next_hash (memory (set_links h c)) = next_hash (memory c)" "table (set_links h c) = table c"
  "capacity (set_links h c) = capacity c" "usage (set_links h c) = usage c"
  "lru_head (set_links h c) = lru_head c" "in_use_head (set_links h c) = in_use_head c"
  "deleted (set_links h c) = deleted c" "set_links h (set_links h' c) = set_links h c"
  "list_node_ok p (set_links h c) = list_node_ok p c"
  by (simp_all add: set_links_def list_node_ok_def)

lemma put_handle_simps [simp]:
  "lnk (put_handle a v c) = lnk c" "obj (memory (put_handle a v c)) = (obj (memory c))(a := v)"
  "next_hash (memory (put_handle a v c)) = next_hash (memory c)" "table (put_handle a v c) = table c"
  "capacity (put_handle a v c) = capacity c" "usage (put_handle a v c) = usage c"
  "lru_head (put_handle a v c) = lru_head c" "in_use_head (put_handle a v c) = in_use_head c"
  "deleted (put_handle a v c) = deleted c"
  by (simp_all add: put_handle_def)

lemma holds_handles_cong:
  assumes "holds_handles (m, t) S" "next_hash m' = next_hash m"
    and "\<And>a. a \<in> S \<Longrightarrow> live_handle m' a \<and> kh m' a = kh m a"
  shows "holds_handles (m', t) S"
proof -
  obtain cs where cs: "table_ok (m, t) cs" "S = set (concat cs)" using assms(1) by (auto simp: holds_handles_def)
  have b: "bucket_of m' t a = bucket_of m t a" if "a \<in> S" for a
    using assms(3)[OF that] by (auto simp: bucket_of_def kh_def split: option.splits)
  have e: "a \<in> S" if "i < length cs" "a \<in> set (cs ! i)" for i a
    unfolding cs(2) in_concat_nth using that by blast
  have l: "live_handle m' a \<and> bucket_of m' t a = bucket_of m t a" if "i < length cs" "a \<in> set (cs ! i)" for i a
    using b[OF e[OF that]] assms(3)[OF e[OF that]] by blast
  have k: "chains_ok (m, t) cs" using cs(1) by (simp add: table_ok_chains)
  have "live_handle m' a \<and> bucket_of m' t a = i" if "i < length cs" "a \<in> set (cs ! i)" for i a
    using l[OF that] k that unfolding chains_ok_def fst_conv snd_conv by metis
  then have "chains_ok (m', t) cs"
    using k by (simp add: chains_ok_def assms(2))
  moreover have "inj_on (kh m') (set (concat cs))"
  proof -
    have "inj_on (kh m) S" using cs by (simp add: table_ok_chains)
    then show ?thesis unfolding cs(2)[symmetric] using assms(3) by (metis (mono_tags, lifting) inj_on_cong)
  qed
  ultimately show ?thesis
    using cs by (intro holds_handlesI[of _ cs]) (auto simp: table_ok_chains)
qed

lemma holds_live: "holds_handles (m, t) S \<Longrightarrow> a \<in> S \<Longrightarrow> live_handle m a"
  by (metis chains_ok_live fst_conv holds_handles_def table_ok_chains)

lemma list_node_ok_shape:
  "shape c us ls S \<Longrightarrow> p \<in> set (in_use_head c # us) \<union> set (lru_head c # ls) \<Longrightarrow> list_node_ok p c = Inr ()"
  by (auto simp: shape_def list_node_ok_def)

lemma shape_links:
  assumes "shape c us ls S" "circ h (in_use_head c) us'" "circ h (lru_head c) ls'"
    and "\<forall>a \<in> set us' \<union> set ls'. obj (memory c) a \<noteq> None" "set us' \<inter> set ls' = {}"
    and "\<forall>a. obj (memory c) a \<noteq> None \<longrightarrow> next_of h a \<noteq> a"
  shows "shape (set_links h c) us' ls' S"
proof -
  have "holds_handles (memory (set_links h c), table c) S"
  proof (rule holds_handles_cong)
    show "holds_handles (memory c, table c) S" using assms(1) by (simp add: shape_def)
    fix a assume "a \<in> S"
    then have "obj (memory c) a \<noteq> None"
      using assms(1) holds_live by (auto simp: shape_def live_handle_def)
    then show "live_handle (memory (set_links h c)) a \<and> kh (memory (set_links h c)) a = kh (memory c) a"
      using assms(6) by (auto simp: live_handle_def kh_def)
  qed simp
  moreover have "obj (memory c) (lru_head c) = None" "obj (memory c) (in_use_head c) = None"
    using assms(1) unfolding shape_def by blast+
  then have "lru_head c \<notin> set us'" "in_use_head c \<notin> set ls'" using assms(4) by (metis UnCI)+
  ultimately show ?thesis using assms unfolding shape_def by auto
qed

lemma LRU_Remove_eq:
  assumes "shape c us ls S" "x \<in> set us \<union> set ls"
  shows "LRU_Remove x c = Inr (set_links (cut x (lnk c)) c)"
proof -
  obtain a xs where ax: "circ (lnk c) a xs" "x \<in> set xs" "set (a # xs) \<subseteq> set (in_use_head c # us) \<union> set (lru_head c # ls)"
    using assms by (auto simp: shape_def)
  note nb = circ_neighbours[OF ax(1,2)]
  have ok: "list_node_ok p c = Inr ()" if "p \<in> set (a # xs)" for p
    using that ax(3) by (intro list_node_ok_shape[OF assms(1)]) (rule subsetD)
  have "list_node_ok x c = Inr ()" "list_node_ok (next_of (lnk c) x) c = Inr ()" "list_node_ok (prev_of (lnk c) x) c = Inr ()"
    using nb ax(2) by (intro ok; simp)+
  moreover have "next_of (lnk c) x \<noteq> x" using nb by auto
  ultimately show ?thesis by (auto simp: LRU_Remove_def Let_def cut_def intro!: arg_cong[of _ _ "\<lambda>h. set_links h c"])
qed

lemma LRU_Append_eq:
  assumes "shape c us ls S" "obj (memory c) x \<noteq> None" "a = in_use_head c \<or> a = lru_head c"
    and "x \<notin> set us \<union> set ls"
  shows "LRU_Append a x c = Inr (set_links (tie a x (lnk c)) c)"
proof -
  obtain xs where ax: "circ (lnk c) a xs" "set (a # xs) \<subseteq> set (in_use_head c # us) \<union> set (lru_head c # ls)"
    using assms by (auto simp: shape_def)
  have "prev_of (lnk c) a \<in> set (a # xs)"
    using ax(1) linked_ends(2)[of "lnk c" a xs a] by (auto simp: circ_def split: if_splits)
  then have "list_node_ok a c = Inr ()" "list_node_ok (prev_of (lnk c) a) c = Inr ()"
    using ax(2) by (intro list_node_ok_shape[OF assms(1)]; auto)+
  moreover have "list_node_ok x c = Inr ()" using assms(2) by (simp add: list_node_ok_def)
  moreover have "x \<noteq> a" using assms by (auto simp: shape_def)
  moreover from this have "x \<noteq> prev_of (lnk c) a" using \<open>prev_of (lnk c) a \<in> set (a # xs)\<close> ax(2) assms(1-4)
    by (auto simp: shape_def)
  ultimately show ?thesis
    by (auto simp: LRU_Append_def Let_def tie_def intro!: arg_cong[of _ _ "\<lambda>h. set_links h c"])
qed

lemma shape_disjoint:
  assumes "shape c us ls S"
  shows "set us \<inter> set ls = {}" "distinct us" "distinct ls" "in_use_head c \<notin> set us" "lru_head c \<notin> set ls"
  using assms by (auto simp: shape_def circ_def)

lemma cut_next: "next_of (cut x h) a = (if a = prev_of h x then next_of h x else next_of h a)"
  by (simp add: cut_def)

text \<open>Unlinking and relinking an entry, as far as the two lists are concerned.\<close>

lemma shape_cut:
  assumes "shape c us ls S" "x \<in> set us \<union> set ls"
  shows "shape (set_links (cut x (lnk c)) c) (remove1 x us) (remove1 x ls) S"
proof -
  note d = shape_disjoint[OF assms(1)]
  have c: "circ (lnk c) (in_use_head c) us" "circ (lnk c) (lru_head c) ls"
    "set (in_use_head c # us) \<inter> set (lru_head c # ls) = {}"
    using assms(1) by (auto simp: shape_def)
  have c': "circ (cut x (lnk c)) (in_use_head c) (remove1 x us)" "circ (cut x (lnk c)) (lru_head c) (remove1 x ls)"
  proof -
    consider "x \<in> set us" "x \<notin> set ls" | "x \<in> set ls" "x \<notin> set us" using assms(2) d(1) by blast
    then show "circ (cut x (lnk c)) (in_use_head c) (remove1 x us)" "circ (cut x (lnk c)) (lru_head c) (remove1 x ls)"
      using circ_cut circ_cut_frame c by (cases; fastforce simp: remove1_idem)+
  qed
  have "next_of (cut x (lnk c)) a \<noteq> a" if "obj (memory c) a \<noteq> None" for a
  proof (cases "a = prev_of (lnk c) x")
    case True
    have "prev_of (lnk c) x \<in> set (in_use_head c # us) \<union> set (lru_head c # ls) - {x}"
      using assms(2) circ_neighbours(2)[OF c(1)] circ_neighbours(2)[OF c(2)] by blast
    moreover have "a \<noteq> in_use_head c" "a \<noteq> lru_head c" using that assms(1) by (auto simp: shape_def)
    ultimately have "a \<in> set (remove1 x us) \<union> set (remove1 x ls)" using True d by auto
    then show ?thesis using circ_self c' by blast
  next
    case False
    then show ?thesis using that assms(1) by (auto simp: cut_next shape_def)
  qed
  then show ?thesis using assms(1) d
    by (intro shape_links[OF assms(1) c']) (auto simp: shape_def)
qed

lemma shape_tie:
  assumes "shape c us ls S" "obj (memory c) x \<noteq> None" "x \<notin> set us \<union> set ls"
  shows "shape (set_links (tie (in_use_head c) x (lnk c)) c) (us @ [x]) ls S"
    and "shape (set_links (tie (lru_head c) x (lnk c)) c) us (ls @ [x]) S"
proof -
  have c: "circ (lnk c) (in_use_head c) us" "circ (lnk c) (lru_head c) ls"
    "set (in_use_head c # us) \<inter> set (lru_head c # ls) = {}" "set (lru_head c # ls) \<inter> set (in_use_head c # us) = {}"
    and x: "x \<noteq> 0" "x \<noteq> in_use_head c" "x \<noteq> lru_head c"
    using assms by (auto simp: shape_def)
  have n: "next_of (tie h x (lnk c)) a \<noteq> a" if "obj (memory c) a \<noteq> None" "h = in_use_head c \<or> h = lru_head c" for a h
  proof -
    have "a \<noteq> h" "next_of (lnk c) a \<noteq> a" "x \<noteq> h" using that assms(1) x by (auto simp: shape_def)
    then show ?thesis using that x assms
      by (auto simp: tie_def shape_def circ_def dest!: linked_ends(2) split: if_splits)
  qed
  show "shape (set_links (tie (in_use_head c) x (lnk c)) c) (us @ [x]) ls S"
    using assms c x n circ_tie[OF c(1), of x] circ_tie_frame[OF c(1,2,3), of x]
    by (intro shape_links[OF assms(1)]) (auto simp: shape_def)
  show "shape (set_links (tie (lru_head c) x (lnk c)) c) us (ls @ [x]) S"
    using assms c x n circ_tie[OF c(2), of x] circ_tie_frame[OF c(2,1,4), of x]
    by (intro shape_links[OF assms(1)]) (auto simp: shape_def)
qed

lemma shape_fields [simp]:
  "shape (c\<lparr>usage := u\<rparr>) us ls S = shape c us ls S" "shape (c\<lparr>deleted := d\<rparr>) us ls S = shape c us ls S"
  "shape (c\<lparr>capacity := n\<rparr>) us ls S = shape c us ls S"
  by (simp_all add: shape_def)

lemma shape_put:
  assumes "shape c us ls S" "obj (memory c) a = Some r" "e_hash r' = e_hash r" "e_key r' = e_key r"
  shows "shape (put_handle a (Some r') c) us ls S"
proof -
  have "holds_handles (memory (put_handle a (Some r') c), table c) S"
  proof (rule holds_handles_cong)
    show h: "holds_handles (memory c, table c) S" using assms(1) by (simp add: shape_def)
    fix b assume "b \<in> S"
    then have "live_handle (memory c) b" using holds_live[OF h] by blast
    then show "live_handle (memory (put_handle a (Some r') c)) b
        \<and> kh (memory (put_handle a (Some r') c)) b = kh (memory c) b"
      using assms(2-4) by (auto simp: live_handle_def kh_def)
  qed simp
  then show ?thesis using assms(1,2) by (auto simp: shape_def)
qed

lemma shape_free:
  assumes "shape c us ls S" "a \<notin> set us \<union> set ls \<union> S"
  shows "shape (put_handle a None c) us ls S"
proof -
  have "holds_handles (memory (put_handle a None c), table c) S"
  proof (rule holds_handles_cong)
    show h: "holds_handles (memory c, table c) S" using assms(1) by (simp add: shape_def)
    fix b assume b: "b \<in> S"
    then have "live_handle (memory c) b" using holds_live[OF h] by blast
    then show "live_handle (memory (put_handle a None c)) b \<and> kh (memory (put_handle a None c)) b = kh (memory c) b"
      using assms(2) b by (auto simp: live_handle_def kh_def)
  qed simp
  then show ?thesis using assms by (auto simp: shape_def)
qed

text \<open>A fresh handle, with its \<open>next\<close> field initialised.\<close>

lemma shape_alloc:
  assumes "shape c us ls S" "obj (memory c) a = None" "a \<noteq> 0" "a \<noteq> lru_head c" "a \<noteq> in_use_head c"
  shows "shape (set_links ((lnk c)\<lparr>next_of := (next_of (lnk c))(a := 0)\<rparr>) (put_handle a (Some r) c)) us ls S"
    (is "shape ?c us ls S")
proof -
  have "\<forall>b \<in> set us \<union> set ls. obj (memory c) b \<noteq> None" "holds_handles (memory c, table c) S"
    using assms(1) unfolding shape_def by blast+
  then have n: "a \<notin> set us \<union> set ls" "a \<notin> S"
    using assms(2) holds_live[of "memory c" "table c" S a] unfolding live_handle_def by metis+
  have "holds_handles (memory ?c, table c) S"
  proof (rule holds_handles_cong)
    show h: "holds_handles (memory c, table c) S" using assms(1) by (simp add: shape_def)
    fix b assume b: "b \<in> S"
    then have "live_handle (memory c) b" using holds_live[OF h] by blast
    then show "live_handle (memory ?c) b \<and> kh (memory ?c) b = kh (memory c) b"
      using n(2) b by (auto simp: live_handle_def kh_def)
  qed simp
  moreover have "circ (lnk ?c) (in_use_head c) us" "circ (lnk ?c) (lru_head c) ls"
    using assms n by (auto simp: shape_def intro!: circ_frame[of "lnk c"])
  ultimately show ?thesis using assms n unfolding shape_def by auto
qed

lemma LRU_Append_fresh:
  "LRU_Append l a (set_links ((lnk c)\<lparr>next_of := (next_of (lnk c))(a := 0)\<rparr>) c) = LRU_Append l a c"
  by (simp add: LRU_Append_def Let_def)

end
