(* ===== verification/LruCache.thy ===== *)
theory LruCache
  imports LruShape Hashing
begin

text \<open>
  The LRU cache of \<^verbatim>\<open>util/cache.cc\<close> against an abstract cache without pointers and
  counters, which says what is cached, what is evicted and when an entry is
  deleted; and \<open>ShardedLRUCache\<close>, which distributes the keys over sixteen shards.
\<close>

section \<open>The abstract cache\<close>

record acache =
  a_cap :: u64
  a_ent :: "nat \<Rightarrow> entry option"
  a_refs :: "nat \<Rightarrow> nat"
  a_cached :: "nat list"
  a_lru :: "nat list"
  a_log :: "(nat \<times> entry) list"

definition a_charge :: "acache \<Rightarrow> nat \<Rightarrow> u64" where
  "a_charge s a = (case a_ent s a of None \<Rightarrow> 0 | Some e \<Rightarrow> e_charge e)"

definition a_usage :: "acache \<Rightarrow> u64" where
  "a_usage s = sum_list (map (a_charge s) (a_cached s))"

definition a_find :: "bytes \<Rightarrow> u32 \<Rightarrow> acache \<Rightarrow> nat option" where
  "a_find key hash s =
     find (\<lambda>a. case a_ent s a of None \<Rightarrow> False | Some e \<Rightarrow> e_hash e = hash \<and> e_key e = key) (a_cached s)"

text \<open>An entry that is neither cached nor held is deleted.\<close>

definition a_delete :: "nat \<Rightarrow> acache \<Rightarrow> acache" where
  "a_delete a s = s\<lparr>a_ent := (a_ent s)(a := None), a_log := a_log s @ [(a, the (a_ent s a))]\<rparr>"

definition a_uncache :: "nat \<Rightarrow> acache \<Rightarrow> acache" where
  "a_uncache a s =
     (let s' = s\<lparr>a_cached := remove1 a (a_cached s), a_lru := remove1 a (a_lru s)\<rparr>
      in if a_refs s a = 0 then a_delete a s' else s')"

definition a_hold :: "nat \<Rightarrow> acache \<Rightarrow> acache" where
  "a_hold a s = s\<lparr>a_refs := (a_refs s)(a := a_refs s a + 1), a_lru := remove1 a (a_lru s)\<rparr>"

definition a_lookup :: "bytes \<Rightarrow> u32 \<Rightarrow> acache \<Rightarrow> nat \<times> acache" where
  "a_lookup key hash s =
     (case a_find key hash s of None \<Rightarrow> (0, s)
      | Some a \<Rightarrow> (a, a_hold a s))"

definition a_release :: "nat \<Rightarrow> acache \<Rightarrow> acache" where
  "a_release a s =
     (let s' = s\<lparr>a_refs := (a_refs s)(a := a_refs s a - 1)\<rparr>
      in if a_refs s a = 1
         then if a \<in> set (a_cached s) then s'\<lparr>a_lru := a_lru s @ [a]\<rparr> else a_delete a s'
         else s')"

definition a_erase :: "bytes \<Rightarrow> u32 \<Rightarrow> acache \<Rightarrow> acache" where
  "a_erase key hash s = (case a_find key hash s of None \<Rightarrow> s | Some a \<Rightarrow> a_uncache a s)"

text \<open>Eviction removes the entries nobody holds, least recently used first, until the charges fit.\<close>

function a_evict :: "acache \<Rightarrow> acache" where
  "a_evict s =
     (if a_usage s > a_cap s \<and> a_lru s \<noteq> [] then a_evict (a_uncache (hd (a_lru s)) s) else s)"
  by auto
termination
  by (relation "measure (\<lambda>s. length (a_lru s))")
     (auto simp: a_uncache_def a_delete_def Let_def neq_Nil_conv)

declare a_evict.simps [simp del]

text \<open>A new entry, before the old entry of its key leaves the cache.\<close>

definition a_add :: "nat \<Rightarrow> entry \<Rightarrow> bool \<Rightarrow> acache \<Rightarrow> acache" where
  "a_add a e keep s =
     s\<lparr>a_ent := (a_ent s)(a \<mapsto> e), a_refs := (a_refs s)(a := 1),
       a_cached := (if keep then a_cached s @ [a] else a_cached s)\<rparr>"

definition a_insert :: "nat \<Rightarrow> entry \<Rightarrow> acache \<Rightarrow> acache" where
  "a_insert a e s = a_evict (if a_cap s > 0
     then case a_find (e_key e) (e_hash e) s of None \<Rightarrow> a_add a e True s | Some old \<Rightarrow> a_uncache old (a_add a e True s)
     else a_add a e False s)"

fun a_prune :: "nat list \<Rightarrow> acache \<Rightarrow> acache" where
  "a_prune [] s = s"
| "a_prune (a # as) s = a_prune as (a_uncache a s)"

section \<open>Representation of the abstract cache\<close>

definition a_inv :: "acache \<Rightarrow> bool" where
  "a_inv s \<longleftrightarrow> distinct (a_cached s) \<and> distinct (a_lru s)
     \<and> set (a_lru s) = {a \<in> set (a_cached s). a_refs s a = 0}
     \<and> (\<forall>a. a_ent s a \<noteq> None \<longleftrightarrow> a \<in> set (a_cached s) \<or> a_refs s a > 0)
     \<and> (\<forall>a. a_refs s a < 2 ^ 32 - 1)"

definition handle_of :: "acache \<Rightarrow> nat \<Rightarrow> entry \<Rightarrow> LRUHandle" where
  "handle_of s a e =
     \<lparr>e_key = e_key e, e_hash = e_hash e, e_value = e_value e, e_deleter = e_deleter e, e_charge = e_charge e,
      in_cache = a \<in> set (a_cached s),
      refs = word_of_nat (if a \<in> set (a_cached s) then a_refs s a + 1 else a_refs s a)\<rparr>"

definition objs :: "acache \<Rightarrow> nat \<Rightarrow> LRUHandle option" where
  "objs s a = map_option (handle_of s a) (a_ent s a)"

definition heads :: "LRUCache \<Rightarrow> nat \<times> nat" where
  "heads c = (lru_head c, in_use_head c)"

lemma heads_simps [simp]:
  "heads (set_links h c) = heads c" "heads (put_handle a v c) = heads c" "heads (set_table st c) = heads c"
  "heads (c\<lparr>usage := n\<rparr>) = heads c" "heads (c\<lparr>deleted := d\<rparr>) = heads c"
  by (simp_all add: heads_def set_table_def)

definition rep :: "nat \<times> nat \<Rightarrow> LRUCache \<Rightarrow> acache \<Rightarrow> nat set \<Rightarrow> bool" where
  "rep H c s S \<longleftrightarrow> heads c = H \<and> a_inv s \<and> obj (memory c) = objs s \<and> capacity c = a_cap s \<and> usage c = a_usage s
     \<and> deleted c = a_log s \<and> S \<subseteq> set (a_cached s)
     \<and> (\<exists>us. shape c us (a_lru s) S \<and> set us = {a \<in> set (a_cached s). a_refs s a > 0})"

lemma repI:
  assumes "heads c = H" "a_inv s" "obj (memory c) = objs s" "capacity c = a_cap s" "usage c = a_usage s"
    "deleted c = a_log s" "S \<subseteq> set (a_cached s)" "shape c us (a_lru s) S"
    "set us = {a \<in> set (a_cached s). a_refs s a > 0}"
  shows "rep H c s S"
  using assms unfolding rep_def by blast

lemma repE:
  assumes "rep H c s S"
  obtains us where "heads c = H" "a_inv s" "obj (memory c) = objs s" "capacity c = a_cap s" "usage c = a_usage s"
    "deleted c = a_log s" "S \<subseteq> set (a_cached s)" "shape c us (a_lru s) S"
    "set us = {a \<in> set (a_cached s). a_refs s a > 0}"
  using assms unfolding rep_def by blast

lemma refs_word:
  assumes "n < 2 ^ 32"
  shows "(word_of_nat n :: u32) = 0 \<longleftrightarrow> n = 0" "(word_of_nat n :: u32) = 1 \<longleftrightarrow> n = 1"
    "(word_of_nat n :: u32) = 2 \<longleftrightarrow> n = 2"
proof -
  have u: "unat (word_of_nat n :: u32) = n" using assms by (simp add: unsigned_of_nat take_bit_nat_eq_self)
  show "(word_of_nat n :: u32) = 0 \<longleftrightarrow> n = 0" "(word_of_nat n :: u32) = 1 \<longleftrightarrow> n = 1"
    "(word_of_nat n :: u32) = 2 \<longleftrightarrow> n = 2"
    unfolding word_unat_eq_iff u by simp_all
qed

lemma refs_dec: "0 < n \<Longrightarrow> (word_of_nat n :: u32) - 1 = word_of_nat (n - 1)"
  by (cases n) auto

lemma rep_obj:
  assumes "rep H c s S" "a_ent s a = Some e"
  shows "obj (memory c) a = Some (handle_of s a e)" "next_of (lnk c) a \<noteq> a" "a \<noteq> 0"
proof -
  show o: "obj (memory c) a = Some (handle_of s a e)" using assms by (simp add: rep_def objs_def)
  obtain us where "shape c us (a_lru s) S" using assms(1) unfolding rep_def by blast
  then show "next_of (lnk c) a \<noteq> a" "a \<noteq> 0" using o unfolding shape_def by (metis option.distinct(1))+
qed

lemma Unref_delete:
  assumes "obj (memory c) a = Some r" "refs r = 1" "\<not> in_cache r" "next_of (lnk c) a \<noteq> a"
  shows "Unref a c = Inr ((put_handle a None c)\<lparr>deleted := deleted c @ [(a, entry.truncate r)]\<rparr>)"
  using assms by (simp add: Unref_def handle_def handle_key_def Let_def put_handle_def entry.truncate_def)

lemma Unref_keep:
  assumes "obj (memory c) a = Some r" "refs r \<noteq> 0" "refs r \<noteq> 1" "in_cache r \<longrightarrow> refs r \<noteq> 2"
  shows "Unref a c = Inr (put_handle a (Some (r\<lparr>refs := refs r - 1\<rparr>)) c)"
  using assms by (auto simp: Unref_def handle_def Let_def word_gt_0 eq_diff_eq diff_eq_eq)

lemma Unref_idle:
  assumes "obj (memory c) a = Some r" "refs r = 2" "in_cache r" "shape c us ls S" "a \<in> set us"
  shows "\<exists>c'. Unref a c = Inr c' \<and> shape c' (remove1 a us) (ls @ [a]) S
    \<and> obj (memory c') = (obj (memory c))(a \<mapsto> r\<lparr>refs := 1\<rparr>) \<and> capacity c' = capacity c \<and> usage c' = usage c
    \<and> deleted c' = deleted c \<and> heads c' = heads c"
proof -
  let ?c = "put_handle a (Some (r\<lparr>refs := 1\<rparr>)) c"
  have s1: "shape ?c us ls S" using shape_put[OF assms(4,1)] by simp
  let ?d = "set_links (cut a (lnk ?c)) ?c"
  have al: "a \<notin> set ls" "distinct us" using shape_disjoint[OF assms(4)] assms(5) by auto
  have s2: "shape ?d (remove1 a us) ls S"
    using shape_cut[OF s1, of a] assms(5) al by (simp add: remove1_idem)
  have o: "obj (memory ?d) a \<noteq> None" "a \<notin> set (remove1 a us) \<union> set ls" using al by auto
  have "Unref a c = bind_run (LRU_Remove a ?c) (LRU_Append (lru_head c) a)"
    using assms(1-3) by (simp add: Unref_def handle_def Let_def)
  also have "\<dots> = Inr (set_links (tie (lru_head c) a (lnk ?d)) ?d)"
    using LRU_Remove_eq[OF s1] assms(5) LRU_Append_eq[OF s2 o(1) _ o(2), of "lru_head c"] by simp
  finally show ?thesis using shape_tie(2)[OF s2 o] by auto
qed

lemma a_invD:
  assumes "a_inv s"
  shows "distinct (a_cached s)" "distinct (a_lru s)" "set (a_lru s) = {a \<in> set (a_cached s). a_refs s a = 0}"
    "a_ent s a \<noteq> None \<longleftrightarrow> a \<in> set (a_cached s) \<or> a_refs s a > 0" "a_refs s a < 2 ^ 32 - 1"
  using assms unfolding a_inv_def by simp_all

lemma a_inv_release:
  assumes "a_inv s" "a_refs s a > 0"
  shows "a_inv (a_release a s)"
  unfolding a_inv_def
proof (intro conjI allI)
  note i = a_invD[OF assms(1)]
  have n: "a \<notin> set (a_lru s)" using i(3) assms(2) by auto
  show "distinct (a_cached (a_release a s))" using i(1) by (simp add: a_release_def a_delete_def Let_def)
  show "distinct (a_lru (a_release a s))" using i(2) n by (simp add: a_release_def a_delete_def Let_def)
  show "set (a_lru (a_release a s)) = {b \<in> set (a_cached (a_release a s)). a_refs (a_release a s) b = 0}"
    using i(3) assms(2) by (auto simp: a_release_def a_delete_def Let_def)
  fix b
  show "a_refs (a_release a s) b < 2 ^ 32 - 1" using i(5)[of b] by (auto simp: a_release_def a_delete_def Let_def)
  show "a_ent (a_release a s) b \<noteq> None \<longleftrightarrow> b \<in> set (a_cached (a_release a s)) \<or> a_refs (a_release a s) b > 0"
    using i(4)[of b] assms(2) by (auto simp: a_release_def a_delete_def Let_def)
qed

lemma sum_charge_cong:
  "(\<And>a. a \<in> set xs \<Longrightarrow> a_ent s' a = a_ent s a) \<Longrightarrow> sum_list (map (a_charge s') xs) = sum_list (map (a_charge s) xs)"
  by (rule arg_cong[of _ _ sum_list]) (auto simp: a_charge_def)

lemma a_usage_cong: "a_cached s' = a_cached s \<Longrightarrow> (\<And>a. a \<in> set (a_cached s) \<Longrightarrow> a_ent s' a = a_ent s a) \<Longrightarrow> a_usage s' = a_usage s"
  unfolding a_usage_def using sum_charge_cong by metis

lemma objs_upd:
  assumes "\<And>b. b \<noteq> a \<Longrightarrow> a_ent s' b = a_ent s b \<and> a_refs s' b = a_refs s b \<and> (b \<in> set (a_cached s') \<longleftrightarrow> b \<in> set (a_cached s))"
  shows "objs s' = (objs s)(a := objs s' a)"
  using assms by (auto simp: fun_eq_iff objs_def handle_of_def intro!: map_option_cong)

lemma rep_release:
  assumes "rep H c s S" "a_refs s a > 0"
  shows "\<exists>c'. LRU_Release a c = Inr c' \<and> rep H c' (a_release a s) S"
proof -
  obtain us where i: "a_inv s" "obj (memory c) = objs s" "heads c = H" "capacity c = a_cap s" "usage c = a_usage s"
    "deleted c = a_log s" "S \<subseteq> set (a_cached s)"
    and us: "shape c us (a_lru s) S" "set us = {a \<in> set (a_cached s). a_refs s a > 0}"
    using assms(1) by (rule repE)
  obtain e where e: "a_ent s a = Some e" using a_invD(4)[OF i(1), of a] assms(2) by auto
  note o = rep_obj[OF assms(1) e]
  have b: "a_refs s a + 1 < 2 ^ 32" using a_invD(5)[OF i(1), of a] by simp
  have iv: "a_inv (a_release a s)" using a_inv_release[OF i(1) assms(2)] .
  let ?s = "a_release a s"
  have up: "objs ?s = (objs s)(a := objs ?s a)"
    by (rule objs_upd) (auto simp: a_release_def a_delete_def Let_def)
  have ug: "a_usage ?s = a_usage s"
    by (rule a_usage_cong) (auto simp: a_release_def a_delete_def Let_def)
  have cp: "a_cap ?s = a_cap s" by (simp add: a_release_def a_delete_def Let_def)
  let ?r = "handle_of s a e"
  have al: "a \<notin> set (a_lru s)" using a_invD(3)[OF i(1)] assms(2) by auto
  consider (del) "a \<notin> set (a_cached s)" "a_refs s a = 1" | (idle) "a \<in> set (a_cached s)" "a_refs s a = 1"
    | (keep) "a_refs s a \<noteq> 1" by blast
  then show ?thesis
  proof cases
    case del
    let ?c = "(put_handle a None c)\<lparr>deleted := deleted c @ [(a, entry.truncate ?r)]\<rparr>"
    have u: "Unref a c = Inr ?c"
      using del by (intro Unref_delete[OF o(1)] o(2)) (simp_all add: handle_of_def)
    moreover have "shape (put_handle a None c) us (a_lru s) S"
      using del us i(7) al by (intro shape_free) auto
    moreover have "entry.truncate ?r = e" by (simp add: handle_of_def entry.truncate_def)
    moreover have "set us = {b \<in> set (a_cached ?s). a_refs ?s b > 0}"
      using us(2) del by (auto simp: a_release_def a_delete_def Let_def)
    moreover have "obj (memory ?c) = objs ?s"
      using i(2) del by (subst up) (simp add: objs_def a_release_def a_delete_def Let_def)
    moreover have "a_lru ?s = a_lru s" "a_log ?s = a_log s @ [(a, e)]" "a_cached ?s = a_cached s"
      using del e by (simp_all add: a_release_def a_delete_def Let_def)
    ultimately have "rep H ?c ?s S" using i iv ug cp by (intro repI[where us=us]) simp_all
    then show ?thesis using u by (simp add: LRU_Release_def)
  next
    case idle
    then have "refs ?r = 2" "in_cache ?r" "a \<in> set us" using us(2) by (auto simp: handle_of_def)
    then obtain c' where c': "Unref a c = Inr c'" "shape c' (remove1 a us) (a_lru s @ [a]) S"
      "obj (memory c') = (obj (memory c))(a \<mapsto> ?r\<lparr>refs := 1\<rparr>)" "capacity c' = capacity c" "usage c' = usage c"
      "deleted c' = deleted c" "heads c' = heads c" using Unref_idle[OF o(1) _ _ us(1)] by blast
    have "obj (memory c') = objs ?s"
      using c'(3) i(2) idle e by (subst up) (simp add: objs_def a_release_def Let_def handle_of_def)
    moreover have "set (remove1 a us) = {b \<in> set (a_cached ?s). a_refs ?s b > 0}"
      using us(2) idle shape_disjoint(2)[OF us(1)] by (auto simp: a_release_def Let_def)
    moreover have "a_lru ?s = a_lru s @ [a]" "a_log ?s = a_log s" "a_cached ?s = a_cached s"
      using idle by (simp_all add: a_release_def Let_def)
    ultimately have "rep H c' ?s S" using c' i iv ug cp by (intro repI[where us="remove1 a us"]) simp_all
    then show ?thesis using c'(1) by (simp add: LRU_Release_def)
  next
    case keep
    let ?c = "put_handle a (Some (?r\<lparr>refs := refs ?r - 1\<rparr>)) c"
    have u: "Unref a c = Inr ?c"
      using b keep assms(2) refs_word[of "a_refs s a"] refs_word[of "a_refs s a + 1"]
      by (intro Unref_keep[OF o(1)]) (auto simp: handle_of_def)
    moreover have "shape ?c us (a_lru s) S" using shape_put[OF us(1) o(1)] by simp
    moreover have "obj (memory ?c) = objs ?s"
      using keep assms(2) i(2) e refs_dec[of "a_refs s a"]
      by (subst up) (auto simp: objs_def a_release_def Let_def handle_of_def)
    moreover have "set us = {b \<in> set (a_cached ?s). a_refs ?s b > 0}"
      using us(2) keep assms(2) by (auto simp: a_release_def Let_def)
    moreover have "a_lru ?s = a_lru s" "a_log ?s = a_log s" "a_cached ?s = a_cached s"
      using keep by (simp_all add: a_release_def Let_def)
    ultimately have "rep H ?c ?s S" using i iv ug cp by (intro repI[where us=us]) simp_all
    then show ?thesis using u by (simp add: LRU_Release_def)
  qed
qed

lemma a_uncache_simps [simp]:
  "a_cached (a_uncache a s) = remove1 a (a_cached s)" "a_lru (a_uncache a s) = remove1 a (a_lru s)"
  "a_refs (a_uncache a s) = a_refs s" "a_cap (a_uncache a s) = a_cap s"
  "a_ent (a_uncache a s) = (if a_refs s a = 0 then (a_ent s)(a := None) else a_ent s)"
  by (simp_all add: a_uncache_def a_delete_def Let_def)

lemma a_inv_uncache:
  assumes "a_inv s" "a \<in> set (a_cached s)"
  shows "a_inv (a_uncache a s)"
  unfolding a_inv_def
proof (intro conjI allI)
  note i = a_invD[OF assms(1)]
  show "distinct (a_cached (a_uncache a s))" "distinct (a_lru (a_uncache a s))" using i(1,2) by simp_all
  show "set (a_lru (a_uncache a s)) = {b \<in> set (a_cached (a_uncache a s)). a_refs (a_uncache a s) b = 0}"
    using i(1-3) by auto
  fix b
  show "a_refs (a_uncache a s) b < 2 ^ 32 - 1" using i(5) by simp
  show "a_ent (a_uncache a s) b \<noteq> None \<longleftrightarrow> b \<in> set (a_cached (a_uncache a s)) \<or> a_refs (a_uncache a s) b > 0"
    using i(1) i(4)[of b] by auto
qed

lemma a_usage_uncache:
  assumes "a_inv s" "a \<in> set (a_cached s)" "a_ent s a = Some e"
  shows "a_usage (a_uncache a s) = a_usage s - e_charge e"
proof -
  have "a \<notin> set (remove1 a (a_cached s))" using a_invD(1)[OF assms(1)] by simp
  then have "sum_list (map (a_charge (a_uncache a s)) (remove1 a (a_cached s)))
      = sum_list (map (a_charge s) (remove1 a (a_cached s)))"
    by (intro sum_charge_cong) auto
  then show ?thesis using sum_list_map_remove1[OF assms(2), of "a_charge s"] assms(3)
    by (simp add: a_usage_def) (simp add: a_charge_def)
qed

lemma rep_uncache:
  assumes "rep H c s S" "a \<in> set (a_cached s)" "a \<notin> S"
  shows "\<exists>c'. FinishErase a c = Inr (True, c') \<and> rep H c' (a_uncache a s) S"
proof -
  obtain us where i: "a_inv s" "obj (memory c) = objs s" "heads c = H" "capacity c = a_cap s" "usage c = a_usage s"
    "deleted c = a_log s" "S \<subseteq> set (a_cached s)"
    and us: "shape c us (a_lru s) S" "set us = {a \<in> set (a_cached s). a_refs s a > 0}"
    using assms(1) by (rule repE)
  obtain e where e: "a_ent s a = Some e" using a_invD(4)[OF i(1), of a] assms(2) by auto
  note o = rep_obj[OF assms(1) e] and d = a_invD[OF i(1)]
  let ?s = "a_uncache a s" and ?r = "handle_of s a e"
  define r where "r = ?r\<lparr>in_cache := False\<rparr>"
  define c1 where "c1 = (put_handle a (Some r) (set_links (cut a (lnk c)) c))\<lparr>usage := usage c - e_charge e\<rparr>"
  have al: "a \<in> set us \<union> set (a_lru s)" using us(2) d(3) assms(2) by auto
  have s0: "shape (set_links (cut a (lnk c)) c) (remove1 a us) (remove1 a (a_lru s)) S"
    using shape_cut[OF us(1) al] .
  have s1: "shape c1 (remove1 a us) (remove1 a (a_lru s)) S"
    using shape_put[OF s0, of a ?r r] o(1) by (simp add: c1_def r_def)
  have f: "FinishErase a c = bind_run (Unref a c1) (\<lambda>c. Inr (True, c))"
    using o LRU_Remove_eq[OF us(1) al] assms(2) by (simp add: FinishErase_def handle_def c1_def r_def handle_of_def)
  have c1: "obj (memory c1) = (objs s)(a \<mapsto> r)" "heads c1 = H" "capacity c1 = a_cap s" "deleted c1 = a_log s"
    "usage c1 = a_usage ?s" using i a_usage_uncache[OF i(1) assms(2) e] by (simp_all add: c1_def)
  have o1: "obj (memory c1) a = Some r" by (simp add: c1(1))
  have up: "objs ?s = (objs s)(a := objs ?s a)"
    by (rule objs_upd) (use d(1) in auto)
  have uset: "set (remove1 a us) = {b \<in> set (a_cached ?s). a_refs ?s b > 0}"
    using us(2) d(1) shape_disjoint(2)[OF us(1)] by auto
  have iv: "a_inv ?s" using a_inv_uncache[OF i(1) assms(2)] .
  have sub: "S \<subseteq> set (a_cached ?s)" using i(7) assms(3) d(1) by auto
  have n1: "next_of (lnk c1) a \<noteq> a" using s1 o1 unfolding shape_def by (metis option.distinct(1))
  show ?thesis
  proof (cases "a_refs s a = 0")
    case True
    let ?c = "(put_handle a None c1)\<lparr>deleted := deleted c1 @ [(a, entry.truncate r)]\<rparr>"
    have u: "Unref a c1 = Inr ?c"
      using True assms(2) by (intro Unref_delete[OF o1] n1) (simp_all add: r_def handle_of_def)
    have "shape (put_handle a None c1) (remove1 a us) (remove1 a (a_lru s)) S"
      using assms(3) d(2) shape_disjoint(2)[OF us(1)] by (intro shape_free[OF s1]) simp
    moreover have "entry.truncate r = e" by (simp add: r_def handle_of_def entry.truncate_def)
    moreover have "obj (memory ?c) = objs ?s"
      using True by (subst up) (simp add: c1(1) objs_def)
    moreover have "a_log ?s = a_log s @ [(a, e)]" using True e by (simp add: a_uncache_def a_delete_def Let_def)
    ultimately have "rep H ?c ?s S"
      using iv c1 uset sub by (intro repI[where us="remove1 a us"]) simp_all
    then show ?thesis using u f by simp
  next
    case False
    let ?c = "put_handle a (Some (r\<lparr>refs := refs r - 1\<rparr>)) c1"
    have b: "a_refs s a + 1 < 2 ^ 32" using d(5)[of a] by simp
    have u: "Unref a c1 = Inr ?c"
      using b False assms(2) refs_word[of "a_refs s a + 1"]
      by (intro Unref_keep[OF o1]) (auto simp: r_def handle_of_def)
    have "shape ?c (remove1 a us) (remove1 a (a_lru s)) S" using shape_put[OF s1 o1] by simp
    moreover have "obj (memory ?c) = objs ?s"
      using False assms(2) d(1) e
      by (subst up) (simp add: c1(1) objs_def r_def handle_of_def)
    moreover have "a_log ?s = a_log s" using False by (simp add: a_uncache_def Let_def)
    ultimately have "rep H ?c ?s S"
      using iv c1 uset sub by (intro repI[where us="remove1 a us"]) simp_all
    then show ?thesis using u f by simp
  qed
qed

abbreviation reps :: "nat \<times> nat \<Rightarrow> LRUCache \<Rightarrow> acache \<Rightarrow> bool" where
  "reps H c s \<equiv> rep H c s (set (a_cached s))"

lemma rep_table:
  assumes "rep H c s S" "holds_handles st S'" "same_handles (memory c, table c) st" "S' \<subseteq> set (a_cached s)"
  shows "rep H (set_table st c) s S'"
proof -
  obtain us where i: "a_inv s" "obj (memory c) = objs s" "heads c = H" "capacity c = a_cap s" "usage c = a_usage s"
    "deleted c = a_log s" "S \<subseteq> set (a_cached s)"
    and us: "shape c us (a_lru s) S" "set us = {a \<in> set (a_cached s). a_refs s a > 0}"
    using assms(1) by (rule repE)
  have t: "links (fst st) = lnk c" "obj (fst st) = obj (memory c)" using assms(3) by (simp_all add: same_handles_def)
  have "shape (set_table st c) us (a_lru s) S'"
    using us(1) assms(2) t by (simp add: shape_def set_table_def)
  then show ?thesis using i us(2) assms(4) t by (intro repI[where us=us]) (simp_all, simp_all add: set_table_def)
qed

lemma rep_holds: "rep H c s S \<Longrightarrow> holds_handles (memory c, table c) S"
  unfolding rep_def shape_def by blast

lemma rep_kh:
  assumes "rep H c s S"
  shows "kh (memory c) a = map_option (\<lambda>e. (e_hash e, e_key e)) (a_ent s a)"
proof -
  have "obj (memory c) = objs s" using assms unfolding rep_def by blast
  then show ?thesis by (cases "a_ent s a") (simp_all add: kh_def objs_def handle_of_def)
qed

lemma a_find_Some:
  assumes "a_find key hash s = Some a"
  shows "a \<in> set (a_cached s)" "\<exists>e. a_ent s a = Some e \<and> e_hash e = hash \<and> e_key e = key"
  using assms by (auto simp: a_find_def find_Some_iff split: option.splits)

lemma a_find_None: "a_find key hash s = None \<Longrightarrow> a \<in> set (a_cached s) \<Longrightarrow> a_ent s a = Some e \<Longrightarrow> (e_hash e, e_key e) \<noteq> (hash, key)"
  by (fastforce simp: a_find_def find_None_iff)

definition found :: "nat option \<Rightarrow> nat" where
  "found r = (case r of None \<Rightarrow> 0 | Some a \<Rightarrow> a)"

lemma found_simps [simp]: "found None = 0" "found (Some a) = a"
  by (simp_all add: found_def)

lemma answers_find:
  assumes "reps H c s" "answers (kh (memory c)) (set (a_cached s)) (hash, key) a"
  shows "a = found (a_find key hash s)"
proof -
  have h: "holds_handles (memory c, table c) (set (a_cached s))" using rep_holds[OF assms(1)] .
  have "answers (kh (memory c)) (set (a_cached s)) (hash, key) (found (a_find key hash s))"
  proof (cases "a_find key hash s")
    case None
    then show ?thesis using a_find_None[OF None] by (auto simp: answers_def rep_kh[OF assms(1)])
  next
    case (Some b)
    then have "b \<in> set (a_cached s)" "kh (memory c) b = Some (hash, key)"
      using a_find_Some[OF Some] by (auto simp: rep_kh[OF assms(1)])
    then show ?thesis using Some handles.answer_found[OF h] by simp
  qed
  then show ?thesis using handles.answer_unique[OF h, of "(hash, key)" a] assms(2) by simp
qed

lemma rep_remove:
  assumes "reps H c s"
  shows "\<exists>st. Table_Remove key hash (memory c, table c) = Inr (found (a_find key hash s), st)
    \<and> rep H (set_table st c) s (set (a_cached s) - {found (a_find key hash s)})"
proof -
  obtain a st where st: "Table_Remove key hash (memory c, table c) = Inr (a, st)"
    "answers (kh (memory c)) (set (a_cached s)) (hash, key) a"
    "holds_handles st (set (a_cached s) - {a})" "same_handles (memory c, table c) st"
    using handles.unlink_ok[OF rep_holds[OF assms], of "(hash, key)"] by auto
  then show ?thesis using answers_find[OF assms st(2)] rep_table[OF assms st(3,4)] by auto
qed

lemma set_remove1_inv: "a_inv s \<Longrightarrow> set (remove1 a (a_cached s)) = set (a_cached s) - {a}"
  by (simp add: a_invD(1))

lemma rep_a_inv: "rep H c s S \<Longrightarrow> a_inv s"
  unfolding rep_def by blast

lemma rep_erase:
  assumes "reps H c s"
  shows "\<exists>c'. LRU_Erase key hash c = Inr c' \<and> reps H c' (a_erase key hash s)"
proof -
  obtain st where st: "Table_Remove key hash (memory c, table c) = Inr (found (a_find key hash s), st)"
    "rep H (set_table st c) s (set (a_cached s) - {found (a_find key hash s)})"
    using rep_remove[OF assms] by blast
  show ?thesis
  proof (cases "a_find key hash s")
    case None
    have "0 \<notin> set (a_cached s)" using handles.nonnull[OF rep_holds[OF assms]] .
    then show ?thesis using st None by (simp add: LRU_Erase_def FinishErase_def a_erase_def)
  next
    case (Some a)
    obtain c' where "FinishErase a (set_table st c) = Inr (True, c')"
      "rep H c' (a_uncache a s) (set (a_cached s) - {a})"
      using rep_uncache[of H "set_table st c" s "set (a_cached s) - {a}" a] st(2) a_find_Some(1)[OF Some] Some by auto
    then show ?thesis using st(1) Some set_remove1_inv[OF rep_a_inv[OF assms]]
      by (auto simp: LRU_Erase_def a_erase_def)
  qed
qed

lemma rep_lru_first: "rep H c s S \<Longrightarrow> next_of (lnk c) (lru_head c) = (case a_lru s of [] \<Rightarrow> lru_head c | x # _ \<Rightarrow> x)"
proof (erule repE)
  fix us assume "shape c us (a_lru s) S"
  then have "circ (lnk c) (lru_head c) (a_lru s)" unfolding shape_def by blast
  then show ?thesis by (rule circ_first)
qed

lemma rep_lru_empty: "rep H c s S \<Longrightarrow> lru_empty c \<longleftrightarrow> a_lru s = []"
proof -
  assume r: "rep H c s S"
  then obtain us where "shape c us (a_lru s) S" unfolding rep_def by blast
  from shape_disjoint(5)[OF this] show ?thesis
    by (auto simp: lru_empty_def rep_lru_first[OF r] split: list.splits)
qed

lemma rep_oldest:
  assumes "reps H c s" "a_lru s = a # ls"
  shows "\<exists>c'. erase_oldest c = Inr c' \<and> reps H c' (a_uncache a s)"
proof -
  have inv: "a_inv s" using rep_a_inv[OF assms(1)] .
  have a: "a \<in> set (a_cached s)" "a_refs s a = 0" using a_invD(3)[OF inv] assms(2) by auto
  obtain e where e: "a_ent s a = Some e" using a_invD(4)[OF inv, of a] a(1) by auto
  note o = rep_obj[OF assms(1) e]
  obtain st where st: "Table_Remove (e_key e) (e_hash e) (memory c, table c) = Inr (found (a_find (e_key e) (e_hash e) s), st)"
    "rep H (set_table st c) s (set (a_cached s) - {found (a_find (e_key e) (e_hash e) s)})"
    using rep_remove[OF assms(1)] by blast
  have f: "found (a_find (e_key e) (e_hash e) s) = a"
    using handles.answer_found[OF rep_holds[OF assms(1)] a(1)] answers_find[OF assms(1)] e
    by (simp add: rep_kh[OF assms(1)])
  obtain c' where c': "FinishErase a (set_table st c) = Inr (True, c')"
    "rep H c' (a_uncache a s) (set (a_cached s) - {a})"
    using rep_uncache[of H "set_table st c" s "set (a_cached s) - {a}" a] st(2) f a(1) by auto
  have "erase_oldest c = Inr c'"
    using rep_lru_first[OF assms(1)] assms(2) o st(1) f c'(1) a
    by (simp add: erase_oldest_def handle_def handle_key_def handle_of_def Let_def)
  then show ?thesis using c'(2) set_remove1_inv[OF inv] by auto
qed

lemma rep_evict: "reps H c s \<Longrightarrow> \<exists>c'. evict c = Some (Inr c') \<and> reps H c' (a_evict s)"
proof (induction s arbitrary: c rule: a_evict.induct)
  case (1 s)
  have eq: "usage c = a_usage s" "capacity c = a_cap s" using "1.prems" unfolding rep_def by blast+
  show ?case
  proof (cases "a_usage s > a_cap s \<and> a_lru s \<noteq> []")
    case True
    then obtain a ls where l: "a_lru s = a # ls" by (meson neq_Nil_conv)
    obtain c1 where "erase_oldest c = Inr c1" "reps H c1 (a_uncache a s)" using rep_oldest[OF "1.prems" l] by blast
    moreover have "a_evict s = a_evict (a_uncache a s)" using True l by (subst a_evict.simps) simp
    ultimately show ?thesis using "1.IH"[OF True, of c1] True l rep_lru_empty[OF "1.prems"] eq
      by (subst evict.simps) simp
  next
    case False
    then have "a_evict s = s" by (subst a_evict.simps) (simp only: if_False)
    then show ?thesis using False "1.prems" rep_lru_empty[OF "1.prems"] eq by (subst evict.simps) auto
  qed
qed

lemma rep_prune: "reps H c s \<Longrightarrow> \<exists>c'. LRU_Prune c = Inr c' \<and> reps H c' (a_prune (a_lru s) s)"
proof -
  have "reps H c s \<Longrightarrow> a_lru s = ls \<Longrightarrow> \<exists>c'. prune c = Some (Inr c') \<and> reps H c' (a_prune ls s)" for ls
  proof (induction ls arbitrary: c s)
    case Nil
    then show ?case using rep_lru_empty[OF Nil(1)] by (subst prune.simps) simp
  next
    case (Cons a ls)
    obtain c1 where c1: "erase_oldest c = Inr c1" "reps H c1 (a_uncache a s)" using rep_oldest[OF Cons.prems] by blast
    have "\<exists>c'. prune c1 = Some (Inr c') \<and> reps H c' (a_prune ls (a_uncache a s))"
      using Cons.prems(2) by (intro Cons.IH[OF c1(2)]) simp
    then show ?case using c1(1) rep_lru_empty[OF Cons.prems(1)] Cons.prems(2) by (subst prune.simps) simp
  qed
  then show "reps H c s \<Longrightarrow> \<exists>c'. LRU_Prune c = Inr c' \<and> reps H c' (a_prune (a_lru s) s)"
    by (fastforce simp: LRU_Prune_def returned_def)
qed

lemma a_inv_hold:
  assumes "a_inv s" "a \<in> set (a_cached s)" "a_refs s a < 2 ^ 32 - 2"
  shows "a_inv (a_hold a s)"
  unfolding a_inv_def
proof (intro conjI allI)
  note i = a_invD[OF assms(1)]
  show "distinct (a_cached (a_hold a s))" "distinct (a_lru (a_hold a s))"
    using i(1,2) by (simp_all add: a_hold_def)
  show "set (a_lru (a_hold a s)) = {b \<in> set (a_cached (a_hold a s)). a_refs (a_hold a s) b = 0}"
    using i(2,3) by (auto simp: a_hold_def)
  fix b
  show "a_refs (a_hold a s) b < 2 ^ 32 - 1" using i(5)[of b] assms(3) by (simp add: a_hold_def)
  show "a_ent (a_hold a s) b \<noteq> None \<longleftrightarrow> b \<in> set (a_cached (a_hold a s)) \<or> a_refs (a_hold a s) b > 0"
    using i(4)[of b] assms(2) by (auto simp: a_hold_def)
qed

text \<open>Taking a reference, for an entry on the LRU list and for one in use.\<close>

lemma Ref_idle:
  assumes "obj (memory c) a = Some r" "refs r = 1" "in_cache r" "shape c us ls S" "a \<in> set ls"
  shows "\<exists>c'. Ref a c = Inr c' \<and> shape c' (us @ [a]) (remove1 a ls) S
    \<and> obj (memory c') = (obj (memory c))(a \<mapsto> r\<lparr>refs := 2\<rparr>) \<and> capacity c' = capacity c \<and> usage c' = usage c
    \<and> deleted c' = deleted c \<and> heads c' = heads c"
proof -
  let ?d = "set_links (cut a (lnk c)) c"
  have al: "a \<notin> set us" "distinct ls" using shape_disjoint[OF assms(4)] assms(5) by auto
  have s2: "shape ?d us (remove1 a ls) S"
    using shape_cut[OF assms(4), of a] assms(5) al by (simp add: remove1_idem)
  have o: "obj (memory ?d) a \<noteq> None" "a \<notin> set us \<union> set (remove1 a ls)" using al assms(1) by auto
  let ?e = "set_links (tie (in_use_head c) a (lnk ?d)) ?d"
  have s3: "shape ?e (us @ [a]) (remove1 a ls) S" using shape_tie(1)[OF s2 o] by simp
  have "Ref a c = Inr (put_handle a (Some (r\<lparr>refs := 2\<rparr>)) ?e)"
    using assms(1-3,5) LRU_Remove_eq[OF assms(4)] LRU_Append_eq[OF s2 o(1) _ o(2), of "in_use_head c"]
    by (simp add: Ref_def handle_def)
  moreover have "shape (put_handle a (Some (r\<lparr>refs := 2\<rparr>)) ?e) (us @ [a]) (remove1 a ls) S"
    using shape_put[OF s3, of a r "r\<lparr>refs := 2\<rparr>"] assms(1) by simp
  ultimately show ?thesis by auto
qed

lemma Ref_shape:
  assumes "rep H c s S" "b \<in> set (a_cached s)" "a_ent s b = Some e" "r = handle_of s b e" "shape c us (a_lru s) S"
    and "set us = {a \<in> set (a_cached s). a_refs s a > 0}"
  shows "\<exists>c' us'. Ref b c = Inr c' \<and> shape c' us' (remove1 b (a_lru s)) S \<and> set us' = insert b (set us)
    \<and> obj (memory c') = (obj (memory c))(b \<mapsto> r\<lparr>refs := refs r + 1\<rparr>) \<and> capacity c' = capacity c
    \<and> usage c' = usage c \<and> deleted c' = deleted c \<and> heads c' = heads c"
proof -
  note o = rep_obj[OF assms(1,3)] and d = a_invD[OF rep_a_inv[OF assms(1)]]
  have rb: "refs r = word_of_nat (a_refs s b + 1)" "in_cache r" using assms(2,4) by (simp_all add: handle_of_def)
  have o1: "obj (memory c) b = Some r" using o(1) assms(4) by simp
  show ?thesis
  proof (cases "a_refs s b = 0")
    case True
    then have r1: "refs r = 1" "b \<in> set (a_lru s)" using rb d(3) assms(2) by auto
    then obtain c' where "Ref b c = Inr c'" "shape c' (us @ [b]) (remove1 b (a_lru s)) S"
      "obj (memory c') = (obj (memory c))(b \<mapsto> r\<lparr>refs := 2\<rparr>)" "capacity c' = capacity c" "usage c' = usage c"
      "deleted c' = deleted c" "heads c' = heads c"
      using Ref_idle[OF o1 _ rb(2) assms(5)] by blast
    then show ?thesis using r1(1) by (intro exI[of _ c'] exI[of _ "us @ [b]"]) auto
  next
    case False
    have lt: "a_refs s b + 1 < 2 ^ 32" using d(5)[of b] by simp
    have nl: "remove1 b (a_lru s) = a_lru s" using d(3) False by (auto intro: remove1_idem)
    have "Ref b c = Inr (put_handle b (Some (r\<lparr>refs := refs r + 1\<rparr>)) c)"
      using o1 False rb refs_word(2)[OF lt] by (simp add: Ref_def handle_def)
    moreover have "shape (put_handle b (Some (r\<lparr>refs := refs r + 1\<rparr>)) c) us (a_lru s) S"
      using shape_put[OF assms(5) o1] by simp
    moreover have "b \<in> set us" using assms(2,6) False by simp
    ultimately show ?thesis using nl
      by (intro exI[of _ "put_handle b (Some (r\<lparr>refs := refs r + 1\<rparr>)) c"] exI[of _ us]) auto
  qed
qed

lemma rep_hold:
  assumes "rep H c s S" "b \<in> set (a_cached s)" "a_refs s b < 2 ^ 32 - 2"
  shows "\<exists>c'. Ref b c = Inr c' \<and> rep H c' (a_hold b s) S"
proof -
  obtain us where i: "a_inv s" "obj (memory c) = objs s" "heads c = H" "capacity c = a_cap s" "usage c = a_usage s"
    "deleted c = a_log s" "S \<subseteq> set (a_cached s)"
    and us: "shape c us (a_lru s) S" "set us = {a \<in> set (a_cached s). a_refs s a > 0}"
    using assms(1) by (rule repE)
  obtain e where e: "a_ent s b = Some e" using a_invD(4)[OF i(1), of b] assms(2) by auto
  let ?s = "a_hold b s" and ?r = "handle_of s b e"
  have up: "objs ?s = (objs s)(b := objs ?s b)" by (rule objs_upd) (simp add: a_hold_def)
  have ug: "a_usage ?s = a_usage s" by (rule a_usage_cong) (simp_all add: a_hold_def)
  obtain c' us' where c': "Ref b c = Inr c'" "shape c' us' (remove1 b (a_lru s)) S" "set us' = insert b (set us)"
    "obj (memory c') = (obj (memory c))(b \<mapsto> ?r\<lparr>refs := refs ?r + 1\<rparr>)" "capacity c' = capacity c"
    "usage c' = usage c" "deleted c' = deleted c" "heads c' = heads c"
    using Ref_shape[OF assms(1,2) e refl us] by blast
  have ob: "obj (memory c') = objs ?s"
    unfolding c'(4) i(2) by (subst up) (use e assms(2) in \<open>simp add: objs_def a_hold_def handle_of_def\<close>)
  have "set us' = {a \<in> set (a_cached ?s). a_refs ?s a > 0}" using c'(3) us(2) assms(2) by (auto simp: a_hold_def)
  then have "rep H c' ?s S" using c'(2,5-8) i ug ob a_inv_hold[OF i(1) assms(2,3)]
    by (intro repI[where us=us']) (simp_all add: a_hold_def)
  then show ?thesis using c'(1) by blast
qed

lemma rep_lookup:
  assumes "reps H c s" "\<forall>a. a_refs s a < 2 ^ 32 - 2"
  shows "\<exists>c'. LRU_Lookup key hash c = Inr (fst (a_lookup key hash s), c') \<and> reps H c' (snd (a_lookup key hash s))"
proof -
  obtain a where a: "Table_Lookup key hash (memory c, table c) = Inr a"
    "answers (kh (memory c)) (set (a_cached s)) (hash, key) a"
    using handles.lookup_ok[OF rep_holds[OF assms(1)], of "(hash, key)"] by auto
  have af: "a = found (a_find key hash s)" using answers_find[OF assms(1) a(2)] .
  show ?thesis
  proof (cases "a_find key hash s")
    case None
    then show ?thesis using a(1) af assms(1) by (simp add: LRU_Lookup_def a_lookup_def)
  next
    case (Some b)
    then have b: "a = b" "b \<in> set (a_cached s)" using af a_find_Some(1)[OF Some] by simp_all
    then have "b \<noteq> 0" using handles.nonnull[OF rep_holds[OF assms(1)]] by metis
    moreover obtain c' where "Ref b c = Inr c'" "rep H c' (a_hold b s) (set (a_cached s))"
      using rep_hold[OF assms(1) b(2)] assms(2) by blast
    ultimately show ?thesis using a(1) b(1) Some by (simp add: LRU_Lookup_def a_lookup_def a_hold_def)
  qed
qed

lemma a_inv_fresh:
  assumes "a_inv s" "a_ent s a = None"
  shows "a \<notin> set (a_cached s)" "a_refs s a = 0" "a \<notin> set (a_lru s)"
  using a_invD(3)[OF assms(1)] a_invD(4)[OF assms(1), of a] assms(2) by auto

lemma a_inv_add:
  assumes "a_inv s" "a_ent s a = None"
  shows "a_inv (a_add a e keep s)"
  unfolding a_inv_def
proof (intro conjI allI)
  note i = a_invD[OF assms(1)] and f = a_inv_fresh[OF assms]
  show "distinct (a_cached (a_add a e keep s))" "distinct (a_lru (a_add a e keep s))"
    using i(1,2) f(1) by (simp_all add: a_add_def)
  show "set (a_lru (a_add a e keep s)) = {b \<in> set (a_cached (a_add a e keep s)). a_refs (a_add a e keep s) b = 0}"
    using i(3) f by (auto simp: a_add_def)
  fix b
  show "a_refs (a_add a e keep s) b < 2 ^ 32 - 1" using i(5)[of b] by (simp add: a_add_def)
  show "a_ent (a_add a e keep s) b \<noteq> None \<longleftrightarrow> b \<in> set (a_cached (a_add a e keep s)) \<or> a_refs (a_add a e keep s) b > 0"
    using i(4)[of b] f by (auto simp: a_add_def)
qed

lemma a_usage_add:
  assumes "a_inv s" "a_ent s a = None"
  shows "a_usage (a_add a e keep s) = (if keep then a_usage s + e_charge e else a_usage s)"
proof -
  have "sum_list (map (a_charge (a_add a e keep s)) (a_cached s)) = sum_list (map (a_charge s) (a_cached s))"
    using a_inv_fresh(1)[OF assms] by (intro sum_charge_cong) (auto simp: a_add_def)
  moreover have "a_charge (a_add a e keep s) a = e_charge e" by (simp add: a_charge_def a_add_def)
  moreover have "a_cached (a_add a e keep s) = (if keep then a_cached s @ [a] else a_cached s)" by (simp add: a_add_def)
  ultimately show ?thesis by (cases keep) (simp_all add: a_usage_def)
qed

lemma objs_add:
  assumes "a_inv s" "a_ent s a = None"
  shows "objs (a_add a e keep s) = (objs s)(a \<mapsto>
     \<lparr>e_key = e_key e, e_hash = e_hash e, e_value = e_value e, e_deleter = e_deleter e, e_charge = e_charge e,
      in_cache = keep, refs = if keep then 2 else 1\<rparr>)"
proof -
  note f = a_inv_fresh[OF assms]
  have "objs (a_add a e keep s) = (objs s)(a := objs (a_add a e keep s) a)"
    by (rule objs_upd) (auto simp: a_add_def)
  then show ?thesis using f by (simp add: objs_def handle_of_def a_add_def)
qed

lemma rep_fresh:
  assumes "rep (l, u) c s S" "a_ent s a = None" "a \<noteq> 0" "a \<noteq> l" "a \<noteq> u"
  shows "obj (memory c) a = None" "a \<noteq> lru_head c" "a \<noteq> in_use_head c"
  using assms unfolding rep_def by (auto simp: heads_def objs_def)

abbreviation new_handle :: "entry \<Rightarrow> bool \<Rightarrow> u32 \<Rightarrow> LRUHandle" where
  "new_handle e keep n \<equiv>
     \<lparr>e_key = e_key e, e_hash = e_hash e, e_value = e_value e, e_deleter = e_deleter e, e_charge = e_charge e,
      in_cache = keep, refs = n\<rparr>"

lemma rep_add_uncached:
  assumes "rep (l, u) c s S" "a_ent s a = None" "a \<noteq> 0" "a \<noteq> l" "a \<noteq> u"
  shows "rep (l, u) (set_links ((lnk c)\<lparr>next_of := (next_of (lnk c))(a := 0)\<rparr>) (put_handle a (Some (new_handle e False 1)) c))
     (a_add a e False s) S" (is "rep _ ?c ?s S")
proof -
  obtain us where i: "a_inv s" "obj (memory c) = objs s" "heads c = (l, u)" "capacity c = a_cap s" "usage c = a_usage s"
    "deleted c = a_log s" "S \<subseteq> set (a_cached s)"
    and us: "shape c us (a_lru s) S" "set us = {a \<in> set (a_cached s). a_refs s a > 0}"
    using assms(1) by (rule repE)
  note f = rep_fresh[OF assms] and g = a_inv_fresh[OF i(1) assms(2)]
  have "shape ?c us (a_lru s) S" using shape_alloc[OF us(1) f(1) assms(3) f(2,3)] .
  moreover have "set us = {a \<in> set (a_cached ?s). a_refs ?s a > 0}" using us(2) g by (auto simp: a_add_def)
  moreover have "obj (memory ?c) = objs ?s" using i(2) by (simp add: objs_add[OF i(1) assms(2)])
  ultimately show ?thesis
    using i a_inv_add[OF i(1) assms(2), of e False] a_usage_add[OF i(1) assms(2), of e False]
    by (intro repI[where us=us]) (simp_all, simp_all add: a_add_def)
qed

lemma rep_add_cached:
  assumes "rep (l, u) c s S" "a_ent s a = None" "a \<noteq> 0" "a \<noteq> l" "a \<noteq> u"
  shows "\<exists>c'. LRU_Append (in_use_head c) a (put_handle a (Some (new_handle e True 2)) c) = Inr c'
    \<and> rep (l, u) (c'\<lparr>usage := usage c' + e_charge e\<rparr>) (a_add a e True s) S"
proof -
  obtain us where i: "a_inv s" "obj (memory c) = objs s" "heads c = (l, u)" "capacity c = a_cap s" "usage c = a_usage s"
    "deleted c = a_log s" "S \<subseteq> set (a_cached s)"
    and us: "shape c us (a_lru s) S" "set us = {a \<in> set (a_cached s). a_refs s a > 0}"
    using assms(1) by (rule repE)
  note f = rep_fresh[OF assms] and g = a_inv_fresh[OF i(1) assms(2)]
  let ?p = "put_handle a (Some (new_handle e True 2)) c" and ?s = "a_add a e True s"
  let ?c = "set_links ((lnk c)\<lparr>next_of := (next_of (lnk c))(a := 0)\<rparr>) ?p"
  have s1: "shape ?c us (a_lru s) S" using shape_alloc[OF us(1) f(1) assms(3) f(2,3)] .
  have n: "obj (memory ?c) a \<noteq> None" "a \<notin> set us \<union> set (a_lru s)" using us(2) g by auto
  define c' where "c' = set_links (tie (in_use_head c) a (lnk ?c)) ?c"
  have "LRU_Append (in_use_head c) a ?p = Inr c'"
    using LRU_Append_fresh[of "in_use_head c" a ?p] LRU_Append_eq[OF s1 n(1) _ n(2), of "in_use_head c"]
    by (simp add: c'_def)
  moreover have "shape c' (us @ [a]) (a_lru s) S" using shape_tie(1)[OF s1 n] by (simp add: c'_def)
  moreover have "set (us @ [a]) = {a \<in> set (a_cached ?s). a_refs ?s a > 0}" using us(2) g by (auto simp: a_add_def)
  moreover have "obj (memory c') = objs ?s" using i(2) by (simp add: c'_def objs_add[OF i(1) assms(2)])
  moreover have "heads c' = (l, u)" "capacity c' = a_cap s" "usage c' = a_usage s" "deleted c' = a_log s"
    using i by (simp_all add: c'_def)
  ultimately show ?thesis
    using i(7) a_inv_add[OF i(1) assms(2), of e True] a_usage_add[OF i(1) assms(2), of e True]
    by (intro exI[of _ c'] conjI repI[where us="us @ [a]"]) (simp_all, auto simp: a_add_def)
qed

lemma answers_cong: "answers k1 S k a \<Longrightarrow> (\<And>b. b \<in> S \<Longrightarrow> k2 b = k1 b) \<Longrightarrow> answers k2 S k a"
  by (auto simp: answers_def split: if_splits)

lemma rep_link:
  assumes "reps (l, u) c s" "a_ent s a = None" "rep (l, u) c1 (a_add a e True s) (set (a_cached s))"
    and "length (a_cached s) < 2 ^ 31"
  shows "\<exists>st. Table_Insert a (memory c1, table c1) = Inr (found (a_find (e_key e) (e_hash e) s), st)
    \<and> rep (l, u) (set_table st c1) (a_add a e True s) (insert a (set (a_cached s) - {found (a_find (e_key e) (e_hash e) s)}))"
proof -
  let ?s = "a_add a e True s"
  note f = a_inv_fresh[OF rep_a_inv[OF assms(1)] assms(2)]
  have e: "a_ent ?s a = Some e" by (simp add: a_add_def)
  note o = rep_obj[OF assms(3) e]
  have "live_handle (memory c1) a" "kh (memory c1) a = Some (e_hash e, e_key e)"
    using o e by (simp_all add: live_handle_def rep_kh[OF assms(3)])
  moreover have "card (set (a_cached s)) < 2 ^ 31" using assms(4) card_length[of "a_cached s"] by linarith
  ultimately obtain old st where st: "Table_Insert a (memory c1, table c1) = Inr (old, st)"
    "answers (kh (memory c1)) (set (a_cached s)) (e_hash e, e_key e) old"
    "holds_handles st (insert a (set (a_cached s) - {old}))" "same_handles (memory c1, table c1) st"
    using handles.link_ok[OF rep_holds[OF assms(3)] f(1) o(3), of "(e_hash e, e_key e)"] by auto
  have "answers (kh (memory c)) (set (a_cached s)) (e_hash e, e_key e) old"
    by (rule answers_cong[OF st(2)])
       (use f(1) in \<open>auto simp: rep_kh[OF assms(1)] rep_kh[OF assms(3)] a_add_def\<close>)
  then have "old = found (a_find (e_key e) (e_hash e) s)" using answers_find[OF assms(1)] by blast
  moreover have "insert a (set (a_cached s) - {old}) \<subseteq> set (a_cached ?s)" by (auto simp: a_add_def)
  ultimately show ?thesis using st(1) rep_table[OF assms(3) st(3,4)] by blast
qed

lemma rep_insert:
  assumes "reps (l, u) c s" "a_ent s a = None" "a \<noteq> 0" "a \<noteq> l" "a \<noteq> u" "length (a_cached s) < 2 ^ 31"
  shows "\<exists>c'. LRU_Insert (e_key e) (e_hash e) (e_value e) (e_charge e) (e_deleter e) a c = Inr (a, c')
    \<and> reps (l, u) c' (a_insert a e s)"
proof -
  have cap: "capacity c = a_cap s" using assms(1) unfolding rep_def by blast
  let ?d = "if a_cap s > 0
     then case a_find (e_key e) (e_hash e) s of None \<Rightarrow> a_add a e True s | Some old \<Rightarrow> a_uncache old (a_add a e True s)
     else a_add a e False s"
  have fin: "reps (l, u) c1 ?d \<Longrightarrow> \<exists>c'. bind_run (returned (evict c1)) (\<lambda>c. Inr (a, c)) = Inr (a, c')
      \<and> reps (l, u) c' (a_insert a e s)" for c1
    using rep_evict[of "(l, u)" c1 ?d] unfolding a_insert_def by (auto simp: returned_def)
  show ?thesis
  proof (cases "a_cap s > 0")
    case True
    let ?s = "a_add a e True s" and ?old = "found (a_find (e_key e) (e_hash e) s)"
    obtain c1 where c1: "LRU_Append (in_use_head c) a (put_handle a (Some (new_handle e True 2)) c) = Inr c1"
      "rep (l, u) (c1\<lparr>usage := usage c1 + e_charge e\<rparr>) ?s (set (a_cached s))"
      using rep_add_cached[OF assms(1-5), of e] by blast
    obtain st where st: "Table_Insert a (memory c1, table c1) = Inr (?old, st)"
      "rep (l, u) (set_table st (c1\<lparr>usage := usage c1 + e_charge e\<rparr>)) ?s (insert a (set (a_cached s) - {?old}))"
      using rep_link[OF assms(1,2) c1(2) assms(6)] by auto
    obtain b c2 where c2: "FinishErase ?old (set_table st (c1\<lparr>usage := usage c1 + e_charge e\<rparr>)) = Inr (b, c2)"
      "reps (l, u) c2 ?d"
    proof (cases "a_find (e_key e) (e_hash e) s")
      case None
      have "0 \<notin> set (a_cached s)" using handles.nonnull[OF rep_holds[OF assms(1)]] .
      then show thesis using that[of False] st(2) None True by (simp add: FinishErase_def a_add_def)
    next
      case (Some x)
      note x = a_find_Some(1)[OF Some] and fr = a_inv_fresh(1)[OF rep_a_inv[OF assms(1)] assms(2)]
      obtain c' where "FinishErase x (set_table st (c1\<lparr>usage := usage c1 + e_charge e\<rparr>)) = Inr (True, c')"
        "rep (l, u) c' (a_uncache x ?s) (insert a (set (a_cached s) - {x}))"
        using rep_uncache[OF st(2), of x] x fr Some by (auto simp: a_add_def)
      moreover have "set (remove1 x (a_cached ?s)) = insert a (set (a_cached s) - {x})"
        using set_remove1_inv[OF rep_a_inv[OF c1(2)]] x fr by (auto simp: a_add_def)
      ultimately show thesis using that[of True c'] Some True by simp
    qed
    then show ?thesis using True cap c1(1) st(1) fin[of c2] by (simp add: LRU_Insert_def Let_def)
  next
    case False
    have "reps (l, u) (set_links ((lnk c)\<lparr>next_of := (next_of (lnk c))(a := 0)\<rparr>)
        (put_handle a (Some (new_handle e False 1)) c)) ?d"
      using rep_add_uncached[OF assms(1-5), of e] False by (simp add: a_add_def)
    then show ?thesis using False cap fin by (simp add: LRU_Insert_def Let_def)
  qed
qed

definition a_init :: "u64 \<Rightarrow> acache" where
  "a_init n = \<lparr>a_cap = n, a_ent = \<lambda>_. None, a_refs = \<lambda>_. 0, a_cached = [], a_lru = [], a_log = []\<rparr>"

lemma rep_init:
  assumes "l \<noteq> u" "l \<noteq> 0" "u \<noteq> 0" "obj m = (\<lambda>_. None)"
  shows "\<exists>c. LRUCache_init l u m = Inr c \<and> reps (l, u) (SetCapacity n c) (a_init n)"
proof -
  define h where "h = (links m)\<lparr>next_of := (next_of (links m))(l := l, u := u), prev_of := (prev_of (links m))(l := l, u := u)\<rparr>"
  obtain m' t' where st: "HandleTable_init (m\<lparr>links := h\<rparr>) = Inr (m', t')" "holds_handles (m', t') {}"
    "same_handles (m\<lparr>links := h\<rparr>, t) (m', t')" for t
    using HandleTable_init_ok[of "m\<lparr>links := h\<rparr>"] by (auto simp: same_handles_def)
  then have m: "links m' = h" "obj m' = (\<lambda>_. None)" using assms(4) by (auto simp: same_handles_def)
  define c where "c = \<lparr>capacity = 0, usage = 0, lru_head = l, in_use_head = u, memory = m', table = t', deleted = []\<rparr>"
  have "shape (SetCapacity n c) [] [] {}"
    using assms st(2) m by (auto simp: shape_def SetCapacity_def c_def circ_def h_def)
  then have "rep (l, u) (SetCapacity n c) (a_init n) {}"
    using m by (intro repI[where us="[]"]) (simp_all add: SetCapacity_def c_def heads_def a_init_def a_inv_def a_usage_def objs_def fun_eq_iff)
  moreover have "LRUCache_init l u m = Inr c" using st(1) by (simp add: LRUCache_init_def Let_def h_def[symmetric] c_def)
  ultimately show ?thesis by (simp add: a_init_def)
qed

text \<open>Destroying a shard whose entries nobody holds deletes the remaining entries, oldest first.\<close>

lemma destroy_from_ok:
  assumes "linked (lnk c) p ls (lru_head c)" "lru_head c \<notin> set ls" "distinct ls" "e = (case ls of [] \<Rightarrow> lru_head c | x # _ \<Rightarrow> x)"
    and "\<forall>a \<in> set ls. \<exists>r. obj (memory c) a = Some r \<and> in_cache r \<and> refs r = 1 \<and> next_of (lnk c) a \<noteq> a"
  shows "\<exists>c'. destroy_from e c = Some (Inr c')
    \<and> deleted c' = deleted c @ map (\<lambda>a. (a, entry.truncate (the (obj (memory c) a)))) ls
    \<and> obj (memory c') = (\<lambda>a. if a \<in> set ls then None else obj (memory c) a)"
  using assms
proof (induction ls arbitrary: c p e)
  case Nil
  then show ?case by (subst destroy_from.simps) (auto simp: fun_eq_iff)
next
  case (Cons a ls)
  obtain r where r: "obj (memory c) a = Some r" "in_cache r" "refs r = 1" "next_of (lnk c) a \<noteq> a" using Cons.prems(5) by auto
  let ?c = "put_handle a (Some (r\<lparr>in_cache := False\<rparr>)) c"
  let ?d = "(put_handle a None ?c)\<lparr>deleted := deleted ?c @ [(a, entry.truncate (r\<lparr>in_cache := False\<rparr>))]\<rparr>"
  have u: "Unref a ?c = Inr ?d" using r by (intro Unref_delete) auto
  have n: "next_of (lnk c) a = (case ls of [] \<Rightarrow> lru_head c | x # _ \<Rightarrow> x)"
    using Cons.prems(1) linked_ends(1)[of "lnk c" a ls] by simp
  have st: "destroy_from e c = destroy_from (next_of (lnk c) a) ?d"
    using Cons.prems(2,4) r u by (subst destroy_from.simps) (simp add: handle_def)
  have "\<exists>c'. destroy_from (next_of (lnk c) a) ?d = Some (Inr c')
    \<and> deleted c' = deleted ?d @ map (\<lambda>a. (a, entry.truncate (the (obj (memory ?d) a)))) ls
    \<and> obj (memory c') = (\<lambda>a. if a \<in> set ls then None else obj (memory ?d) a)"
    using Cons.prems n by (intro Cons.IH[of ?d a]) (auto split: list.splits)
  then obtain c' where c': "destroy_from e c = Some (Inr c')"
    "deleted c' = deleted ?d @ map (\<lambda>a. (a, entry.truncate (the (obj (memory ?d) a)))) ls"
    "obj (memory c') = (\<lambda>a. if a \<in> set ls then None else obj (memory ?d) a)" unfolding st by blast
  have "map (\<lambda>b. (b, entry.truncate (the (obj (memory ?d) b)))) ls
      = map (\<lambda>b. (b, entry.truncate (the (obj (memory c) b)))) ls"
    using Cons.prems(3) by (intro map_cong) auto
  then have "deleted c' = deleted c @ map (\<lambda>a. (a, entry.truncate (the (obj (memory c) a)))) (a # ls)"
    using c'(2) r(1) by (simp only: list.map) (simp add: entry.truncate_def)
  then show ?case using c'(1,3) by (intro exI[of _ c']) (auto simp: fun_eq_iff)
qed

lemma rep_destroy:
  assumes "reps H c s" "\<forall>a. a_refs s a = 0"
  shows "\<exists>c'. LRUCache_destroy c = Inr c' \<and> deleted c' = a_log s @ map (\<lambda>a. (a, the (a_ent s a))) (a_lru s)
    \<and> (\<forall>a. obj (memory c') a = None)"
proof -
  obtain us where i: "a_inv s" "obj (memory c) = objs s" "deleted c = a_log s"
    and us: "shape c us (a_lru s) (set (a_cached s))" "set us = {a \<in> set (a_cached s). a_refs s a > 0}"
    using assms(1) by (rule repE)
  have "us = []" using us(2) assms(2) by simp
  then have "circ (lnk c) (in_use_head c) []" "circ (lnk c) (lru_head c) (a_lru s)" using us(1) unfolding shape_def by blast+
  then have nx: "next_of (lnk c) (in_use_head c) = in_use_head c"
    "next_of (lnk c) (lru_head c) = (case a_lru s of [] \<Rightarrow> lru_head c | x # _ \<Rightarrow> x)"
    and lk: "linked (lnk c) (lru_head c) (a_lru s) (lru_head c)" "lru_head c \<notin> set (a_lru s)" "distinct (a_lru s)"
    using circ_first[of "lnk c" "lru_head c" "a_lru s"] by (auto simp: circ_def)
  have cl: "set (a_lru s) = set (a_cached s)" using a_invD(3)[OF i(1)] assms(2) by auto
  have h: "\<exists>r. obj (memory c) a = Some r \<and> in_cache r \<and> refs r = 1 \<and> next_of (lnk c) a \<noteq> a"
    and tr: "entry.truncate (the (obj (memory c) a)) = the (a_ent s a)" if a: "a \<in> set (a_lru s)" for a
  proof -
    obtain e where e: "a_ent s a = Some e" using a_invD(4)[OF i(1), of a] a cl by auto
    note o = rep_obj[OF assms(1) e]
    show "\<exists>r. obj (memory c) a = Some r \<and> in_cache r \<and> refs r = 1 \<and> next_of (lnk c) a \<noteq> a"
      using o that cl assms(2) by (simp add: handle_of_def)
    show "entry.truncate (the (obj (memory c) a)) = the (a_ent s a)"
      using o(1) e by (simp add: handle_of_def entry.truncate_def)
  qed
  obtain c' where c': "destroy_from (next_of (lnk c) (lru_head c)) c = Some (Inr c')"
    "deleted c' = deleted c @ map (\<lambda>a. (a, entry.truncate (the (obj (memory c) a)))) (a_lru s)"
    "obj (memory c') = (\<lambda>a. if a \<in> set (a_lru s) then None else obj (memory c) a)"
    using destroy_from_ok[OF lk nx(2)] h by blast
  have "obj (memory c') a = None" for a
    using c'(3) cl i(2) a_invD(4)[OF i(1), of a] assms(2) by (auto simp: objs_def)
  moreover have "map (\<lambda>a. (a, entry.truncate (the (obj (memory c) a)))) (a_lru s) = map (\<lambda>a. (a, the (a_ent s a))) (a_lru s)"
    using tr by simp
  ultimately show ?thesis using c' nx(1) i(3) by (simp add: LRUCache_destroy_def returned_def)
qed

end
