(* ===== verification/LruSharded.thy ===== *)
theory LruSharded
  imports LruCache
begin

text \<open>
  \<open>ShardedLRUCache\<close> of \<^verbatim>\<open>util/cache.cc\<close>: sixteen LRU caches, selected by the upper
  bits of the hash of the key. The memory of a handle is kept with the shard that
  allocated it; \<open>deref_handle\<close> reads a handle wherever it is. The properties of the whole
  cache are stated for sequences of client calls, in which a client only releases
  handles it holds and the allocator only returns free addresses.
\<close>

definition kNumShardBits :: nat where
  "kNumShardBits = 4"

definition kNumShards :: nat where
  "kNumShards = 2 ^ kNumShardBits"

record ShardedLRUCache =
  shards :: "nat \<Rightarrow> LRUCache"
  last_id :: u64

definition HashSlice :: "bytes \<Rightarrow> u32" where
  "HashSlice s = Hash s 0"

definition Shard :: "u32 \<Rightarrow> nat" where
  "Shard hash = unat (drop_bit (32 - kNumShardBits) hash)"

definition put_shard :: "nat \<Rightarrow> LRUCache \<Rightarrow> ShardedLRUCache \<Rightarrow> ShardedLRUCache" where
  "put_shard i x c = c\<lparr>shards := (shards c)(i := x)\<rparr>"

definition deref_handle :: "nat \<Rightarrow> ShardedLRUCache \<Rightarrow> LRUHandle run" where
  "deref_handle a c =
     (case find (\<lambda>i. obj (memory (shards c i)) a \<noteq> None) [0..<kNumShards] of
        None \<Rightarrow> Inl Use_after_free | Some i \<Rightarrow> handle a (memory (shards c i)))"

definition Cache_Insert :: "bytes \<Rightarrow> nat \<Rightarrow> u64 \<Rightarrow> nat \<Rightarrow> nat \<Rightarrow> ShardedLRUCache \<Rightarrow> (nat \<times> ShardedLRUCache) run" where
  "Cache_Insert key value charge deleter a c =
     (let hash = HashSlice key; i = Shard hash
      in bind_run (LRU_Insert key hash value charge deleter a (shards c i)) (\<lambda>(h, x). Inr (h, put_shard i x c)))"

definition Cache_Lookup :: "bytes \<Rightarrow> ShardedLRUCache \<Rightarrow> (nat \<times> ShardedLRUCache) run" where
  "Cache_Lookup key c =
     (let hash = HashSlice key; i = Shard hash
      in bind_run (LRU_Lookup key hash (shards c i)) (\<lambda>(h, x). Inr (h, put_shard i x c)))"

definition Cache_Release :: "nat \<Rightarrow> ShardedLRUCache \<Rightarrow> ShardedLRUCache run" where
  "Cache_Release a c =
     bind_run (deref_handle a c) (\<lambda>r. let i = Shard (e_hash r)
       in bind_run (LRU_Release a (shards c i)) (\<lambda>x. Inr (put_shard i x c)))"

definition Cache_Erase :: "bytes \<Rightarrow> ShardedLRUCache \<Rightarrow> ShardedLRUCache run" where
  "Cache_Erase key c =
     (let hash = HashSlice key; i = Shard hash
      in bind_run (LRU_Erase key hash (shards c i)) (\<lambda>x. Inr (put_shard i x c)))"

definition Cache_Value :: "nat \<Rightarrow> ShardedLRUCache \<Rightarrow> nat run" where
  "Cache_Value a c = bind_run (deref_handle a c) (\<lambda>r. Inr (e_value r))"

definition Cache_NewId :: "ShardedLRUCache \<Rightarrow> u64 \<times> ShardedLRUCache" where
  "Cache_NewId c = (last_id c + 1, c\<lparr>last_id := last_id c + 1\<rparr>)"

fun prune_shards :: "nat list \<Rightarrow> ShardedLRUCache \<Rightarrow> ShardedLRUCache run" where
  "prune_shards [] c = Inr c"
| "prune_shards (i # is) c = bind_run (LRU_Prune (shards c i)) (\<lambda>x. prune_shards is (put_shard i x c))"

definition Cache_Prune :: "ShardedLRUCache \<Rightarrow> ShardedLRUCache run" where
  "Cache_Prune c = prune_shards [0..<kNumShards] c"

definition Cache_TotalCharge :: "ShardedLRUCache \<Rightarrow> u64" where
  "Cache_TotalCharge c = fold (\<lambda>i total. total + usage (shards c i)) [0..<kNumShards] 0"

fun init_shards :: "u64 \<Rightarrow> (nat \<times> nat \<times> mem) list \<Rightarrow> nat \<Rightarrow> (nat \<Rightarrow> LRUCache) \<Rightarrow> (nat \<Rightarrow> LRUCache) run" where
  "init_shards n [] i f = Inr f"
| "init_shards n ((l, u, m) # ms) i f =
     bind_run (LRUCache_init l u m) (\<lambda>x. init_shards n ms (Suc i) (f(i := SetCapacity n x)))"

text \<open>The constructor, with the addresses of the list heads and the free memory of each shard.\<close>

definition ShardedLRUCache_init :: "(nat \<times> nat \<times> mem) list \<Rightarrow> (nat \<Rightarrow> LRUCache) \<Rightarrow> u64 \<Rightarrow> ShardedLRUCache run" where
  "ShardedLRUCache_init ms f cap =
     (let per_shard = (cap + (word_of_nat kNumShards - 1)) div word_of_nat kNumShards
      in bind_run (init_shards per_shard ms 0 f) (\<lambda>f. Inr \<lparr>shards = f, last_id = 0\<rparr>))"

section \<open>Client calls\<close>

datatype cop =
  Insert bytes nat u64 nat nat | Lookup bytes | Release nat | Erase bytes | Prune | TotalCharge | NewId

datatype cres = Handle nat | Done | Charge u64 | Id u64

fun run_cop :: "cop \<Rightarrow> ShardedLRUCache \<Rightarrow> (cres \<times> ShardedLRUCache) run" where
  "run_cop (Insert key value charge deleter a) c =
     bind_run (Cache_Insert key value charge deleter a c) (\<lambda>(h, c). Inr (Handle h, c))"
| "run_cop (Lookup key) c = bind_run (Cache_Lookup key c) (\<lambda>(h, c). Inr (Handle h, c))"
| "run_cop (Release a) c = bind_run (Cache_Release a c) (\<lambda>c. Inr (Done, c))"
| "run_cop (Erase key) c = bind_run (Cache_Erase key c) (\<lambda>c. Inr (Done, c))"
| "run_cop Prune c = bind_run (Cache_Prune c) (\<lambda>c. Inr (Done, c))"
| "run_cop TotalCharge c = Inr (Charge (Cache_TotalCharge c), c)"
| "run_cop NewId c = Inr (Id (fst (Cache_NewId c)), snd (Cache_NewId c))"

fun run_cops :: "cop list \<Rightarrow> ShardedLRUCache \<Rightarrow> (cres list \<times> ShardedLRUCache) run" where
  "run_cops [] c = Inr ([], c)"
| "run_cops (p # ps) c =
     bind_run (run_cop p c) (\<lambda>(x, c). bind_run (run_cops ps c) (\<lambda>(xs, c). Inr (x # xs, c)))"

text \<open>The same calls on sixteen abstract caches.\<close>

record ashards =
  as_shard :: "nat \<Rightarrow> acache"
  as_id :: u64

definition as_put :: "nat \<Rightarrow> acache \<Rightarrow> ashards \<Rightarrow> ashards" where
  "as_put i x s = s\<lparr>as_shard := (as_shard s)(i := x)\<rparr>"

definition as_owner :: "nat \<Rightarrow> ashards \<Rightarrow> nat option" where
  "as_owner a s = find (\<lambda>i. a_ent (as_shard s i) a \<noteq> None) [0..<kNumShards]"

fun spec_cop :: "cop \<Rightarrow> ashards \<Rightarrow> cres \<times> ashards" where
  "spec_cop (Insert key value charge deleter a) s =
     (let e = \<lparr>e_key = key, e_hash = HashSlice key, e_value = value, e_deleter = deleter, e_charge = charge\<rparr>;
          i = Shard (HashSlice key)
      in (Handle a, as_put i (a_insert a e (as_shard s i)) s))"
| "spec_cop (Lookup key) s =
     (let i = Shard (HashSlice key); (h, x) = a_lookup key (HashSlice key) (as_shard s i)
      in (Handle h, as_put i x s))"
| "spec_cop (Release a) s =
     (case as_owner a s of None \<Rightarrow> (Done, s) | Some i \<Rightarrow> (Done, as_put i (a_release a (as_shard s i)) s))"
| "spec_cop (Erase key) s =
     (let i = Shard (HashSlice key) in (Done, as_put i (a_erase key (HashSlice key) (as_shard s i)) s))"
| "spec_cop Prune s =
     (Done, s\<lparr>as_shard := \<lambda>i. let x = as_shard s i in if i < kNumShards then a_prune (a_lru x) x else x\<rparr>)"
| "spec_cop TotalCharge s = (Charge (\<Sum>i \<leftarrow> [0..<kNumShards]. a_usage (as_shard s i)), s)"
| "spec_cop NewId s = (Id (as_id s + 1), s\<lparr>as_id := as_id s + 1\<rparr>)"

fun spec_cops :: "cop list \<Rightarrow> ashards \<Rightarrow> cres list \<times> ashards" where
  "spec_cops [] s = ([], s)"
| "spec_cops (p # ps) s = (let (x, s) = spec_cop p s; (xs, s) = spec_cops ps s in (x # xs, s))"

definition as_init :: "u64 \<Rightarrow> ashards" where
  "as_init cap =
     \<lparr>as_shard = \<lambda>_. a_init ((cap + (word_of_nat kNumShards - 1)) div word_of_nat kNumShards), as_id = 0\<rparr>"

text \<open>What the clients and the allocator have to respect; \<open>hs\<close> are the addresses of the list heads.\<close>

fun legal :: "nat list \<Rightarrow> cop \<Rightarrow> ashards \<Rightarrow> bool" where
  "legal hs (Insert key value charge deleter a) s \<longleftrightarrow> a \<noteq> 0 \<and> a \<notin> set hs \<and> as_owner a s = None"
| "legal hs (Release a) s \<longleftrightarrow> (\<exists>i \<in> set [0..<kNumShards]. a_refs (as_shard s i) a > 0)"
| "legal hs _ s \<longleftrightarrow> True"

fun legal_cops :: "nat list \<Rightarrow> cop list \<Rightarrow> ashards \<Rightarrow> bool" where
  "legal_cops hs [] s \<longleftrightarrow> True"
| "legal_cops hs (p # ps) s \<longleftrightarrow> legal hs p s \<and> legal_cops hs ps (snd (spec_cop p s))"

section \<open>Entries of the abstract cache\<close>

definition ent_le :: "acache \<Rightarrow> acache \<Rightarrow> bool" where
  "ent_le s' s \<longleftrightarrow> (\<forall>a e. a_ent s' a = Some e \<longrightarrow> a_ent s a = Some e) \<and> set (a_cached s') \<subseteq> set (a_cached s)
     \<and> length (a_cached s') \<le> length (a_cached s) \<and> (\<forall>a. a_refs s' a \<le> a_refs s a)"

lemma ent_le_refl [simp]: "ent_le s s"
  by (simp add: ent_le_def)

lemma ent_le_trans: "ent_le a b \<Longrightarrow> ent_le b c \<Longrightarrow> ent_le a c"
  unfolding ent_le_def by (meson le_trans order_trans)

lemma ent_le_uncache: "ent_le (a_uncache a s) s"
  by (auto simp: ent_le_def length_remove1 dest: set_remove1_subset[THEN subsetD] split: if_splits)

lemma ent_le_evict: "ent_le (a_evict s) s"
proof (induction s rule: a_evict.induct)
  case (1 s)
  show ?case
  proof (cases "a_usage s > a_cap s \<and> a_lru s \<noteq> []")
    case True
    then have "a_evict s = a_evict (a_uncache (hd (a_lru s)) s)" by (subst a_evict.simps) simp
    then show ?thesis using "1.IH"[OF True] ent_le_uncache ent_le_trans by metis
  next
    case False
    then show ?thesis by (subst a_evict.simps) (simp only: if_False ent_le_refl)
  qed
qed

lemma ent_le_prune: "ent_le (a_prune as s) s"
  by (induction as arbitrary: s) (auto intro: ent_le_trans ent_le_uncache)

lemma ent_le_release: "ent_le (a_release a s) s"
  by (auto simp: ent_le_def a_release_def a_delete_def Let_def)

lemma ent_le_erase: "ent_le (a_erase key hash s) s"
  by (auto simp: a_erase_def ent_le_uncache split: option.splits)

lemma ent_le_insert: "ent_le (a_insert a e s) (a_add a e (a_cap s > 0) s)"
  unfolding a_insert_def
  by (rule ent_le_trans[OF ent_le_evict]) (auto simp: ent_le_uncache split: option.splits)

section \<open>The shards together\<close>

definition sinv :: "(nat \<Rightarrow> nat \<times> nat) \<Rightarrow> ShardedLRUCache \<Rightarrow> ashards \<Rightarrow> nat \<Rightarrow> bool" where
  "sinv H c s n \<longleftrightarrow> last_id c = as_id s
     \<and> (\<forall>i < kNumShards. reps (H i) (shards c i) (as_shard s i) \<and> length (a_cached (as_shard s i)) \<le> n
          \<and> (\<forall>a. a_refs (as_shard s i) a \<le> n)
          \<and> (\<forall>a e. a_ent (as_shard s i) a = Some e \<longrightarrow> Shard (e_hash e) = i))
     \<and> (\<forall>i < kNumShards. \<forall>j < kNumShards. \<forall>a.
          a_ent (as_shard s i) a \<noteq> None \<longrightarrow> a_ent (as_shard s j) a \<noteq> None \<longrightarrow> i = j)"

lemma sinvD:
  assumes "sinv H c s n" "i < kNumShards"
  shows "reps (H i) (shards c i) (as_shard s i)" "length (a_cached (as_shard s i)) \<le> n"
    "a_refs (as_shard s i) a \<le> n" "a_ent (as_shard s i) a = Some e \<Longrightarrow> Shard (e_hash e) = i"
  using assms unfolding sinv_def by blast+

lemma Shard_less: "Shard hash < kNumShards"
proof -
  have "unat (drop_bit 28 hash) = unat hash div 2 ^ 28" by (rule unat_shiftr)
  moreover have "unat hash < 2 ^ 28 * 16" using unat_less_exp[of hash] by simp
  ultimately have "unat (drop_bit 28 hash) < 16" by (metis less_mult_imp_div_less mult.commute)
  then show ?thesis by (simp add: Shard_def kNumShards_def kNumShardBits_def)
qed

lemma find_upt_unique:
  assumes "i < n" "P i" "\<And>j. j < n \<Longrightarrow> P j \<Longrightarrow> j = i"
  shows "find P [0..<n] = Some i"
proof (cases "find P [0..<n]")
  case None
  then show ?thesis using assms(1,2) by (auto simp: find_None_iff)
next
  case (Some j)
  then have "j < n" "P j" by (auto simp: find_Some_iff)
  then show ?thesis using assms(3) Some by blast
qed

lemma as_owner_eq:
  assumes "sinv H c s n" "i < kNumShards" "a_ent (as_shard s i) a \<noteq> None"
  shows "as_owner a s = Some i"
  unfolding as_owner_def
proof (rule find_upt_unique)
  show "j = i" if "j < kNumShards" "a_ent (as_shard s j) a \<noteq> None" for j
    using assms that unfolding sinv_def by blast
qed (use assms(2,3) in auto)

lemma deref_eq:
  assumes "sinv H c s n" "i < kNumShards" "a_ent (as_shard s i) a = Some e"
  shows "\<exists>r. deref_handle a c = Inr r \<and> e_hash r = e_hash e \<and> e_value r = e_value e"
proof -
  have o: "obj (memory (shards c j)) a = objs (as_shard s j) a" if "j < kNumShards" for j
    using sinvD(1)[OF assms(1) that] unfolding rep_def by simp
  have "find (\<lambda>i. obj (memory (shards c i)) a \<noteq> None) [0..<kNumShards] = Some i"
  proof (rule find_upt_unique)
    show "obj (memory (shards c i)) a \<noteq> None" using o[OF assms(2)] assms(3) by (simp add: objs_def)
    show "j = i" if "j < kNumShards" "obj (memory (shards c j)) a \<noteq> None" for j
    proof -
      have "a_ent (as_shard s j) a \<noteq> None" using o[OF that(1)] that(2) by (auto simp: objs_def)
      then show ?thesis using assms that(1) unfolding sinv_def by blast
    qed
  qed (fact assms(2))
  then show ?thesis using o[OF assms(2)] assms(3) by (simp add: deref_handle_def handle_def objs_def handle_of_def)
qed

lemma sinv_put:
  assumes "sinv H c s n" "i < kNumShards" "reps (H i) x y" "length (a_cached y) \<le> Suc n" "\<And>a. a_refs y a \<le> Suc n"
    and "\<And>a e. a_ent y a = Some e \<Longrightarrow> a_ent (as_shard s i) a = Some e \<or> (as_owner a s = None \<and> Shard (e_hash e) = i)"
  shows "sinv H (put_shard i x c) (as_put i y s) (Suc n)"
proof -
  have fresh: "a_ent (as_shard s j) a = None" if "as_owner a s = None" "j < kNumShards" for a j
    using that by (auto simp: as_owner_def find_None_iff)
  have "\<forall>a e. a_ent y a = Some e \<longrightarrow> Shard (e_hash e) = i" using assms(6) sinvD(4)[OF assms(1,2)] by blast
  moreover have "j = i" if j: "j < kNumShards" "a_ent y a \<noteq> None" "a_ent (as_shard s j) a \<noteq> None" for a j
  proof -
    obtain e where e: "a_ent y a = Some e" using j(2) by auto
    have "as_owner a s \<noteq> None" using fresh[OF _ j(1), of a] j(3) by blast
    then have "a_ent (as_shard s i) a \<noteq> None" using assms(6)[OF e] by auto
    then show ?thesis using assms(1,2) j unfolding sinv_def by blast
  qed
  moreover have "length (a_cached (as_shard s j)) \<le> Suc n" "a_refs (as_shard s j) a \<le> Suc n" if "j < kNumShards" for j a
    using sinvD(2,3)[OF assms(1) that] le_Suc_eq by blast+
  ultimately show ?thesis using assms(1-5) unfolding sinv_def as_put_def put_shard_def by auto
qed

lemma sinv_put_le:
  assumes "sinv H c s n" "i < kNumShards" "reps (H i) x y" "ent_le y (as_shard s i)"
  shows "sinv H (put_shard i x c) (as_put i y s) (Suc n)"
proof (rule sinv_put[OF assms(1-3)])
  show "length (a_cached y) \<le> Suc n" using assms(4) sinvD(2)[OF assms(1,2)] by (simp add: ent_le_def)
  show "a_refs y a \<le> Suc n" for a
    using assms(4) sinvD(3)[OF assms(1,2), of a] unfolding ent_le_def by (meson le_SucI le_trans)
  show "a_ent y a = Some e \<Longrightarrow> a_ent (as_shard s i) a = Some e \<or> as_owner a s = None \<and> Shard (e_hash e) = i" for a e
    using assms(4) by (simp add: ent_le_def)
qed

lemma sinv_Suc: "sinv H c s n \<Longrightarrow> sinv H c s (Suc n)"
  unfolding sinv_def by (simp add: le_Suc_eq)

lemma prune_shards_ok:
  assumes "distinct is" "\<forall>i \<in> set is. i < kNumShards \<and> reps (H i) (shards c i) (as_shard s i)"
  shows "\<exists>c'. prune_shards is c = Inr c' \<and> last_id c' = last_id c
    \<and> (\<forall>i \<in> set is. reps (H i) (shards c' i) (a_prune (a_lru (as_shard s i)) (as_shard s i)))
    \<and> (\<forall>i. i \<notin> set is \<longrightarrow> shards c' i = shards c i)"
  using assms
proof (induction "is" arbitrary: c)
  case (Cons i "is")
  obtain x where x: "LRU_Prune (shards c i) = Inr x" "reps (H i) x (a_prune (a_lru (as_shard s i)) (as_shard s i))"
    using rep_prune[of "H i" "shards c i" "as_shard s i"] Cons.prems(2) by auto
  let ?c = "put_shard i x c"
  have p: "\<forall>j \<in> set is. j < kNumShards \<and> reps (H j) (shards ?c j) (as_shard s j)"
    using Cons.prems by (auto simp: put_shard_def)
  obtain c' where "prune_shards is ?c = Inr c'" "last_id c' = last_id ?c"
    "\<forall>i \<in> set is. reps (H i) (shards c' i) (a_prune (a_lru (as_shard s i)) (as_shard s i))"
    "\<forall>i. i \<notin> set is \<longrightarrow> shards c' i = shards ?c i"
    using Cons.IH[OF _ p] Cons.prems(1) by auto
  then show ?case using x Cons.prems(1) by (auto simp: put_shard_def)
qed simp

lemma fold_sum: "fold (\<lambda>i t. t + f i) xs (z :: 'a::comm_monoid_add) = z + (\<Sum>i \<leftarrow> xs. f i)"
  by (induction xs arbitrary: z) (simp_all add: add.assoc)

text \<open>One client call.\<close>

lemma run_cop_insert:
  assumes "sinv H c s n" "Suc n < 2 ^ 31" "a \<noteq> 0" "a \<notin> set hs" "as_owner a s = None"
    and hs: "\<And>i. i < kNumShards \<Longrightarrow> fst (H i) \<in> set hs \<and> snd (H i) \<in> set hs"
    and p: "p = Insert key value charge deleter a"
  shows "\<exists>c'. run_cop p c = Inr (fst (spec_cop p s), c') \<and> sinv H c' (snd (spec_cop p s)) (Suc n)"
proof -
  define i where "i = Shard (HashSlice key)"
  define e where "e = \<lparr>e_key = key, e_hash = HashSlice key, e_value = value, e_deleter = deleter, e_charge = charge\<rparr>"
  have i: "i < kNumShards" by (simp add: i_def Shard_less)
  obtain l u where H: "H i = (l, u)" by fastforce
  have f: "a_ent (as_shard s i) a = None" using assms(5) i by (auto simp: as_owner_def find_None_iff)
  have lu: "a \<noteq> l" "a \<noteq> u" using assms(4) hs[OF i] H by auto
  have ln: "length (a_cached (as_shard s i)) < 2 ^ 31" using sinvD(2)[OF assms(1) i] assms(2) by simp
  obtain x where x: "LRU_Insert key (HashSlice key) value charge deleter a (shards c i) = Inr (a, x)"
    "reps (H i) x (a_insert a e (as_shard s i))"
    using rep_insert[OF sinvD(1)[OF assms(1) i, unfolded H] f assms(3) lu ln, of e] by (auto simp: e_def H)
  note le = ent_le_insert[of a e "as_shard s i"]
  have "sinv H (put_shard i x c) (as_put i (a_insert a e (as_shard s i)) s) (Suc n)"
  proof (rule sinv_put[OF assms(1) i x(2)])
    show "length (a_cached (a_insert a e (as_shard s i))) \<le> Suc n"
      using le sinvD(2)[OF assms(1) i] by (auto simp: ent_le_def a_add_def split: if_splits)
    show "a_refs (a_insert a e (as_shard s i)) b \<le> Suc n" for b
    proof -
      have "a_refs (a_insert a e (as_shard s i)) b \<le> a_refs (a_add a e (a_cap (as_shard s i) > 0) (as_shard s i)) b"
        using le unfolding ent_le_def by blast
      then show ?thesis using sinvD(3)[OF assms(1) i, of b] by (simp add: a_add_def split: if_splits)
    qed
    show "a_ent (a_insert a e (as_shard s i)) b = Some d \<Longrightarrow>
        a_ent (as_shard s i) b = Some d \<or> as_owner b s = None \<and> Shard (e_hash d) = i" for b d
    proof -
      assume "a_ent (a_insert a e (as_shard s i)) b = Some d"
      then have "a_ent (a_add a e (a_cap (as_shard s i) > 0) (as_shard s i)) b = Some d"
        using le unfolding ent_le_def by blast
      then show "a_ent (as_shard s i) b = Some d \<or> as_owner b s = None \<and> Shard (e_hash d) = i"
        using assms(5) by (auto simp: a_add_def i_def e_def split: if_splits)
    qed
  qed
  then show ?thesis using x(1)
    by (auto simp: p Cache_Insert_def Let_def i_def e_def)
qed

lemma run_cop_lookup:
  assumes "sinv H c s n" "Suc n < 2 ^ 31" "p = Lookup key"
  shows "\<exists>c'. run_cop p c = Inr (fst (spec_cop p s), c') \<and> sinv H c' (snd (spec_cop p s)) (Suc n)"
proof -
  define i where "i = Shard (HashSlice key)"
  have i: "i < kNumShards" by (simp add: i_def Shard_less)
  let ?y = "snd (a_lookup key (HashSlice key) (as_shard s i))"
  have "a_refs (as_shard s i) a < 2 ^ 32 - 2" for a using sinvD(3)[OF assms(1) i, of a] assms(2) by simp
  then obtain x where x: "LRU_Lookup key (HashSlice key) (shards c i) = Inr (fst (a_lookup key (HashSlice key) (as_shard s i)), x)"
    "reps (H i) x ?y"
    using rep_lookup[OF sinvD(1)[OF assms(1) i]] by blast
  have "sinv H (put_shard i x c) (as_put i ?y s) (Suc n)"
    by (rule sinv_put[OF assms(1) i x(2)])
       (use sinvD(2,3)[OF assms(1) i] in \<open>auto simp: a_lookup_def a_hold_def intro: le_SucI split: option.splits\<close>)
  then show ?thesis using x(1)
    by (auto simp: assms(3) Cache_Lookup_def Let_def i_def split: prod.splits)
qed

lemma run_cop_release:
  assumes "sinv H c s n" "p = Release a" "\<exists>i < kNumShards. a_refs (as_shard s i) a > 0"
  shows "\<exists>c'. run_cop p c = Inr (fst (spec_cop p s), c') \<and> sinv H c' (snd (spec_cop p s)) (Suc n)"
proof -
  obtain i where i: "i < kNumShards" "a_refs (as_shard s i) a > 0" using assms(3) by auto
  then obtain e where e: "a_ent (as_shard s i) a = Some e"
    using a_invD(4)[OF rep_a_inv[OF sinvD(1)[OF assms(1) i(1)]], of a] by auto
  obtain r where r: "deref_handle a c = Inr r" "e_hash r = e_hash e" using deref_eq[OF assms(1) i(1) e] by blast
  obtain x where x: "LRU_Release a (shards c i) = Inr x" "reps (H i) x (a_release a (as_shard s i))"
  proof -
    have "a_cached (a_release a (as_shard s i)) = a_cached (as_shard s i)"
      by (simp add: a_release_def a_delete_def Let_def)
    then show thesis using rep_release[OF sinvD(1)[OF assms(1) i(1)] i(2)] that by auto
  qed
  have "sinv H (put_shard i x c) (as_put i (a_release a (as_shard s i)) s) (Suc n)"
    using sinv_put_le[OF assms(1) i(1) x(2) ent_le_release] .
  then show ?thesis using assms(2) r x(1) sinvD(4)[OF assms(1) i(1) e] as_owner_eq[OF assms(1) i(1), of a] e
    by (simp add: Cache_Release_def)
qed

lemma run_cop_prune:
  assumes "sinv H c s n" "p = Prune"
  shows "\<exists>c'. run_cop p c = Inr (fst (spec_cop p s), c') \<and> sinv H c' (snd (spec_cop p s)) (Suc n)"
proof -
  have "\<forall>i \<in> set [0..<kNumShards]. i < kNumShards \<and> reps (H i) (shards c i) (as_shard s i)"
    using sinvD(1)[OF assms(1)] by simp
  from prune_shards_ok[OF distinct_upt this] obtain c' where c': "Cache_Prune c = Inr c'" "last_id c' = last_id c"
    "\<forall>i < kNumShards. reps (H i) (shards c' i) (a_prune (a_lru (as_shard s i)) (as_shard s i))"
    by (auto simp: Cache_Prune_def)
  have le: "ent_le (a_prune (a_lru (as_shard s i)) (as_shard s i)) (as_shard s i)" for i by (rule ent_le_prune)
  have "sinv H c' (snd (spec_cop Prune s)) (Suc n)"
    unfolding sinv_def
  proof (intro conjI allI impI)
    show "last_id c' = as_id (snd (spec_cop Prune s))" using c'(2) assms(1) by (simp add: sinv_def)
    fix i assume i: "i < kNumShards"
    show "reps (H i) (shards c' i) (as_shard (snd (spec_cop Prune s)) i)" using c'(3) i by (simp add: Let_def)
    show "length (a_cached (as_shard (snd (spec_cop Prune s)) i)) \<le> Suc n"
      using le[of i] sinvD(2)[OF assms(1) i] i by (simp add: ent_le_def Let_def)
    show "a_refs (as_shard (snd (spec_cop Prune s)) i) a \<le> Suc n" for a
      using le[of i] sinvD(3)[OF assms(1) i, of a] i unfolding ent_le_def by (simp add: Let_def) (meson le_SucI le_trans)
    show "Shard (e_hash e) = i" if "a_ent (as_shard (snd (spec_cop Prune s)) i) a = Some e" for a e
      using le[of i] sinvD(4)[OF assms(1) i, of a e] i that by (simp add: ent_le_def Let_def)
    fix j a assume j: "j < kNumShards" "a_ent (as_shard (snd (spec_cop Prune s)) i) a \<noteq> None"
      "a_ent (as_shard (snd (spec_cop Prune s)) j) a \<noteq> None"
    then have "a_ent (as_shard s i) a \<noteq> None" "a_ent (as_shard s j) a \<noteq> None"
      using le[of i] le[of j] i by (auto simp: ent_le_def Let_def)
    then show "i = j" using assms(1) i j(1) unfolding sinv_def by blast
  qed
  then show ?thesis using assms(2) c'(1) by simp
qed

lemma run_cop_ok:
  assumes "sinv H c s n" "Suc n < 2 ^ 31" "legal hs p s"
    and hs: "\<And>i. i < kNumShards \<Longrightarrow> fst (H i) \<in> set hs \<and> snd (H i) \<in> set hs"
  shows "\<exists>c'. run_cop p c = Inr (fst (spec_cop p s), c') \<and> sinv H c' (snd (spec_cop p s)) (Suc n)"
proof (cases p)
  case (Insert key v charge deleter a)
  then show ?thesis using run_cop_insert[OF assms(1,2) _ _ _ hs Insert] assms(3) by auto
next
  case (Lookup key)
  then show ?thesis using run_cop_lookup[OF assms(1,2)] by blast
next
  case (Release a)
  then have "\<exists>i < kNumShards. a_refs (as_shard s i) a > 0" using assms(3) by auto
  then show ?thesis by (rule run_cop_release[OF assms(1) Release])
next
  case (Erase key)
  define i where "i = Shard (HashSlice key)"
  have i: "i < kNumShards" by (simp add: i_def Shard_less)
  obtain x where x: "LRU_Erase key (HashSlice key) (shards c i) = Inr x" "reps (H i) x (a_erase key (HashSlice key) (as_shard s i))"
    using rep_erase[OF sinvD(1)[OF assms(1) i]] by blast
  then show ?thesis using Erase sinv_put_le[OF assms(1) i x(2) ent_le_erase]
    by (simp add: Cache_Erase_def i_def Let_def)
next
  case Prune
  then show ?thesis using run_cop_prune[OF assms(1)] by blast
next
  case TotalCharge
  have "map (\<lambda>i. usage (shards c i)) [0..<kNumShards] = map (\<lambda>i. a_usage (as_shard s i)) [0..<kNumShards]"
    using sinvD(1)[OF assms(1)] unfolding rep_def by simp
  then have "Cache_TotalCharge c = (\<Sum>i \<leftarrow> [0..<kNumShards]. a_usage (as_shard s i))"
    unfolding Cache_TotalCharge_def fold_sum by (simp only: add_0)
  then show ?thesis using TotalCharge sinv_Suc[OF assms(1)] by simp
next
  case NewId
  then show ?thesis using sinv_Suc[OF assms(1)] by (auto simp: Cache_NewId_def sinv_def)
qed

lemma run_cops_ok:
  assumes "sinv H c s n" "n + length ps < 2 ^ 31" "legal_cops hs ps s"
    and hs: "\<And>i. i < kNumShards \<Longrightarrow> fst (H i) \<in> set hs \<and> snd (H i) \<in> set hs"
  shows "\<exists>c'. run_cops ps c = Inr (fst (spec_cops ps s), c') \<and> sinv H c' (snd (spec_cops ps s)) (n + length ps)"
  using assms(1-3)
proof (induction ps arbitrary: c s n)
  case (Cons p ps)
  obtain c1 where c1: "run_cop p c = Inr (fst (spec_cop p s), c1)" "sinv H c1 (snd (spec_cop p s)) (Suc n)"
    using run_cop_ok[OF Cons.prems(1) _ _ hs, of p] Cons.prems(2,3) by auto
  obtain c2 where "run_cops ps c1 = Inr (fst (spec_cops ps (snd (spec_cop p s))), c2)"
    "sinv H c2 (snd (spec_cops ps (snd (spec_cop p s)))) (Suc n + length ps)"
    using Cons.IH[OF c1(2)] Cons.prems(2,3) by auto
  then show ?case using c1(1) by (auto simp: split_beta)
qed simp

section \<open>Construction\<close>

definition ms_ok :: "(nat \<times> nat \<times> mem) list \<Rightarrow> bool" where
  "ms_ok ms \<longleftrightarrow> length ms = kNumShards
     \<and> (\<forall>(l, u, m) \<in> set ms. l \<noteq> u \<and> l \<noteq> 0 \<and> u \<noteq> 0 \<and> obj m = (\<lambda>_. None))"

definition head_list :: "(nat \<times> nat \<times> mem) list \<Rightarrow> nat list" where
  "head_list ms = concat (map (\<lambda>(l, u, m). [l, u]) ms)"

definition head_pair :: "(nat \<times> nat \<times> mem) list \<Rightarrow> nat \<Rightarrow> nat \<times> nat" where
  "head_pair ms i = (fst (ms ! i), fst (snd (ms ! i)))"

lemma head_pair_in: "i < length ms \<Longrightarrow> fst (head_pair ms i) \<in> set (head_list ms) \<and> snd (head_pair ms i) \<in> set (head_list ms)"
proof -
  assume "i < length ms"
  moreover obtain l u m where x: "ms ! i = (l, u, m)" by (cases "ms ! i")
  ultimately have "(l, u, m) \<in> set ms" by (metis nth_mem)
  then show ?thesis using x by (force simp: head_pair_def head_list_def)
qed

lemma init_shards_ok:
  assumes "\<forall>(l, u, m) \<in> set ms. l \<noteq> u \<and> l \<noteq> 0 \<and> u \<noteq> 0 \<and> obj m = (\<lambda>_. None)"
  shows "\<exists>g. init_shards n ms k f = Inr g \<and> (\<forall>i < length ms. reps (head_pair ms i) (g (k + i)) (a_init n))
    \<and> (\<forall>i < k. g i = f i)"
  using assms
proof (induction ms arbitrary: k f)
  case (Cons x ms)
  obtain l u m where x: "x = (l, u, m)" by (cases x) auto
  then obtain y where y: "LRUCache_init l u m = Inr y" "reps (l, u) (SetCapacity n y) (a_init n)"
    using rep_init[of l u m n] Cons.prems by auto
  have ms: "\<forall>(l, u, m) \<in> set ms. l \<noteq> u \<and> l \<noteq> 0 \<and> u \<noteq> 0 \<and> obj m = (\<lambda>_. None)"
    using Cons.prems by simp
  obtain g where g: "init_shards n ms (Suc k) (f(k := SetCapacity n y)) = Inr g"
    "\<forall>i < length ms. reps (head_pair ms i) (g (Suc k + i)) (a_init n)" "\<forall>i < Suc k. g i = (f(k := SetCapacity n y)) i"
    using Cons.IH[OF ms, of "Suc k" "f(k := SetCapacity n y)"] by blast
  have "reps (head_pair (x # ms) i) (g (k + i)) (a_init n)" if "i < length (x # ms)" for i
    using that g(2,3) y(2) x by (cases i) (auto simp: head_pair_def)
  then show ?case using g y(1) x by auto
qed simp

lemma init_ok:
  assumes "ms_ok ms"
  shows "\<exists>c. ShardedLRUCache_init ms f cap = Inr c \<and> sinv (head_pair ms) c (as_init cap) 0"
proof -
  define n where "n = (cap + (word_of_nat kNumShards - 1)) div (word_of_nat kNumShards :: u64)"
  obtain g where "init_shards n ms 0 f = Inr g" "\<forall>i < length ms. reps (head_pair ms i) (g (0 + i)) (a_init n)"
    using init_shards_ok[of ms n 0 f] assms by (auto simp: ms_ok_def)
  moreover have "length ms = kNumShards" using assms by (simp add: ms_ok_def)
  ultimately show ?thesis
    by (auto simp: ShardedLRUCache_init_def n_def[symmetric] sinv_def as_init_def a_init_def)
qed

lemma legal_run:
  assumes "ms_ok ms" "legal_cops (head_list ms) ps (as_init cap)" "length ps < 2 ^ 31"
  shows "\<exists>c0 c. ShardedLRUCache_init ms f cap = Inr c0 \<and> run_cops ps c0 = Inr (fst (spec_cops ps (as_init cap)), c)
    \<and> sinv (head_pair ms) c (snd (spec_cops ps (as_init cap))) (length ps)"
proof -
  obtain c0 where c0: "ShardedLRUCache_init ms f cap = Inr c0" "sinv (head_pair ms) c0 (as_init cap) 0"
    using init_ok[OF assms(1)] by blast
  have "length ms = kNumShards" using assms(1) by (simp add: ms_ok_def)
  then have "fst (head_pair ms i) \<in> set (head_list ms) \<and> snd (head_pair ms i) \<in> set (head_list ms)" if "i < kNumShards" for i
    using head_pair_in that by simp
  from run_cops_ok[OF c0(2) _ assms(2) this] show ?thesis using assms(3) c0(1) by auto
qed

section \<open>Deletions\<close>

text \<open>How often the entry at address \<open>a\<close> was deleted, plus one while it is alive.\<close>

definition acct :: "nat \<Rightarrow> acache \<Rightarrow> nat" where
  "acct a s = length (filter (\<lambda>d. fst d = a) (a_log s)) + (if a_ent s a \<noteq> None then 1 else 0)"

lemma acct_delete: "a_ent s b \<noteq> None \<Longrightarrow> acct a (a_delete b s) = acct a s"
  by (auto simp: acct_def a_delete_def)

lemma acct_uncache: "a_inv s \<Longrightarrow> b \<in> set (a_cached s) \<Longrightarrow> acct a (a_uncache b s) = acct a s"
  using a_invD(4)[of s b] acct_delete[of "s\<lparr>a_cached := remove1 b (a_cached s), a_lru := remove1 b (a_lru s)\<rparr>" b a]
  by (auto simp: a_uncache_def acct_def Let_def)

lemma acct_release: "a_inv s \<Longrightarrow> a_refs s b > 0 \<Longrightarrow> acct a (a_release b s) = acct a s"
  using a_invD(4)[of s b] acct_delete[of "s\<lparr>a_refs := (a_refs s)(b := a_refs s b - 1)\<rparr>" b a]
  by (auto simp: a_release_def acct_def Let_def)

lemma acct_evict: "a_inv s \<Longrightarrow> acct a (a_evict s) = acct a s \<and> a_inv (a_evict s)
    \<and> (a_usage (a_evict s) \<le> a_cap (a_evict s) \<or> a_lru (a_evict s) = [])"
proof (induction s rule: a_evict.induct)
  case (1 s)
  show ?case
  proof (cases "a_usage s > a_cap s \<and> a_lru s \<noteq> []")
    case True
    then have e: "a_evict s = a_evict (a_uncache (hd (a_lru s)) s)" by (subst a_evict.simps) simp
    have h: "hd (a_lru s) \<in> set (a_cached s)" using True a_invD(3)[OF "1.prems"] hd_in_set by blast
    show ?thesis unfolding e
      using "1.IH"[OF True a_inv_uncache[OF "1.prems" h]] acct_uncache[OF "1.prems" h] by simp
  next
    case False
    then have "a_evict s = s" by (subst a_evict.simps) (simp only: if_False)
    then show ?thesis using "1.prems" False by auto
  qed
qed

lemma acct_prune: "a_inv s \<Longrightarrow> distinct as \<Longrightarrow> set as \<subseteq> set (a_cached s) \<Longrightarrow> acct a (a_prune as s) = acct a s"
proof (induction as arbitrary: s)
  case (Cons b as)
  have "set as \<subseteq> set (a_cached (a_uncache b s))" using Cons.prems by (auto simp: a_invD(1))
  then show ?case using Cons.IH[OF a_inv_uncache[OF Cons.prems(1)]] Cons.prems acct_uncache[OF Cons.prems(1)] by simp
qed simp

lemma acct_insert:
  assumes "a_inv s" "a_ent s b = None"
  shows "acct a (a_insert b e s) = acct a s + (if a = b then 1 else 0)"
proof -
  have add: "acct a (a_add b e k s) = acct a s + (if a = b then 1 else 0)" for k
    using assms(2) by (auto simp: acct_def a_add_def)
  have inv: "a_inv (a_add b e k s)" for k using a_inv_add[OF assms] .
  show ?thesis
  proof (cases "a_cap s > 0")
    case True
    have old: "x \<in> set (a_cached (a_add b e True s))" if "a_find (e_key e) (e_hash e) s = Some x" for x
      using a_find_Some(1)[OF that] by (simp add: a_add_def)
    show ?thesis using True acct_evict[OF inv] acct_evict[OF a_inv_uncache[OF inv old]] acct_uncache[OF inv old] add
      by (auto simp: a_insert_def split: option.splits)
  next
    case False
    then show ?thesis using acct_evict[OF inv] add by (simp add: a_insert_def)
  qed
qed

definition accounted :: "nat \<Rightarrow> ashards \<Rightarrow> nat" where
  "accounted a s = (\<Sum>i < kNumShards. acct a (as_shard s i))"

lemma total_put:
  assumes i: "i < kNumShards" and y: "acct a y = acct a (as_shard s i) + d"
  shows "accounted a (as_put i y s) = accounted a s + d"
proof -
  have "(\<Sum>j \<in> {..<kNumShards} - {i}. acct a (as_shard (as_put i y s) j)) = (\<Sum>j \<in> {..<kNumShards} - {i}. acct a (as_shard s j))"
    by (rule sum.cong) (auto simp: as_put_def)
  moreover have "acct a (as_shard (as_put i y s) i) = acct a y" by (simp add: as_put_def)
  ultimately show ?thesis using i sum.remove[of "{..<kNumShards}" i "\<lambda>j. acct a (as_shard (as_put i y s) j)"]
      sum.remove[of "{..<kNumShards}" i "\<lambda>j. acct a (as_shard s j)"]
    by (simp add: accounted_def y)
qed

fun allocates :: "nat \<Rightarrow> cop \<Rightarrow> bool" where
  "allocates a (Insert key v charge deleter b) \<longleftrightarrow> b = a"
| "allocates a _ \<longleftrightarrow> False"

lemma total_step:
  assumes "sinv H c s n" "legal hs p s"
  shows "accounted a (snd (spec_cop p s)) = accounted a s + (if allocates a p then 1 else 0)"
proof -
  have inv: "a_inv (as_shard s i)" if "i < kNumShards" for i using rep_a_inv[OF sinvD(1)[OF assms(1) that]] .
  show ?thesis
  proof (cases p)
    case (Insert key v charge deleter b)
    let ?i = "Shard (HashSlice key)"
    have "a_ent (as_shard s ?i) b = None"
      using assms(2) Insert Shard_less by (auto simp: as_owner_def find_None_iff)
    from total_put[OF Shard_less acct_insert[OF inv[OF Shard_less] this]] show ?thesis
      using Insert by (simp add: Let_def eq_commute[of a b])
  next
    case (Lookup key)
    let ?i = "Shard (HashSlice key)"
    have "acct a (snd (a_lookup key (HashSlice key) (as_shard s ?i))) = acct a (as_shard s ?i) + 0"
      by (auto simp: a_lookup_def a_hold_def acct_def split: option.splits)
    from total_put[OF Shard_less this] show ?thesis using Lookup by (simp add: Let_def split_beta)
  next
    case (Release b)
    then obtain i where i: "i < kNumShards" "a_refs (as_shard s i) b > 0" using assms(2) by auto
    then have "as_owner b s = Some i" using as_owner_eq[OF assms(1) i(1)] a_invD(4)[OF inv[OF i(1)], of b] by auto
    then show ?thesis using Release total_put[OF i(1), of a _ s 0] acct_release[OF inv[OF i(1)] i(2)] by simp
  next
    case (Erase key)
    let ?i = "Shard (HashSlice key)"
    have "acct a (a_erase key (HashSlice key) (as_shard s ?i)) = acct a (as_shard s ?i) + 0"
      using acct_uncache[OF inv[OF Shard_less]] a_find_Some(1) by (auto simp: a_erase_def split: option.splits)
    from total_put[OF Shard_less this] show ?thesis using Erase by (simp add: Let_def)
  next
    case Prune
    have "acct a (a_prune (a_lru (as_shard s i)) (as_shard s i)) = acct a (as_shard s i)" if "i < kNumShards" for i
      using a_invD(2,3)[OF inv[OF that]] by (intro acct_prune[OF inv[OF that]]) auto
    then show ?thesis using Prune by (simp add: accounted_def Let_def)
  qed (simp_all add: accounted_def)
qed

lemma total_run:
  assumes "sinv H c s n" "n + length ps < 2 ^ 31" "legal_cops hs ps s"
    and hs: "\<And>i. i < kNumShards \<Longrightarrow> fst (H i) \<in> set hs \<and> snd (H i) \<in> set hs"
  shows "accounted a (snd (spec_cops ps s)) = accounted a s + length (filter (allocates a) ps)"
  using assms(1-3)
proof (induction ps arbitrary: c s n)
  case (Cons p ps)
  obtain c1 where "sinv H c1 (snd (spec_cop p s)) (Suc n)"
    using run_cop_ok[OF Cons.prems(1) _ _ hs, of p] Cons.prems(2,3) by auto
  then have "accounted a (snd (spec_cops ps (snd (spec_cop p s)))) = accounted a (snd (spec_cop p s)) + length (filter (allocates a) ps)"
    using Cons.IH Cons.prems(2,3) by auto
  then show ?case using total_step[OF Cons.prems(1), of hs p a] Cons.prems(3) by (simp add: split_beta)
qed simp

section \<open>Properties\<close>

text \<open>
  C4: for every sequence of fewer than 2^31 legal client calls, the sharded cache
  with its pointer lists, reference counts and growing hash tables is constructed
  and runs without a fault (no assertion fails, no freed handle is touched, every
  loop ends). It returns what sixteen abstract caches with least-recently-used
  eviction return, and calls the deleters of the same entries in the same order.
\<close>

theorem lru_cache_refines:
  assumes "ms_ok ms" "legal_cops (head_list ms) ps (as_init cap)" "length ps < 2 ^ 31"
  shows "\<exists>c0 c. ShardedLRUCache_init ms f cap = Inr c0
    \<and> run_cops ps c0 = Inr (fst (spec_cops ps (as_init cap)), c)
    \<and> (\<forall>i < kNumShards. deleted (shards c i) = a_log (as_shard (snd (spec_cops ps (as_init cap))) i))"
proof -
  obtain c0 c where c: "ShardedLRUCache_init ms f cap = Inr c0" "run_cops ps c0 = Inr (fst (spec_cops ps (as_init cap)), c)"
    "sinv (head_pair ms) c (snd (spec_cops ps (as_init cap))) (length ps)"
    using legal_run[OF assms] by blast
  have "deleted (shards c i) = a_log (as_shard (snd (spec_cops ps (as_init cap))) i)" if "i < kNumShards" for i
    using sinvD(1)[OF c(3) that] unfolding rep_def by blast
  then show ?thesis using c(1,2) by blast
qed

text \<open>
  C39: no entry is leaked and none is deleted twice: in every legal run the number
  of times an address was handed out by the allocator is the number of times a
  deleter was called on the entry there, plus one while the entry is still
  allocated. An entry that a client holds is allocated.
\<close>

theorem cache_deletes_once:
  assumes "ms_ok ms" "legal_cops (head_list ms) ps (as_init cap)" "length ps < 2 ^ 31"
    and "ShardedLRUCache_init ms f cap = Inr c0" "run_cops ps c0 = Inr (out, c)"
  shows "length (filter (allocates a) ps)
      = (\<Sum>i < kNumShards. length (filter (\<lambda>d. fst d = a) (deleted (shards c i)))
           + (if obj (memory (shards c i)) a \<noteq> None then 1 else 0))
    \<and> (\<forall>i < kNumShards. a_refs (as_shard (snd (spec_cops ps (as_init cap))) i) a > 0
         \<longrightarrow> obj (memory (shards c i)) a \<noteq> None)"
proof -
  let ?s = "snd (spec_cops ps (as_init cap))"
  have inv: "sinv (head_pair ms) c ?s (length ps)"
    using legal_run[OF assms(1-3), of f] assms(4,5) by auto
  have r: "deleted (shards c i) = a_log (as_shard ?s i)" "obj (memory (shards c i)) a \<noteq> None \<longleftrightarrow> a_ent (as_shard ?s i) a \<noteq> None"
    "a_refs (as_shard ?s i) a > 0 \<Longrightarrow> a_ent (as_shard ?s i) a \<noteq> None" if "i < kNumShards" for i
  proof -
    note p = sinvD(1)[OF inv that]
    show "deleted (shards c i) = a_log (as_shard ?s i)" using p unfolding rep_def by blast
    have "obj (memory (shards c i)) = objs (as_shard ?s i)" using p unfolding rep_def by blast
    then show "obj (memory (shards c i)) a \<noteq> None \<longleftrightarrow> a_ent (as_shard ?s i) a \<noteq> None" by (simp add: objs_def)
    show "a_refs (as_shard ?s i) a > 0 \<Longrightarrow> a_ent (as_shard ?s i) a \<noteq> None"
      using a_invD(4)[OF rep_a_inv[OF p], of a] by blast
  qed
  have hs: "fst (head_pair ms i) \<in> set (head_list ms) \<and> snd (head_pair ms i) \<in> set (head_list ms)" if "i < kNumShards" for i
    using assms(1) head_pair_in that by (simp add: ms_ok_def)
  have s0: "sinv (head_pair ms) c0 (as_init cap) 0" using init_ok[OF assms(1), of f cap] assms(4) by auto
  have "accounted a ?s = accounted a (as_init cap) + length (filter (allocates a) ps)"
    using total_run[OF s0 _ assms(2) hs] assms(3) by simp
  moreover have "accounted a (as_init cap) = 0" by (simp add: accounted_def acct_def as_init_def a_init_def)
  moreover have "accounted a ?s = (\<Sum>i < kNumShards. length (filter (\<lambda>d. fst d = a) (deleted (shards c i)))
           + (if obj (memory (shards c i)) a \<noteq> None then 1 else 0))"
    unfolding accounted_def acct_def using r(1,2) by (intro sum.cong) (simp_all only: lessThan_iff)
  ultimately show ?thesis using r(2,3) by auto
qed

lemma evict_keeps:
  "a_inv s \<Longrightarrow> a_refs s b > 0 \<Longrightarrow> b \<in> set (a_cached s) \<Longrightarrow> a_ent s b = Some e \<Longrightarrow>
     b \<in> set (a_cached (a_evict s)) \<and> a_ent (a_evict s) b = Some e"
proof (induction s rule: a_evict.induct)
  case (1 s)
  show ?case
  proof (cases "a_usage s > a_cap s \<and> a_lru s \<noteq> []")
    case True
    let ?h = "hd (a_lru s)"
    have e: "a_evict s = a_evict (a_uncache ?h s)" using True by (subst a_evict.simps) simp
    have h: "?h \<in> set (a_cached s)" "a_refs s ?h = 0"
      using True a_invD(3)[OF "1.prems"(1)] hd_in_set[of "a_lru s"] by auto
    then have "b \<noteq> ?h" using "1.prems"(2) by auto
    then show ?thesis unfolding e
      using "1.prems" by (intro "1.IH"[OF True a_inv_uncache[OF "1.prems"(1) h(1)]]) auto
  next
    case False
    then have "a_evict s = s" by (subst a_evict.simps) (simp only: if_False)
    then show ?thesis using "1.prems" by simp
  qed
qed

lemma insert_keeps:
  assumes "a_inv s" "a_ent s b = None" "a_cap s > 0"
  shows "b \<in> set (a_cached (a_insert b e s)) \<and> a_ent (a_insert b e s) b = Some e"
proof -
  have inv: "a_inv (a_add b e True s)" using a_inv_add[OF assms(1,2)] .
  have b: "b \<in> set (a_cached (a_add b e True s))" "a_refs (a_add b e True s) b = 1" "a_ent (a_add b e True s) b = Some e"
    by (simp_all add: a_add_def)
  show ?thesis
  proof (cases "a_find (e_key e) (e_hash e) s")
    case None
    then show ?thesis using evict_keeps[OF inv _ b(1,3)] b(2) assms(3) by (simp add: a_insert_def)
  next
    case (Some x)
    have x: "x \<in> set (a_cached (a_add b e True s))" "x \<noteq> b"
      using a_find_Some[OF Some] a_inv_fresh(1)[OF assms(1,2)] by (auto simp: a_add_def)
    have "b \<in> set (a_cached (a_evict (a_uncache x (a_add b e True s)))) \<and> a_ent (a_evict (a_uncache x (a_add b e True s))) b = Some e"
      using x b by (intro evict_keeps[OF a_inv_uncache[OF inv x(1)]]) auto
    then show ?thesis using Some assms(3) by (simp add: a_insert_def)
  qed
qed

lemma spec_cops_append:
  "spec_cops (ps @ qs) s = (fst (spec_cops ps s) @ fst (spec_cops qs (snd (spec_cops ps s))), snd (spec_cops qs (snd (spec_cops ps s))))"
  by (induction ps arbitrary: s) (auto simp: split_beta Let_def)

lemma legal_cops_append:
  "legal_cops hs (ps @ qs) s \<longleftrightarrow> legal_cops hs ps s \<and> legal_cops hs qs (snd (spec_cops ps s))"
  by (induction ps arbitrary: s) (auto simp: split_beta Let_def)

lemma a_cap_evict [simp]: "a_cap (a_evict s) = a_cap s"
proof (induction s rule: a_evict.induct)
  case (1 s)
  show ?case using "1.IH" by (subst a_evict.simps) simp
qed

lemma a_cap_insert [simp]: "a_cap (a_insert a e s) = a_cap s"
  by (simp add: a_insert_def a_add_def split: option.splits)

lemma a_insert_evict:
  assumes "a_inv s" "a_ent s a = None"
  shows "\<exists>x. a_inv x \<and> a_insert a e s = a_evict x"
proof (cases "a_cap s > 0 \<and> a_find (e_key e) (e_hash e) s \<noteq> None")
  case True
  then obtain x where x: "a_find (e_key e) (e_hash e) s = Some x" by auto
  then have "x \<in> set (a_cached (a_add a e True s))" using a_find_Some(1)[OF x] by (simp add: a_add_def)
  then show ?thesis using x True a_inv_uncache[OF a_inv_add[OF assms]] by (auto simp: a_insert_def)
next
  case False
  then show ?thesis using a_inv_add[OF assms] by (auto simp: a_insert_def)
qed

lemma lookup_cached:
  assumes "sinv H c s n" "Suc n < 2 ^ 31" "i = Shard (HashSlice key)" "a \<in> set (a_cached (as_shard s i))"
    and "a_ent (as_shard s i) a = Some e" "e_key e = key" "e_hash e = HashSlice key"
  shows "\<exists>c'. Cache_Lookup key c = Inr (a, c') \<and> Cache_Value a c' = Inr (e_value e)"
proof -
  have i: "i < kNumShards" using assms(3) Shard_less by simp
  note r = sinvD(1)[OF assms(1) i]
  have "answers (kh (memory (shards c i))) (set (a_cached (as_shard s i))) (HashSlice key, key) a"
    using handles.answer_found[OF rep_holds[OF r] assms(4), of "(HashSlice key, key)"] assms(5-7)
    by (simp add: rep_kh[OF r])
  then have "found (a_find key (HashSlice key) (as_shard s i)) = a" using answers_find[OF r] by simp
  moreover have "a \<noteq> 0" using rep_obj(3)[OF r assms(5)] .
  ultimately have f: "a_find key (HashSlice key) (as_shard s i) = Some a"
    by (cases "a_find key (HashSlice key) (as_shard s i)") auto
  obtain c' where c': "run_cop (Lookup key) c = Inr (fst (spec_cop (Lookup key) s), c')"
    "sinv H c' (snd (spec_cop (Lookup key) s)) (Suc n)"
    using run_cop_lookup[OF assms(1,2) refl] by blast
  then have "Cache_Lookup key c = Inr (a, c')"
    using f assms(3) by (cases "Cache_Lookup key c") (auto simp: Let_def a_lookup_def)
  moreover have "a_ent (as_shard (snd (spec_cop (Lookup key) s)) i) a = Some e"
    using f assms(3,5) by (simp add: Let_def a_lookup_def a_hold_def as_put_def)
  from deref_eq[OF c'(2) i this] have "Cache_Value a c' = Inr (e_value e)" by (auto simp: Cache_Value_def)
  ultimately show ?thesis by blast
qed

text \<open>
  C40: after an insertion the shard of the key fits its capacity again, unless
  clients hold all its entries; and if caching is not turned off, a lookup of the
  key returns the new handle with its value, whatever was evicted to make room.
\<close>

theorem cache_insert_lookup:
  assumes "ms_ok ms" "legal_cops (head_list ms) (ps @ [Insert key v charge deleter a]) (as_init cap)"
    and "length ps < 2 ^ 31 - 2" "ShardedLRUCache_init ms f cap = Inr c0"
    and "run_cops (ps @ [Insert key v charge deleter a]) c0 = Inr (out, c)" "i = Shard (HashSlice key)"
  shows "(usage (shards c i) \<le> capacity (shards c i) \<or> lru_empty (shards c i))
    \<and> (capacity (shards c i) > 0 \<longrightarrow> (\<exists>c'. Cache_Lookup key c = Inr (a, c') \<and> Cache_Value a c' = Inr v))"
proof -
  let ?p = "Insert key v charge deleter a"
  define e where "e = \<lparr>e_key = key, e_hash = HashSlice key, e_value = v, e_deleter = deleter, e_charge = charge\<rparr>"
  define s1 where "s1 = snd (spec_cops ps (as_init cap))"
  define s2 where "s2 = snd (spec_cop ?p s1)"
  have i: "i < kNumShards" using assms(6) Shard_less by simp
  have l: "legal_cops (head_list ms) ps (as_init cap)" "as_owner a s1 = None"
    using assms(2) by (auto simp: legal_cops_append s1_def)
  obtain c1 where c1: "sinv (head_pair ms) c1 s1 (length ps)" unfolding s1_def
    using legal_run[OF assms(1) l(1), of f] assms(3) by auto
  have c2: "sinv (head_pair ms) c s2 (Suc (length ps))"
    using legal_run[OF assms(1,2), of f] assms(3-5) by (auto simp: spec_cops_append s2_def s1_def split_beta)
  have inv: "a_inv (as_shard s1 i)" using rep_a_inv[OF sinvD(1)[OF c1 i]] .
  have fr: "a_ent (as_shard s1 i) a = None" using l(2) i by (auto simp: as_owner_def find_None_iff)
  have s2: "as_shard s2 i = a_insert a e (as_shard s1 i)" by (simp add: s2_def Let_def as_put_def assms(6) e_def)
  note r = sinvD(1)[OF c2 i]
  have u: "usage (shards c i) = a_usage (as_shard s2 i)" "capacity (shards c i) = a_cap (as_shard s2 i)"
    using r unfolding rep_def by blast+
  have "a_usage (as_shard s2 i) \<le> a_cap (as_shard s2 i) \<or> a_lru (as_shard s2 i) = []"
    using a_insert_evict[OF inv fr, of e] acct_evict s2 by metis
  then have "usage (shards c i) \<le> capacity (shards c i) \<or> lru_empty (shards c i)"
    using u rep_lru_empty[OF r] by simp
  moreover have "\<exists>c'. Cache_Lookup key c = Inr (a, c') \<and> Cache_Value a c' = Inr v" if "capacity (shards c i) > 0"
  proof -
    have "a_cap (as_shard s1 i) > 0" using that u(2) s2 by simp
    then have "a \<in> set (a_cached (as_shard s2 i)) \<and> a_ent (as_shard s2 i) a = Some e"
      using insert_keeps[OF inv fr] s2 by simp
    then show ?thesis using lookup_cached[OF c2 _ assms(6), of a e] assms(3) by (simp add: e_def)
  qed
  ultimately show ?thesis by blast
qed

section \<open>A concrete run\<close>

definition demo_mem :: mem where
  "demo_mem = \<lparr>links = \<lparr>next_of = \<lambda>_. 0, prev_of = \<lambda>_. 0\<rparr>, next_hash = \<lambda>_. 0, obj = \<lambda>_. None\<rparr>"

definition demo_shard :: LRUCache where
  "demo_shard = \<lparr>capacity = 0, usage = 0, lru_head = 1, in_use_head = 2, memory = demo_mem,
     table = \<lparr>ht_length = 0, ht_elems = 0, ht_list = []\<rparr>, deleted = []\<rparr>"

definition demo_ms :: "(nat \<times> nat \<times> mem) list" where
  "demo_ms = map (\<lambda>i. (2 * i + 1, 2 * i + 2, demo_mem)) [0..<16]"

definition cache_demo_ops :: "cop list" where
  "cache_demo_ops = [Insert [1] 7 1 0 40, Release 40, Lookup [1], Release 40, Erase [1]]"

lemma demo_ms_ok: "ms_ok demo_ms"
  by (auto simp: ms_ok_def demo_ms_def demo_mem_def kNumShards_def kNumShardBits_def)

lemma demo_legal: "legal_cops (head_list demo_ms) cache_demo_ops (as_init 100)"
  by code_simp

theorem lru_cache_refines_witness:
  "\<exists>c0 c. ShardedLRUCache_init demo_ms (\<lambda>_. demo_shard) 100 = Inr c0
    \<and> run_cops cache_demo_ops c0 = Inr (fst (spec_cops cache_demo_ops (as_init 100)), c)
    \<and> (\<forall>i < kNumShards. deleted (shards c i) = a_log (as_shard (snd (spec_cops cache_demo_ops (as_init 100))) i))"
  using lru_cache_refines[OF demo_ms_ok demo_legal] by (simp add: cache_demo_ops_def)

lemma demo_run:
  assumes "legal_cops (head_list demo_ms) ps (as_init 100)" "length ps < 2 ^ 31"
  obtains c0 out c where "ShardedLRUCache_init demo_ms (\<lambda>_. demo_shard) 100 = Inr c0" "run_cops ps c0 = Inr (out, c)"
  using legal_run[OF demo_ms_ok assms, of "\<lambda>_. demo_shard"] by blast

theorem cache_deletes_once_witness:
  "\<exists>c0 out c. ShardedLRUCache_init demo_ms (\<lambda>_. demo_shard) 100 = Inr c0 \<and> run_cops cache_demo_ops c0 = Inr (out, c)
    \<and> 1 = (\<Sum>i < kNumShards. length (filter (\<lambda>d. fst d = 40) (deleted (shards c i)))
           + (if obj (memory (shards c i)) 40 \<noteq> None then 1 else 0))"
proof -
  obtain c0 out c where r: "ShardedLRUCache_init demo_ms (\<lambda>_. demo_shard) 100 = Inr c0" "run_cops cache_demo_ops c0 = Inr (out, c)"
    by (rule demo_run[OF demo_legal]) (simp add: cache_demo_ops_def)
  have "length (filter (allocates 40) cache_demo_ops) = 1" by (simp add: cache_demo_ops_def)
  moreover have "length cache_demo_ops < 2 ^ 31" by (simp add: cache_demo_ops_def)
  ultimately show ?thesis using r cache_deletes_once[OF demo_ms_ok demo_legal _ r, of 40] by auto
qed

theorem cache_insert_lookup_witness:
  "\<exists>c0 out c. ShardedLRUCache_init demo_ms (\<lambda>_. demo_shard) 100 = Inr c0
    \<and> run_cops ([Lookup [1]] @ [Insert [1] 7 1 0 40]) c0 = Inr (out, c)
    \<and> (usage (shards c (Shard (HashSlice [1]))) \<le> capacity (shards c (Shard (HashSlice [1])))
       \<or> lru_empty (shards c (Shard (HashSlice [1]))))"
proof -
  have l: "legal_cops (head_list demo_ms) ([Lookup [1]] @ [Insert [1] 7 1 0 40]) (as_init 100)" by code_simp
  obtain c0 out c where r: "ShardedLRUCache_init demo_ms (\<lambda>_. demo_shard) 100 = Inr c0"
    "run_cops ([Lookup [1]] @ [Insert [1] 7 1 0 40]) c0 = Inr (out, c)"
    by (rule demo_run[OF l]) simp
  have "length [Lookup [1]] < 2 ^ 31 - 2" by simp
  from cache_insert_lookup[OF demo_ms_ok l this r refl] show ?thesis using r by blast
qed

end
