(* ===== verification/Spec2Isabelle.thy ===== *)
theory Spec2Isabelle
  imports DbWrite Bloom LinkedList KvFifo Crc32c KvSched LruSharded
begin

text \<open>
  KVRocks keeps an ordered key-value store on key-value SSDs. A client collects
  updates in a \<open>WriteBatch\<close>; \<open>DBImpl::Write\<close> gives the batch one transaction id per
  update, links a new version of each column into the \<open>UserKey\<close> objects of a hash
  map, and workers later pack the versions into device records. On the kernel
  side an I/O scheduler inside the NVMe driver buffers asynchronous commands,
  merges commands on the same key and keeps read-ahead data. This development
  models the data structures and handlers on both sides and proves what their
  users rely on.

  \<^bold>\<open>Conventions.\<close> Machine integers are words of their C width, so arithmetic wraps as
  in the code. Byte strings are lists of 8-bit words. Objects in memory are
  addresses (natural numbers, 0 the null pointer) with explicit stores. Every
  operation of the code that can fault returns a value of type \<open>'a run\<close>, whose
  left values (\<open>fault\<close> in \<open>Prelude\<close>) are failed assertions, accesses out of
  bounds or after free, misused locks, aborts and loops that do not end. Code
  outside the sources (allocators, the merge operator, the CRC instruction, user
  memory, the device) is an argument of the definitions that use it.

  \<^bold>\<open>Formats\<close> (\<^verbatim>\<open>insdb/util\<close>, \<^verbatim>\<open>insdb/include\<close>).
  \<^item> \<open>Codec\<close> states two contracts: an encoding that can be read back from the front
    of any input, and a reader that stays inside its input. \<open>Coding\<close> (coding.cc)
    interprets them for fixed-width, varint and length-prefixed data.
  \<^item> \<open>Slices\<close> (slice.h, comparator.cc, cleanable.cc): comparison is the
    lexicographic order, key shortening stays between its arguments, cleanups run
    exactly once. \<open>Hashing\<close> (hash.cc, slice.h): equal keys have equal hashes.
    \<open>Bloom\<close> (bloom.cc): no false negatives. \<open>Crc32c\<close> (crc32c.cc): the table-driven
    and the instruction-driven routine compute the bitwise CRC, which detects
    every burst of at most 32 bits. \<open>Logging\<close> (logging.cc, status.cc): decimal
    numbers, escaped strings and packed status values.

  \<^bold>\<open>Write path\<close> (\<^verbatim>\<open>insdb/db\<close>).
  \<^item> \<open>WriteBatch\<close> (write_batch.cc): the representation and every operation on it;
    iterating a batch replays the operations that were added.
  \<^item> \<open>ColumnNodes\<close>, \<open>UserKeys\<close>, \<open>UserValues\<close> (insdb_internal.h, userkey.cc): packed
    column versions, the version lists of a key with vertical merge, and value
    buffers. Merging versions keeps every read at the snapshots it is given.
  \<^item> \<open>TrxnGroups\<close> (manifest.cc): transaction ids, groups of 32 and the ranges of
    completed groups, as a state machine with its invariant.
  \<^item> \<open>WriteStore\<close>, \<open>DbWrite\<close> (write_batch.cc, db_impl.cc): storing a batch and
    writing an encoded batch make exactly its last update of each column visible.
  \<^item> \<open>Queues\<close> states the contract of a first-in first-out queue; \<open>LinkedList\<close>
    (list.h) interprets it on circular pointer lists, \<open>KvFifo\<close> (kv_fifo.h) on the
    ring buffer of the kernel driver, including the interleaving of its producer
    and consumer around the unlocked tests.

  \<^bold>\<open>Block cache\<close> (\<^verbatim>\<open>insdb/util/cache.cc\<close>).
  \<^item> \<open>CacheTable\<close>: \<open>HandleTable\<close>, a chained hash table that grows, at the level of its
    pointers; the contract \<open>handle_map\<close> is what the cache uses of it.
  \<^item> \<open>LruShape\<close>, \<open>LruCache\<close>: one shard, \<open>LRUCache\<close>, with two circular pointer lists and
    reference counts, and the abstract cache it refines. \<open>LruSharded\<close>:
    \<open>ShardedLRUCache\<close> under sequences of client calls: no fault, the results and
    evictions of the abstract caches, every entry deleted exactly once.

  \<^bold>\<open>Kernel scheduler\<close> (\<^verbatim>\<open>kv_kernel_driver/iosched_dd_kr_new/nvme_iosched_driver_new\<close>).
  \<^item> \<open>KvHash\<close> (kv_hash.c): the request and read-ahead tables with reference counts
    and spin locks. A \<open>goto restart\<close> is the result \<open>Restart\<close> of one pass.
  \<^item> \<open>KvIosched\<close> (kv_core.c, kv_iosched.c): the handlers of asynchronous and
    synchronous commands, submission and completion. \<open>KvSched\<close> runs them as steps of
    a state machine; its invariant shows that no reachable step touches a freed
    request or misuses a lock, that lookups end with their first pass, and that
    completion releases the queues that wait for it.

  \<^bold>\<open>Bounds.\<close> Loops are structurally recursive, or functions with a termination
  proof. Loops that follow pointers or double a size are partial functions, and
  the theorems show that they end; no fuel is used. The run of the block cache is
  bounded by 2^31 calls, so that reference counts and table sizes cannot wrap.

  \<^bold>\<open>Not modelled.\<close> The worker threads of \<^verbatim>\<open>db/sktable.cc\<close> and the manifest records of
  \<^verbatim>\<open>db/manifest.cc\<close> (device I/O and timing decide what they do), the lock-free skip
  list, iterators and snapshots over key tables, the environment and the C
  interface, the generic NVMe driver, and the bundled copies of RocksDB, folly,
  snappy and gflags. In the scheduler each handler is one atomic step: finer
  interleavings are covered only where a theorem says so.
\<close>

end
